(* ===== verification/GoPrelude.thy ===== *)
theory GoPrelude
  imports Main "HOL-Library.Word" "HOL-Library.AList" "HOL-Library.Signed_Division"
    "HOL-Library.Multiset"
begin

text \<open>
  The vocabulary shared by every component of the development: Go's fixed-width integers,
  \<^verbatim>\<open>time.Time\<close> and \<^verbatim>\<open>time.Duration\<close>, panics as values, slices indexed by
  \<^verbatim>\<open>int\<close>, and Go maps.  It also declares the development's collections of
  simplification rules (\<open>go_arith\<close>, \<open>go_map\<close>).

  \<^item> \<^emph>\<open>Integers.\<close>  \<^verbatim>\<open>int64\<close> (and \<^verbatim>\<open>int\<close>, \<^verbatim>\<open>time.Duration\<close>) are unbounded
    integers; \<open>i64\<close> is the two's complement wrap-around to 64 bits and is written at
    every addition, subtraction and multiplication of the code whose operands are not
    already bounded by the length of a slice or a map.
  \<^item> \<^emph>\<open>Time.\<close>  A \<^verbatim>\<open>time.Time\<close> is its distance in nanoseconds from the Unix epoch.
    Every comparison or difference the modelled code makes has at least one operand
    built by \<^verbatim>\<open>time.Unix\<close>, which carries no monotonic clock reading, so
    Go uses the wall clock for it, and an integer is all there is to a \<^verbatim>\<open>Time\<close>.
  \<^item> \<^emph>\<open>Maps.\<close>  A Go map is an association list with distinct keys (\<open>gm_ok\<close>).
    The order in which \<^verbatim>\<open>range\<close> visits a map is not specified by Go; every
    operation that iterates takes it as a parameter \<open>rng\<close>, a function that permutes
    the list of keys.
\<close>

named_theorems go_arith \<open>wrap-around and saturation disappear on values that fit\<close>
named_theorems go_map \<open>lookup, length and well-formedness of Go maps after an update\<close>

section \<open>Machine integers\<close>

type_synonym int64 = int
type_synonym duration = int
type_synonym gotime = int

definition i64 :: "int \<Rightarrow> int64" where
  "i64 x = signed_take_bit 63 x"

definition is_i64 :: "int \<Rightarrow> bool" where
  "is_i64 x \<longleftrightarrow> - 9223372036854775808 \<le> x \<and> x \<le> 9223372036854775807"

definition max_i64 :: int64 where
  "max_i64 = 9223372036854775807"

definition min_i64 :: int64 where
  "min_i64 = - 9223372036854775808"

text \<open>Go's integer division truncates towards zero; the only quotient that does not fit
  is \<^verbatim>\<open>MinInt64 / -1\<close>, which wraps.\<close>

definition go_div :: "int64 \<Rightarrow> int64 \<Rightarrow> int64" where
  "go_div a b = i64 (a sdiv b)"

definition go_rem :: "int64 \<Rightarrow> int64 \<Rightarrow> int64" where
  "go_rem a b = a smod b"

lemma i64_sint_word: "i64 x = sint (word_of_int x :: 64 word)"
  by (simp add: i64_def sint_uint uint_word_of_int_eq signed_take_bit_take_bit)

lemma i64_id [go_arith]: "is_i64 x \<Longrightarrow> i64 x = x"
  by (simp add: i64_def is_i64_def signed_take_bit_int_eq_self)

lemma is_i64_i64 [simp]: "is_i64 (i64 x)"
  using signed_take_bit_int_greater_eq_minus_exp [of 63 x] signed_take_bit_int_less_exp [of 63 x]
  by (simp add: i64_def is_i64_def)

lemma i64_idem [simp]: "i64 (i64 x) = i64 x"
  by (simp add: i64_id)

lemma i64_add_left: "i64 (i64 a + b) = i64 (a + b)"
  by (simp add: i64_sint_word)

lemma is_i64I: "0 \<le> x \<Longrightarrow> x \<le> 9223372036854775807 \<Longrightarrow> is_i64 x"
  by (simp add: is_i64_def)

lemma sdiv_nonneg: "0 \<le> a \<Longrightarrow> 0 < b \<Longrightarrow> a sdiv b = a div (b::int)"
  by (cases "a = 0") (simp_all add: signed_divide_int_def)

lemma go_div_nonneg [go_arith]:
  assumes "0 \<le> a" "a \<le> 9223372036854775807" "0 < b"
  shows "go_div a b = a div b"
proof -
  have "a div b \<le> a"
    using assms div_le_dividend [of "nat a" "nat b"]
    by (metis div_by_1 int_one_le_iff_zero_less zdiv_mono2 zero_less_one)
  moreover have "0 \<le> a div b"
    using assms by (simp add: pos_imp_zdiv_nonneg_iff)
  ultimately show ?thesis
    using assms by (simp add: go_div_def sdiv_nonneg i64_id is_i64_def)
qed

lemma sdiv_neg_le: "a < 0 \<Longrightarrow> 0 < b \<Longrightarrow> a sdiv b \<le> (0::int)"
  by (simp add: signed_divide_int_def sgn_if pos_imp_zdiv_nonneg_iff)

lemma sdiv_neg_ge:
  assumes "a < 0" "0 < b"
  shows "a \<le> a sdiv (b::int)"
proof -
  have "- a div b \<le> - a"
    using assms by (metis div_by_1 int_one_le_iff_zero_less neg_0_le_iff_le order_less_imp_le
        zdiv_mono2 zero_less_one)
  with assms show ?thesis by (simp add: signed_divide_int_def sgn_if)
qed

lemma go_div_neg_le:
  assumes "is_i64 a" "a < 0" "0 < b"
  shows "go_div a b \<le> 0"
proof -
  have "a sdiv b \<le> 0" "a \<le> a sdiv b"
    using assms by (simp_all add: sdiv_neg_le sdiv_neg_ge)
  then show ?thesis
    using assms by (simp add: go_div_def i64_id is_i64_def)
qed

lemma go_rem_nonneg [go_arith]: "0 \<le> a \<Longrightarrow> 0 < b \<Longrightarrow> go_rem a b = a mod b"
  by (cases "a = 0") (simp_all add: go_rem_def signed_modulo_int_def sdiv_nonneg
      minus_div_mult_eq_mod sgn_if)

section \<open>Time and durations\<close>

definition Nanosecond :: duration where "Nanosecond = 1"
definition Millisecond :: duration where "Millisecond = 1000000"
definition Second :: duration where "Second = 1000000000"
definition Hour :: duration where "Hour = 3600000000000"

text \<open>The zero \<^verbatim>\<open>time.Time\<close> is midnight of the first of January of year 1, UTC.\<close>

definition zeroTime :: gotime where
  "zeroTime = - 62135596800000000000"

definition IsZero :: "gotime \<Rightarrow> bool" where
  "IsZero t \<longleftrightarrow> t = zeroTime"

definition UnixNano :: "gotime \<Rightarrow> int64" where
  "UnixNano t = i64 t"

definition timeUnix :: "int64 \<Rightarrow> gotime" where
  "timeUnix nsec = nsec"

definition timeAdd :: "gotime \<Rightarrow> duration \<Rightarrow> gotime" where
  "timeAdd t d = t + d"

text \<open>\<^verbatim>\<open>Time.Sub\<close> saturates at the largest and the smallest \<^verbatim>\<open>Duration\<close>.\<close>

definition timeSub :: "gotime \<Rightarrow> gotime \<Rightarrow> duration" where
  "timeSub t u = (if is_i64 (t - u) then t - u else if t < u then min_i64 else max_i64)"

definition Before :: "gotime \<Rightarrow> gotime \<Rightarrow> bool" where
  "Before t u \<longleftrightarrow> t < u"

definition After :: "gotime \<Rightarrow> gotime \<Rightarrow> bool" where
  "After t u \<longleftrightarrow> t > u"

definition Milliseconds :: "duration \<Rightarrow> int64" where
  "Milliseconds d = go_div d 1000000"

text \<open>The instants a running service sees: between 1970 and 2262, where
  \<^verbatim>\<open>UnixNano\<close> is exact.\<close>

definition valid_time :: "gotime \<Rightarrow> bool" where
  "valid_time t \<longleftrightarrow> 0 \<le> t \<and> t \<le> 9223372036854775807"

lemmas time_defs = Before_def After_def timeUnix_def timeAdd_def

lemma timeSub_valid [go_arith]: "valid_time t \<Longrightarrow> valid_time u \<Longrightarrow> timeSub t u = t - u"
  by (simp add: timeSub_def valid_time_def is_i64_def)

lemma UnixNano_valid [go_arith]: "valid_time t \<Longrightarrow> UnixNano t = t"
  by (simp add: UnixNano_def valid_time_def i64_id is_i64_def)

section \<open>Panics and slices\<close>

datatype 'a go = Ret 'a | Panic

definition slice_get :: "'a list \<Rightarrow> int \<Rightarrow> 'a go" where
  "slice_get xs i = (if 0 \<le> i \<and> i < int (length xs) then Ret (xs ! nat i) else Panic)"

definition slice_set :: "'a list \<Rightarrow> int \<Rightarrow> 'a \<Rightarrow> 'a list go" where
  "slice_set xs i v = (if 0 \<le> i \<and> i < int (length xs) then Ret (xs[nat i := v]) else Panic)"

lemma slice_get_in [simp]: "i < length xs \<Longrightarrow> slice_get xs (int i) = Ret (xs ! i)"
  by (simp add: slice_get_def)

lemma slice_set_in [simp]: "i < length xs \<Longrightarrow> slice_set xs (int i) v = Ret (xs[i := v])"
  by (simp add: slice_set_def)

section \<open>Go maps\<close>

type_synonym ('k, 'v) gomap = "('k \<times> 'v) list"

definition gm_lookup :: "('k, 'v) gomap \<Rightarrow> 'k \<Rightarrow> 'v option" where
  "gm_lookup m k = map_of m k"

definition gm_set :: "'k \<Rightarrow> 'v \<Rightarrow> ('k, 'v) gomap \<Rightarrow> ('k, 'v) gomap" where
  "gm_set k v m = AList.update k v m"

definition gm_delete :: "'k \<Rightarrow> ('k, 'v) gomap \<Rightarrow> ('k, 'v) gomap" where
  "gm_delete k m = AList.delete k m"

definition gm_len :: "('k, 'v) gomap \<Rightarrow> int" where
  "gm_len m = int (length m)"

definition gm_keys :: "('k, 'v) gomap \<Rightarrow> 'k list" where
  "gm_keys m = map fst m"

definition gm_ok :: "('k, 'v) gomap \<Rightarrow> bool" where
  "gm_ok m \<longleftrightarrow> distinct (map fst m)"

text \<open>\<open>is_range rng\<close>: the function \<open>rng\<close> is a possible iteration order, one that visits
  every key exactly once.\<close>

type_synonym 'k range_order = "'k list \<Rightarrow> 'k list"

definition is_range :: "'k range_order \<Rightarrow> bool" where
  "is_range rng \<longleftrightarrow> (\<forall>ks. mset (rng ks) = mset ks)"

lemma is_range_set: "is_range rng \<Longrightarrow> set (rng ks) = set ks"
  unfolding is_range_def by (metis set_mset_mset)

lemma is_range_id: "is_range (\<lambda>ks. ks)"
  by (simp add: is_range_def)

lemma gm_ok_empty [simp, go_map]: "gm_ok []"
  by (simp add: gm_ok_def)

lemma gm_ok_set [simp, go_map]: "gm_ok m \<Longrightarrow> gm_ok (gm_set k v m)"
  by (simp add: gm_ok_def gm_set_def distinct_update)

lemma gm_ok_delete [simp, go_map]: "gm_ok m \<Longrightarrow> gm_ok (gm_delete k m)"
  by (simp add: gm_ok_def gm_delete_def distinct_delete)

lemma gm_lookup_empty [simp, go_map]: "gm_lookup [] k = None"
  by (simp add: gm_lookup_def)

lemma gm_lookup_set [go_map]: "gm_lookup (gm_set k v m) k' = (if k' = k then Some v else gm_lookup m k')"
  by (simp add: gm_lookup_def gm_set_def update_conv')

lemma gm_lookup_delete [go_map]: "gm_lookup (gm_delete k m) k' = (if k' = k then None else gm_lookup m k')"
  by (simp add: gm_lookup_def gm_delete_def delete_conv')

lemma gm_lookup_None: "gm_lookup m k = None \<longleftrightarrow> k \<notin> set (gm_keys m)"
  by (simp add: gm_lookup_def gm_keys_def map_of_eq_None_iff)

lemma gm_keys_lookup: "k \<in> set (gm_keys m) \<longleftrightarrow> (\<exists>v. gm_lookup m k = Some v)"
  using gm_lookup_None [of m k] by (cases "gm_lookup m k") auto

lemma gm_ok_keys: "gm_ok m \<longleftrightarrow> distinct (gm_keys m)"
  by (simp add: gm_ok_def gm_keys_def)

lemma gm_len_keys: "gm_len m = int (length (gm_keys m))"
  by (simp add: gm_len_def gm_keys_def)

lemma gm_keys_set: "set (gm_keys (gm_set k v m)) = insert k (set (gm_keys m))"
  by (simp add: gm_keys_def gm_set_def dom_update)

lemma gm_len_set_new: "gm_lookup m k = None \<Longrightarrow> gm_len (gm_set k v m) = gm_len m + 1"
  by (induction m) (auto simp: gm_len_def gm_set_def gm_lookup_def split: if_splits)

lemma gm_len_set_old: "gm_lookup m k = Some u \<Longrightarrow> gm_len (gm_set k v m) = gm_len m"
  by (induction m) (auto simp: gm_len_def gm_set_def gm_lookup_def split: if_splits)

lemma gm_len_delete_old:
  "gm_ok m \<Longrightarrow> gm_lookup m k = Some u \<Longrightarrow> gm_len (gm_delete k m) = gm_len m - 1"
proof (induction m)
  case (Cons p m)
  show ?case
  proof (cases "fst p = k")
    case True
    with Cons.prems(1) have "k \<notin> fst ` set m" by (auto simp: gm_ok_def)
    then have "AList.delete k m = m" by simp
    with True show ?thesis by (cases p) (simp add: gm_len_def gm_delete_def)
  next
    case False
    with Cons show ?thesis
      by (cases p) (simp add: gm_len_def gm_delete_def gm_ok_def gm_lookup_def)
  qed
qed (simp add: gm_lookup_def)

text \<open>Apply a function to every value, as a loop that calls a method on each element does.\<close>

definition gm_map :: "('v \<Rightarrow> 'w) \<Rightarrow> ('k, 'v) gomap \<Rightarrow> ('k, 'w) gomap" where
  "gm_map f m = map (\<lambda>(k, v). (k, f v)) m"

lemma gm_keys_map [simp, go_map]: "gm_keys (gm_map f m) = gm_keys m"
  by (induction m) (auto simp: gm_keys_def gm_map_def)

lemma gm_ok_map [simp, go_map]: "gm_ok (gm_map f m) = gm_ok m"
  by (simp add: gm_ok_keys)

lemma gm_lookup_map [go_map]: "gm_lookup (gm_map f m) k = map_option f (gm_lookup m k)"
  by (simp add: gm_lookup_def gm_map_def map_of_map)

section \<open>The contract of a Go map\<close>

text \<open>
  What the components rely on when they keep their state in a map: the laws of lookup,
  insertion, deletion and length.  The association lists above satisfy them.
\<close>

locale finite_map_contract =
  fixes lookup :: "'m \<Rightarrow> 'k \<Rightarrow> 'v option"
    and upd :: "'k \<Rightarrow> 'v \<Rightarrow> 'm \<Rightarrow> 'm"
    and del :: "'k \<Rightarrow> 'm \<Rightarrow> 'm"
    and len :: "'m \<Rightarrow> int"
    and ok :: "'m \<Rightarrow> bool"
  assumes lookup_upd: "lookup (upd k v m) k' = (if k' = k then Some v else lookup m k')"
    and lookup_del: "lookup (del k m) k' = (if k' = k then None else lookup m k')"
    and ok_upd: "ok m \<Longrightarrow> ok (upd k v m)"
    and ok_del: "ok m \<Longrightarrow> ok (del k m)"
    and len_upd: "len (upd k v m) = (if lookup m k = None then len m + 1 else len m)"
    and len_del: "ok m \<Longrightarrow> lookup m k \<noteq> None \<Longrightarrow> len (del k m) = len m - 1"
begin

text \<open>Replacing one key by another, as an eviction followed by an insertion does, keeps the
  size.\<close>

lemma len_replace:
  assumes "ok m" "lookup m old \<noteq> None" "lookup m new = None"
  shows "len (upd new v (del old m)) = len m"
proof -
  have "old \<noteq> new" using assms(2,3) by auto
  with assms show ?thesis by (simp add: len_upd lookup_del len_del)
qed

lemma lookup_replace_other:
  "k \<noteq> old \<Longrightarrow> k \<noteq> new \<Longrightarrow> lookup (upd new v (del old m)) k = lookup m k"
  by (simp add: lookup_upd lookup_del)

end

interpretation gm: finite_map_contract gm_lookup gm_set gm_delete gm_len gm_ok
proof (unfold_locales, goal_cases)
  case (5 k v m)
  show ?case by (cases "gm_lookup m k") (simp_all add: gm_len_set_new gm_len_set_old)
next
  case (6 m k)
  then show ?case by (auto simp: gm_len_delete_old)
qed (simp_all add: go_map)

end
