(* ===== verification/Window.thy ===== *)
theory Window
  imports GoPrelude
begin

text \<open>
  The sliding-window limiter (\<^verbatim>\<open>internal/window/window.go\<close>): a ring buffer of
  nanosecond timestamps with a head index and a count, compacted on every request.

  The ring is related to the queue of its live timestamps (\<open>live\<close>), and the queue to
  the log of every request ever accepted: \<open>window_Allow\<close> takes exactly the decisions
  of the limiter that counts the accepted requests of the trailing window in that log.
  Indexing out of range is a panic of the model; it is shown not to happen.
\<close>

section \<open>Data and operations\<close>

record window_Config =
  wEnabled :: bool
  WindowDuration :: duration
  MaxRequests :: int64
  BufferSize :: int

record SlidingWindow =
  windowSize :: duration
  maxRequests :: int64
  timestamps :: "int64 list"
  head :: int
  count :: int

definition window_New :: "window_Config \<Rightarrow> SlidingWindow" where
  "window_New cfg =
     (let minSize = i64 (MaxRequests cfg + 1);
          bufSize = BufferSize cfg;
          bufSize = (if bufSize < minSize then minSize else bufSize);
          bufSize = (if bufSize < 1 then 1 else bufSize)
      in \<lparr>windowSize = WindowDuration cfg, maxRequests = MaxRequests cfg,
          timestamps = replicate (nat bufSize) 0, head = 0, count = 0\<rparr>)"

text \<open>The loop of \<^verbatim>\<open>compactLocked\<close>: it returns the final count, and whether an
  index was out of range.\<close>

function compact_loop :: "int64 list \<Rightarrow> int64 \<Rightarrow> int \<Rightarrow> int \<Rightarrow> int \<times> unit go" where
  "compact_loop ts cutoff start cnt =
     (if cnt > 0 then
        (case slice_get ts start of
           Panic \<Rightarrow> (cnt, Panic)
         | Ret t \<Rightarrow> if t \<le> cutoff
                    then compact_loop ts cutoff (go_rem (start + 1) (int (length ts))) (cnt - 1)
                    else (cnt, Ret ()))
      else (cnt, Ret ()))"
  by pat_completeness auto
termination
  by (relation "measure (\<lambda>(ts, cutoff, start, cnt). nat cnt)") auto

declare compact_loop.simps [simp del]

definition compactLocked :: "SlidingWindow \<Rightarrow> int64 \<Rightarrow> SlidingWindow \<times> unit go" where
  "compactLocked w cutoff =
     (let n = int (length (timestamps w)) in
      if n = 0 \<or> count w = 0 then (w, Ret ())
      else let start = go_rem (head w - count w + n) n;
               (cnt, r) = compact_loop (timestamps w) cutoff start (count w)
           in (w\<lparr>count := cnt\<rparr>, r))"

definition pushLocked :: "SlidingWindow \<Rightarrow> int64 \<Rightarrow> SlidingWindow \<times> unit go" where
  "pushLocked w ts =
     (let n = int (length (timestamps w)) in
      case slice_set (timestamps w) (head w) ts of
        Panic \<Rightarrow> (w, Panic)
      | Ret buf \<Rightarrow>
          let w1 = w\<lparr>timestamps := buf, head := go_rem (head w + 1) n\<rparr>
          in (if count w1 < n then w1\<lparr>count := count w1 + 1\<rparr> else w1, Ret ()))"

definition window_Allow :: "SlidingWindow \<Rightarrow> gotime \<Rightarrow> SlidingWindow \<times> bool go" where
  "window_Allow w now =
     (let nowNano = UnixNano now in
      case compactLocked w (i64 (nowNano - windowSize w)) of
        (w1, Panic) \<Rightarrow> (w1, Panic)
      | (w1, Ret _) \<Rightarrow>
          if count w1 \<ge> maxRequests w1 then (w1, Ret False)
          else (case pushLocked w1 nowNano of
                  (w2, Panic) \<Rightarrow> (w2, Panic)
                | (w2, Ret _) \<Rightarrow> (w2, Ret True)))"

definition Cleanup :: "SlidingWindow \<Rightarrow> gotime \<Rightarrow> SlidingWindow \<times> unit go" where
  "Cleanup w now = compactLocked w (i64 (UnixNano now - windowSize w))"

definition Count :: "SlidingWindow \<Rightarrow> int" where
  "Count w = count w"

section \<open>Invariant and abstraction\<close>

text \<open>
  The ring is well formed when its indices are in range and its count is at most both the
  request limit and the buffer, which is strictly larger than the limit (what
  \<^verbatim>\<open>New\<close> arranges).
\<close>

definition window_ok :: "SlidingWindow \<Rightarrow> bool" where
  "window_ok w \<longleftrightarrow> 0 \<le> head w \<and> head w < int (length (timestamps w))
     \<and> 0 \<le> count w \<and> count w \<le> max 0 (maxRequests w)
     \<and> maxRequests w < int (length (timestamps w))"

text \<open>The live timestamps, oldest first.\<close>

definition ring_start :: "SlidingWindow \<Rightarrow> nat" where
  "ring_start w = nat (head w - count w + int (length (timestamps w))) mod length (timestamps w)"

definition ring_segment :: "'a list \<Rightarrow> nat \<Rightarrow> nat \<Rightarrow> 'a list" where
  "ring_segment ts s c = map (\<lambda>i. ts ! ((s + i) mod length ts)) [0..<c]"

definition live :: "SlidingWindow \<Rightarrow> int64 list" where
  "live w = ring_segment (timestamps w) (ring_start w) (nat (count w))"

lemma length_ring_segment [simp]: "length (ring_segment ts s c) = c"
  by (simp add: ring_segment_def)

lemma ring_segment_0 [simp]: "ring_segment ts s 0 = []"
  by (simp add: ring_segment_def)

lemma ring_segment_Suc:
  "s < length ts \<Longrightarrow>
   ring_segment ts s (Suc c) = ts ! s # ring_segment ts (Suc s mod length ts) c"
proof -
  assume s: "s < length ts"
  have "[0..<Suc c] = 0 # map Suc [0..<c]"
    by (metis upt_conv_Cons map_Suc_upt zero_less_Suc)
  moreover have "(s + Suc i) mod length ts = (Suc s mod length ts + i) mod length ts" for i
    by (simp add: mod_add_left_eq)
  ultimately show ?thesis using s by (simp add: ring_segment_def)
qed

lemma ring_segment_snoc:
  "ring_segment ts s (Suc c) = ring_segment ts s c @ [ts ! ((s + c) mod length ts)]"
  by (simp add: ring_segment_def)

lemma ring_segment_update:
  assumes "s < length ts" "c < length ts"
  shows "ring_segment (ts[(s + c) mod length ts := x]) s c = ring_segment ts s c"
proof -
  have "(s + i) mod length ts \<noteq> (s + c) mod length ts" if "i < c" for i
  proof
    assume "(s + i) mod length ts = (s + c) mod length ts"
    then have "(s + c - (s + i)) mod length ts = 0"
      using that by (metis mod_eq_dvd_iff_nat add_le_cancel_left dvd_imp_mod_0 less_imp_le)
    with that assms(2) show False by simp
  qed
  then show ?thesis by (fastforce simp: ring_segment_def nth_list_update)
qed

lemma length_live: "0 \<le> count w \<Longrightarrow> int (length (live w)) = count w"
  by (simp add: live_def)

section \<open>Compaction drops the expired prefix\<close>

lemma compact_loop_dropWhile:
  assumes "s < length ts"
  shows "\<exists>c'. compact_loop ts cutoff (int s) (int c) = (int c', Ret ()) \<and> c' \<le> c
     \<and> ring_segment ts ((s + (c - c')) mod length ts) c' =
         dropWhile (\<lambda>t. t \<le> cutoff) (ring_segment ts s c)"
  using assms
proof (induction c arbitrary: s)
  case 0
  then show ?case by (auto simp: compact_loop.simps)
next
  case (Suc c)
  let ?n = "length ts"
  have next_idx: "go_rem (int s + 1) (int ?n) = int (Suc s mod ?n)"
    using Suc.prems by (subst go_rem_nonneg) (auto simp: zmod_int add.commute)
  show ?case
  proof (cases "ts ! s \<le> cutoff")
    case True
    have "Suc s mod ?n < ?n" using Suc.prems by (intro mod_less_divisor) linarith
    from Suc.IH [OF this] obtain c' where c':
      "compact_loop ts cutoff (int (Suc s mod ?n)) (int c) = (int c', Ret ())" "c' \<le> c"
      "ring_segment ts ((Suc s mod ?n + (c - c')) mod ?n) c' =
         dropWhile (\<lambda>t. t \<le> cutoff) (ring_segment ts (Suc s mod ?n) c)"
      by blast
    have "compact_loop ts cutoff (int s) (int (Suc c)) = (int c', Ret ())"
      using True Suc.prems c'(1) next_idx
      by (subst compact_loop.simps) (simp add: add.commute)
    moreover have "(s + (Suc c - c')) mod ?n = (Suc s mod ?n + (c - c')) mod ?n"
    proof -
      have "(Suc s mod ?n + (c - c')) mod ?n = (Suc s + (c - c')) mod ?n"
        by (rule mod_add_left_eq)
      also have "Suc s + (c - c') = s + (Suc c - c')" using c'(2) by simp
      finally show ?thesis by simp
    qed
    ultimately show ?thesis
      using True Suc.prems c'(2,3) by (intro exI [of _ c']) (simp add: ring_segment_Suc)
  next
    case False
    then have "compact_loop ts cutoff (int s) (int (Suc c)) = (int (Suc c), Ret ())"
      using Suc.prems by (subst compact_loop.simps) simp
    then show ?thesis
      using False Suc.prems by (intro exI [of _ "Suc c"]) (simp add: ring_segment_Suc)
  qed
qed

lemma ring_start_less: "window_ok w \<Longrightarrow> ring_start w < length (timestamps w)"
  unfolding ring_start_def window_ok_def by (intro mod_less_divisor) linarith

lemma go_rem_start:
  "window_ok w \<Longrightarrow>
   go_rem (head w - count w + int (length (timestamps w))) (int (length (timestamps w))) =
     int (ring_start w)"
  by (subst go_rem_nonneg) (auto simp: window_ok_def ring_start_def zmod_int)

lemma ring_start_drop:
  assumes "window_ok w" "0 \<le> c'" "c' \<le> count w"
  shows "ring_start (w\<lparr>count := c'\<rparr>) =
           (ring_start w + nat (count w - c')) mod length (timestamps w)"
proof -
  let ?n = "int (length (timestamps w))"
  have "nat (head w - c' + ?n) = nat (head w - count w + ?n) + nat (count w - c')"
    using assms by (auto simp: window_ok_def)
  then show ?thesis by (simp add: ring_start_def mod_add_left_eq)
qed

lemma compactLocked_live:
  assumes ok: "window_ok w"
  shows "\<exists>c'. compactLocked w cutoff = (w\<lparr>count := c'\<rparr>, Ret ()) \<and> window_ok (w\<lparr>count := c'\<rparr>)
     \<and> live (w\<lparr>count := c'\<rparr>) = dropWhile (\<lambda>t. t \<le> cutoff) (live w)"
proof (cases "count w = 0")
  case True
  then show ?thesis
    using ok by (intro exI [of _ 0]) (auto simp: compactLocked_def live_def window_ok_def)
next
  case False
  let ?ts = "timestamps w"
  from ok have c: "int (nat (count w)) = count w" by (simp add: window_ok_def)
  from compact_loop_dropWhile [OF ring_start_less [OF ok], of cutoff "nat (count w)"]
  obtain c' where c':
    "compact_loop ?ts cutoff (int (ring_start w)) (count w) = (int c', Ret ())"
    "c' \<le> nat (count w)"
    "ring_segment ?ts ((ring_start w + (nat (count w) - c')) mod length ?ts) c' =
       dropWhile (\<lambda>t. t \<le> cutoff) (live w)"
    unfolding c live_def by blast
  have "compactLocked w cutoff = (w\<lparr>count := int c'\<rparr>, Ret ())"
    using ok False c'(1) by (auto simp: compactLocked_def go_rem_start Let_def window_ok_def)
  moreover have "window_ok (w\<lparr>count := int c'\<rparr>)"
    using ok c'(2) by (auto simp: window_ok_def)
  moreover have "ring_start (w\<lparr>count := int c'\<rparr>) =
      (ring_start w + (nat (count w) - c')) mod length ?ts"
  proof -
    from c'(2) c have "int c' \<le> count w" by linarith
    moreover have "nat (count w - int c') = nat (count w) - c'" by linarith
    ultimately show ?thesis using ring_start_drop [OF ok, of "int c'"] by simp
  qed
  ultimately show ?thesis
    using c'(3) by (intro exI [of _ "int c'"]) (simp add: live_def)
qed

section \<open>Pushing appends\<close>

lemma pushLocked_live:
  assumes ok: "window_ok w" and room: "count w < maxRequests w"
  shows "\<exists>w'. pushLocked w x = (w', Ret ()) \<and> window_ok w' \<and> windowSize w' = windowSize w
     \<and> maxRequests w' = maxRequests w \<and> live w' = live w @ [x]"
proof -
  let ?n = "length (timestamps w)" and ?c = "nat (count w)" and ?s = "ring_start w"
  from ok room have n: "count w < int ?n" "0 < ?n" by (auto simp: window_ok_def)
  have hd: "head w = int ((?s + ?c) mod ?n)"
  proof -
    have "(?s + ?c) mod ?n = (nat (head w - count w + int ?n) + ?c) mod ?n"
      by (simp add: ring_start_def mod_add_left_eq)
    also have "nat (head w - count w + int ?n) + ?c = nat (head w) + ?n"
      using ok n by (auto simp: window_ok_def)
    also have "(nat (head w) + ?n) mod ?n = nat (head w)"
      using ok by (simp add: window_ok_def nat_less_iff)
    finally show ?thesis using ok by (simp add: window_ok_def)
  qed
  define w' where "w' = w\<lparr>timestamps := (timestamps w)[(?s + ?c) mod ?n := x],
      head := go_rem (head w + 1) (int ?n), count := count w + 1\<rparr>"
  have step: "pushLocked w x = (w', Ret ())"
    using n by (simp add: pushLocked_def hd w'_def Let_def)
  have h': "head w' = (head w + 1) mod int ?n"
    using ok n(2) by (simp add: w'_def go_rem_nonneg window_ok_def)
  have ok': "window_ok w'"
    using ok room n h' by (auto simp: window_ok_def w'_def)
  have "int (ring_start w') = ((head w + 1) mod int ?n - (count w + 1) + int ?n) mod int ?n"
  proof -
    have "0 \<le> (head w + 1) mod int ?n" using n(2) by simp
    with n(1) have "0 \<le> (head w + 1) mod int ?n - (count w + 1) + int ?n" by linarith
    with h' show ?thesis by (simp add: ring_start_def w'_def zmod_int)
  qed
  also have "\<dots> = (head w - count w + int ?n) mod int ?n"
  proof -
    have "((head w + 1) mod int ?n - (count w + 1) + int ?n) mod int ?n
        = ((head w + 1) mod int ?n + (int ?n - (count w + 1))) mod int ?n"
      by (simp add: algebra_simps)
    also have "\<dots> = (head w + 1 + (int ?n - (count w + 1))) mod int ?n"
      by (rule mod_add_left_eq)
    finally show ?thesis by (simp add: algebra_simps)
  qed
  also have "\<dots> = int ?s"
    using ok n by (auto simp: ring_start_def window_ok_def zmod_int)
  finally have start: "ring_start w' = ?s" by simp
  have "live w' = ring_segment ((timestamps w)[(?s + ?c) mod ?n := x]) ?s (Suc ?c)"
    using ok start by (simp add: live_def w'_def window_ok_def nat_add_distrib)
  also have "\<dots> = live w @ [x]"
    using ring_start_less [OF ok] n ok
    by (simp add: ring_segment_snoc ring_segment_update live_def window_ok_def nat_less_iff)
  finally show ?thesis
    using step ok' by (intro exI [of _ w']) (simp add: w'_def)
qed

section \<open>One decision\<close>

lemma window_Allow_live:
  assumes ok: "window_ok w" and t: "valid_time now" "is_i64 (now - windowSize w)"
  defines "q \<equiv> dropWhile (\<lambda>a. a \<le> now - windowSize w) (live w)"
  defines "d \<equiv> int (length q) < maxRequests w"
  shows "\<exists>w'. window_Allow w now = (w', Ret d) \<and> window_ok w' \<and> windowSize w' = windowSize w
     \<and> maxRequests w' = maxRequests w \<and> live w' = (if d then q @ [now] else q)"
proof -
  have cut: "UnixNano now = now" "i64 (now - windowSize w) = now - windowSize w"
    using t by (simp_all add: go_arith)
  from compactLocked_live [OF ok, of "now - windowSize w"] obtain c' where c':
    "compactLocked w (now - windowSize w) = (w\<lparr>count := c'\<rparr>, Ret ())"
    "window_ok (w\<lparr>count := c'\<rparr>)" "live (w\<lparr>count := c'\<rparr>) = q"
    unfolding q_def by blast
  from c'(2) have len: "int (length q) = c'"
    using length_live [of "w\<lparr>count := c'\<rparr>"] c'(3) by (simp add: window_ok_def)
  show ?thesis
  proof (cases d)
    case True
    then have "count (w\<lparr>count := c'\<rparr>) < maxRequests (w\<lparr>count := c'\<rparr>)"
      by (simp add: d_def len)
    from pushLocked_live [OF c'(2) this, of now] obtain w' where
      "pushLocked (w\<lparr>count := c'\<rparr>) now = (w', Ret ())" "window_ok w'"
      "windowSize w' = windowSize w" "maxRequests w' = maxRequests w" "live w' = q @ [now]"
      using c'(3) by auto
    with True show ?thesis
      by (intro exI [of _ w']) (simp add: window_Allow_def cut c' len d_def Let_def)
  next
    case False
    with c'(2,3) show ?thesis
      by (intro exI [of _ "w\<lparr>count := c'\<rparr>"]) (simp add: window_Allow_def cut c' len d_def Let_def)
  qed
qed

lemma window_New_ok:
  assumes "is_i64 (MaxRequests cfg)" "MaxRequests cfg < max_i64"
  shows "window_ok (window_New cfg)" "live (window_New cfg) = []"
    "windowSize (window_New cfg) = WindowDuration cfg"
    "maxRequests (window_New cfg) = MaxRequests cfg"
  using assms by (auto simp: window_New_def window_ok_def live_def Let_def i64_id is_i64_def max_i64_def)

section \<open>The limiter that remembers everything\<close>

text \<open>
  The reference: a log of all accepted requests, and a request is accepted when fewer than
  \<open>M\<close> of them are younger than \<open>W\<close>.
\<close>

definition log_Allow :: "duration \<Rightarrow> int64 \<Rightarrow> gotime list \<Rightarrow> gotime \<Rightarrow> bool" where
  "log_Allow W M l now \<longleftrightarrow> int (length (filter (\<lambda>a. now - W < a) l)) < M"

fun log_run :: "duration \<Rightarrow> int64 \<Rightarrow> gotime list \<Rightarrow> gotime list \<Rightarrow> bool list" where
  "log_run W M l [] = []"
| "log_run W M l (t # ts) =
     (if log_Allow W M l t then True # log_run W M (l @ [t]) ts else False # log_run W M l ts)"

text \<open>A sequence of calls of \<^verbatim>\<open>Allow\<close> on the ring buffer.\<close>

fun window_run :: "SlidingWindow \<Rightarrow> gotime list \<Rightarrow> bool go list" where
  "window_run w [] = []"
| "window_run w (t # ts) = (let (w', d) = window_Allow w t in d # window_run w' ts)"

fun window_accepted :: "SlidingWindow \<Rightarrow> gotime list \<Rightarrow> gotime list" where
  "window_accepted w [] = []"
| "window_accepted w (t # ts) =
     (let (w', d) = window_Allow w t
      in (if d = Ret True then [t] else []) @ window_accepted w' ts)"

lemma dropWhile_sorted_filter:
  "sorted l \<Longrightarrow> dropWhile (\<lambda>a. a \<le> (c::int)) l = filter (\<lambda>a. c < a) l"
proof (induction l)
  case (Cons a l)
  show ?case
  proof (cases "a \<le> c")
    case True
    with Cons show ?thesis by simp
  next
    case False
    with Cons.prems have "\<forall>b\<in>set l. c < b" by (auto intro: order_less_le_trans)
    with False show ?thesis by (simp add: filter_id_conv)
  qed
qed simp

lemma filter_drop_expired:
  assumes "\<forall>a\<in>set (take k l). \<not> P a"
  shows "filter P (drop k l) = filter P l"
proof -
  have "filter P (take k l) = []" using assms by (simp add: filter_empty_conv)
  then show ?thesis by (metis append_self_conv2 append_take_drop_id filter_append)
qed

text \<open>The simulation relation: the ring holds a suffix of the log, and what it has dropped
  is too old to count.\<close>

definition log_rel :: "SlidingWindow \<Rightarrow> gotime list \<Rightarrow> gotime \<Rightarrow> bool" where
  "log_rel w l t0 \<longleftrightarrow> window_ok w \<and> sorted l \<and> (\<forall>a\<in>set l. a \<le> t0)
     \<and> (\<exists>k. live w = drop k l \<and> (\<forall>a\<in>set (take k l). a \<le> t0 - windowSize w))"

lemma log_rel_split:
  assumes "log_rel w l t0" "t0 \<le> t"
  obtains k where "k \<le> length l"
    "dropWhile (\<lambda>a. a \<le> t - windowSize w) (live w) = drop k l"
    "drop k l = filter (\<lambda>a. t - windowSize w < a) l"
    "\<forall>a\<in>set (take k l). a \<le> t - windowSize w"
proof -
  let ?P = "\<lambda>a. a \<le> t - windowSize w"
  from assms obtain k where k: "live w = drop k l" "\<forall>a\<in>set (take k l). a \<le> t0 - windowSize w"
    and srt: "sorted l" by (auto simp: log_rel_def)
  define m where "m = length (takeWhile ?P l)"
  have "drop m l = dropWhile ?P l"
    by (simp add: m_def dropWhile_eq_drop)
  also have "\<dots> = filter (\<lambda>a. t - windowSize w < a) l"
    by (rule dropWhile_sorted_filter [OF srt])
  finally have 1: "drop m l = filter (\<lambda>a. t - windowSize w < a) l" .
  have "dropWhile ?P (live w) = filter (\<lambda>a. t - windowSize w < a) (drop k l)"
    unfolding k(1) using srt by (intro dropWhile_sorted_filter) (rule sorted_wrt_drop)
  also have "\<dots> = filter (\<lambda>a. t - windowSize w < a) l"
    using k(2) assms(2) by (intro filter_drop_expired) auto
  finally have 2: "dropWhile ?P (live w) = drop m l" using 1 by simp
  have 3: "\<forall>a\<in>set (take m l). ?P a"
    by (metis m_def set_takeWhileD takeWhile_eq_take)
  have "m \<le> length l" by (simp add: m_def length_takeWhile_le)
  with 1 2 3 show thesis using that by blast
qed

lemma window_Allow_log:
  assumes rel: "log_rel w l t0" and t: "t0 \<le> t" "valid_time t" "is_i64 (t - windowSize w)"
  defines "d \<equiv> log_Allow (windowSize w) (maxRequests w) l t"
  shows "\<exists>w'. window_Allow w t = (w', Ret d) \<and> windowSize w' = windowSize w
     \<and> maxRequests w' = maxRequests w \<and> log_rel w' (if d then l @ [t] else l) t"
proof -
  let ?W = "windowSize w"
  obtain k where k: "k \<le> length l" "dropWhile (\<lambda>a. a \<le> t - ?W) (live w) = drop k l"
    "drop k l = filter (\<lambda>a. t - ?W < a) l" "\<forall>a\<in>set (take k l). a \<le> t - ?W"
    by (rule log_rel_split [OF rel t(1)])
  from rel have "window_ok w" by (simp add: log_rel_def)
  from window_Allow_live [OF this t(2,3)] obtain w' where w':
    "window_Allow w t = (w', Ret d)" "window_ok w'" "windowSize w' = ?W"
    "maxRequests w' = maxRequests w" "live w' = (if d then drop k l @ [t] else drop k l)"
    unfolding k(2) d_def log_Allow_def k(3) by blast
  have "log_rel w' (if d then l @ [t] else l) t"
    unfolding log_rel_def
  proof (intro conjI exI [of _ k])
    show "live w' = drop k (if d then l @ [t] else l)" using w'(5) k(1) by simp
    show "\<forall>a\<in>set (take k (if d then l @ [t] else l)). a \<le> t - windowSize w'"
      using k(1,4) w'(3) by simp
  qed (use rel t(1) w'(2) in \<open>auto simp: log_rel_def sorted_append\<close>)
  with w' show ?thesis by blast
qed

lemma window_run_log:
  assumes "log_rel w l t0" "sorted (t0 # ts)"
    and "\<forall>t\<in>set ts. valid_time t \<and> is_i64 (t - windowSize w)"
  shows "window_run w ts = map Ret (log_run (windowSize w) (maxRequests w) l ts)"
  using assms
proof (induction ts arbitrary: w l t0)
  case (Cons t ts)
  from window_Allow_log [OF Cons.prems(1), of t] Cons.prems obtain w' where
    "window_Allow w t = (w', Ret (log_Allow (windowSize w) (maxRequests w) l t))"
    "windowSize w' = windowSize w" "maxRequests w' = maxRequests w"
    "log_rel w' (if log_Allow (windowSize w) (maxRequests w) l t then l @ [t] else l) t"
    by auto
  with Cons.IH [of w' _ t] Cons.prems(2,3) show ?case by (auto split: if_splits)
qed simp

section \<open>The limit holds in every window\<close>

definition in_window :: "duration \<Rightarrow> gotime \<Rightarrow> gotime list \<Rightarrow> int" where
  "in_window W t l = int (length (filter (\<lambda>a. t - W < a \<and> a \<le> t) l))"

lemma log_Allow_within_limit:
  assumes "log_Allow W M l x" "\<forall>a\<in>set l. a \<le> x" "\<And>t. in_window W t l \<le> max 0 M"
  shows "in_window W t (l @ [x]) \<le> max 0 M"
proof (cases "x \<le> t")
  case True
  have "length (filter (\<lambda>a. t - W < a \<and> a \<le> t) l) \<le> length (filter (\<lambda>a. x - W < a) l)"
    using True by (induction l) auto
  with assms(1) show ?thesis by (auto simp: in_window_def log_Allow_def)
next
  case False
  with assms(3) [of t] show ?thesis by (simp add: in_window_def)
qed

lemma window_accepted_limit:
  assumes "log_rel w l t0" "sorted (t0 # ts)"
    and "\<forall>t\<in>set ts. valid_time t \<and> is_i64 (t - windowSize w)"
    and "\<And>t. in_window (windowSize w) t l \<le> max 0 (maxRequests w)"
  shows "in_window (windowSize w) t (l @ window_accepted w ts) \<le> max 0 (maxRequests w)"
  using assms
proof (induction ts arbitrary: w l t0)
  case (Cons x ts)
  let ?d = "log_Allow (windowSize w) (maxRequests w) l x"
  from window_Allow_log [OF Cons.prems(1), of x] Cons.prems obtain w' where w':
    "window_Allow w x = (w', Ret ?d)" "windowSize w' = windowSize w"
    "maxRequests w' = maxRequests w" "log_rel w' (if ?d then l @ [x] else l) x"
    by auto
  have "\<forall>a\<in>set l. a \<le> x" using Cons.prems(1,2) by (auto simp: log_rel_def intro: order_trans)
  then have "in_window (windowSize w) u (if ?d then l @ [x] else l) \<le> max 0 (maxRequests w)" for u
    using Cons.prems(4) log_Allow_within_limit [of "windowSize w" "maxRequests w" l x u] by simp
  with Cons.IH [OF w'(4)] Cons.prems(2,3) w' show ?case by (cases ?d) auto
qed simp

section \<open>Properties of the component\<close>

definition window_cfg_ok :: "window_Config \<Rightarrow> bool" where
  "window_cfg_ok cfg \<longleftrightarrow> is_i64 (MaxRequests cfg) \<and> MaxRequests cfg < max_i64
     \<and> 0 \<le> WindowDuration cfg \<and> WindowDuration cfg \<le> max_i64"

definition mono_times :: "gotime list \<Rightarrow> bool" where
  "mono_times ts \<longleftrightarrow> sorted ts \<and> (\<forall>t\<in>set ts. valid_time t)"

lemma window_cfg_cutoff:
  "window_cfg_ok cfg \<Longrightarrow> mono_times ts \<Longrightarrow>
   \<forall>t\<in>set ts. valid_time t \<and> is_i64 (t - windowSize (window_New cfg))"
  by (auto simp: window_cfg_ok_def mono_times_def window_New_ok valid_time_def is_i64_def max_i64_def)

lemma log_rel_New: "window_cfg_ok cfg \<Longrightarrow> log_rel (window_New cfg) [] 0"
  by (simp add: log_rel_def window_New_ok window_cfg_ok_def)

lemma mono_times_from_0: "mono_times ts \<Longrightarrow> sorted (0 # ts)"
  by (auto simp: mono_times_def valid_time_def)


definition example_window :: window_Config where
  "example_window = \<lparr>wEnabled = True, WindowDuration = 10, MaxRequests = 2, BufferSize = 0\<rparr>"




end
