(* ===== verification/Bucket.thy ===== *)
theory Bucket
  imports Window
begin

text \<open>
  The token bucket (\<^verbatim>\<open>internal/bucket/bucket.go\<close>).  The operations here are the
  calls run without interference: every compare-and-swap of the code then succeeds at the
  first attempt, so each retry loop is one pass.  The interleaving of several callers, with
  the loops and every atomic access as a step of its own, is the subject of the theory
  \<open>BucketRace\<close>.
\<close>

section \<open>Data\<close>

record bucket_Config =
  MaxTokens :: int64
  RefillRate :: int64
  RefillInterval :: duration
  TokensPerRequest :: int64
  SlidingWindowCfg :: "window_Config option"

record Bucket =
  configPtr :: bucket_Config
  tokens :: int64
  lastRefillTime :: int64
  blocked :: bool
  lastAccessTime :: int64
  createdAt :: gotime
  windowPtr :: "SlidingWindow option"

section \<open>Operations\<close>

definition normalize :: "bucket_Config \<Rightarrow> bucket_Config" where
  "normalize cfg = (if TokensPerRequest cfg \<le> 0 then cfg\<lparr>TokensPerRequest := 1\<rparr> else cfg)"

text \<open>The window a configuration asks for: none unless it is present and enabled.\<close>

definition window_of :: "bucket_Config \<Rightarrow> SlidingWindow option" where
  "window_of cfg =
     (case SlidingWindowCfg cfg of
        Some sw \<Rightarrow> if wEnabled sw then Some (window_New sw) else None
      | None \<Rightarrow> None)"

definition bucket_New :: "bucket_Config \<Rightarrow> gotime \<Rightarrow> Bucket" where
  "bucket_New cfg now =
     (let normalized = normalize cfg in
      \<lparr>configPtr = normalized, tokens = MaxTokens normalized, lastRefillTime = UnixNano now,
       blocked = False, lastAccessTime = UnixNano now, createdAt = now,
       windowPtr = window_of normalized\<rparr>)"

definition lazyRefill :: "Bucket \<Rightarrow> gotime \<Rightarrow> bucket_Config \<Rightarrow> Bucket" where
  "lazyRefill b now cfg =
     (let lastNano = lastRefillTime b;
          last = timeUnix lastNano;
          elapsed = timeSub now last;
          intervals = go_div elapsed (RefillInterval cfg)
      in if intervals \<le> 0 then b
         else let newLastNano = UnixNano (timeAdd last (i64 (intervals * RefillInterval cfg)));
                  tokensToAdd = i64 (intervals * RefillRate cfg);
                  current = tokens b;
                  updated = i64 (current + tokensToAdd);
                  updated = (if updated > MaxTokens cfg then MaxTokens cfg else updated)
              in b\<lparr>lastRefillTime := newLastNano, tokens := updated\<rparr>)"

text \<open>The wait reported with a rejection for lack of tokens.\<close>

definition retry_after :: "bucket_Config \<Rightarrow> int64 \<Rightarrow> int64 \<Rightarrow> duration" where
  "retry_after cfg n current =
     (if RefillRate cfg \<le> 0 \<or> RefillInterval cfg \<le> 0 then Second
      else let deficit = i64 (n - current);
               intervals = go_div (i64 (i64 (deficit + RefillRate cfg) - 1)) (RefillRate cfg)
           in i64 (intervals * RefillInterval cfg))"

definition cost :: "bucket_Config \<Rightarrow> int64" where
  "cost cfg = (if TokensPerRequest cfg \<le> 0 then 1 else TokensPerRequest cfg)"

definition bucket_Allow :: "Bucket \<Rightarrow> gotime \<Rightarrow> Bucket \<times> bool \<times> duration" where
  "bucket_Allow b now =
     (if blocked b then (b, False, 0)
      else let cfg = configPtr b;
               n = cost cfg;
               b1 = (if RefillInterval cfg > 0 then lazyRefill b now cfg else b);
               b2 = b1\<lparr>lastAccessTime := UnixNano now\<rparr>;
               current = tokens b2
           in if current < n then (b2, False, retry_after cfg n current)
              else let b3 = b2\<lparr>tokens := i64 (current - n)\<rparr>
                   in case windowPtr b3 of
                        None \<Rightarrow> (b3, True, 0)
                      | Some w \<Rightarrow>
                          (case window_Allow w now of
                             (w', Panic) \<Rightarrow> (b3\<lparr>windowPtr := Some w'\<rparr>, False, Second)
                           | (w', Ret True) \<Rightarrow> (b3\<lparr>windowPtr := Some w'\<rparr>, True, 0)
                           | (w', Ret False) \<Rightarrow>
                               (b3\<lparr>windowPtr := Some w', tokens := i64 (tokens b3 + n)\<rparr>,
                                False, RefillInterval cfg)))"

definition ScheduledRefill :: "Bucket \<Rightarrow> gotime \<Rightarrow> Bucket" where
  "ScheduledRefill b now =
     (let cfg = configPtr b in
      if RefillInterval cfg \<le> 0 then b else lazyRefill b now cfg)"

definition UpdateConfig :: "Bucket \<Rightarrow> bucket_Config \<Rightarrow> Bucket" where
  "UpdateConfig b cfg =
     (let normalized = normalize cfg;
          b1 = b\<lparr>configPtr := normalized\<rparr>;
          b2 = (if tokens b1 > MaxTokens normalized then b1\<lparr>tokens := MaxTokens normalized\<rparr> else b1)
      in b2\<lparr>windowPtr := window_of normalized\<rparr>)"

definition bucket_Block :: "Bucket \<Rightarrow> Bucket" where "bucket_Block b = b\<lparr>blocked := True\<rparr>"
definition bucket_Unblock :: "Bucket \<Rightarrow> Bucket" where "bucket_Unblock b = b\<lparr>blocked := False\<rparr>"
definition bucket_IsBlocked :: "Bucket \<Rightarrow> bool" where "bucket_IsBlocked b = blocked b"
definition bucket_config :: "Bucket \<Rightarrow> bucket_Config" where "bucket_config b = configPtr b"
definition TokensRemaining :: "Bucket \<Rightarrow> int64" where "TokensRemaining b = tokens b"
definition bucket_LastAccess :: "Bucket \<Rightarrow> gotime" where
  "bucket_LastAccess b = timeUnix (lastAccessTime b)"
definition CreatedAt :: "Bucket \<Rightarrow> gotime" where "CreatedAt b = createdAt b"

definition NextRefillTime :: "Bucket \<Rightarrow> gotime" where
  "NextRefillTime b =
     (let cfg = configPtr b in
      if RefillInterval cfg \<le> 0 then zeroTime
      else timeAdd (timeUnix (lastRefillTime b)) (RefillInterval cfg))"

section \<open>Well-formed buckets\<close>

text \<open>
  A configuration is safe when no refill can overflow: even after the longest
  representable pause, the tokens to add and the balance together fit into 64 bits.
\<close>

definition cfg_safe :: "bucket_Config \<Rightarrow> bool" where
  "cfg_safe cfg \<longleftrightarrow> 0 \<le> MaxTokens cfg \<and> MaxTokens cfg \<le> max_i64 \<and> 0 \<le> RefillRate cfg
     \<and> is_i64 (RefillInterval cfg) \<and> is_i64 (TokensPerRequest cfg)
     \<and> (0 < RefillInterval cfg \<longrightarrow>
          MaxTokens cfg + (max_i64 div RefillInterval cfg) * RefillRate cfg \<le> max_i64)
     \<and> (case SlidingWindowCfg cfg of None \<Rightarrow> True | Some sw \<Rightarrow> window_cfg_ok sw)"

definition window_fits :: "SlidingWindow option \<Rightarrow> bool" where
  "window_fits wp \<longleftrightarrow> (case wp of None \<Rightarrow> True
     | Some w \<Rightarrow> window_ok w \<and> 0 \<le> windowSize w \<and> windowSize w \<le> max_i64)"

definition bucket_ok :: "Bucket \<Rightarrow> bool" where
  "bucket_ok b \<longleftrightarrow> cfg_safe (configPtr b) \<and> 0 < TokensPerRequest (configPtr b)
     \<and> 0 \<le> tokens b \<and> tokens b \<le> MaxTokens (configPtr b)
     \<and> valid_time (lastRefillTime b) \<and> window_fits (windowPtr b)"

text \<open>The whole refill intervals between the last refill and \<open>now\<close>.\<close>

definition ticks :: "Bucket \<Rightarrow> gotime \<Rightarrow> int" where
  "ticks b now = max 0 ((now - lastRefillTime b) div RefillInterval (configPtr b))"

lemma ticks_nonneg [simp]: "0 \<le> ticks b now"
  by (simp add: ticks_def)

lemma ticks_bound:
  assumes "valid_time (lastRefillTime b)" "valid_time now" "0 < RefillInterval (configPtr b)"
  shows "ticks b now \<le> max_i64 div RefillInterval (configPtr b)"
proof -
  have "(now - lastRefillTime b) div RefillInterval (configPtr b) \<le> max_i64 div RefillInterval (configPtr b)"
    using assms by (intro zdiv_mono1) (auto simp: valid_time_def max_i64_def)
  moreover have "0 \<le> max_i64 div RefillInterval (configPtr b)"
    using assms by (simp add: pos_imp_zdiv_nonneg_iff max_i64_def)
  ultimately show ?thesis by (simp add: ticks_def)
qed

lemma ticks_le_now:
  assumes "0 < RefillInterval (configPtr b)" "ticks b now \<noteq> 0"
  shows "lastRefillTime b + ticks b now * RefillInterval (configPtr b) \<le> now"
proof -
  let ?I = "RefillInterval (configPtr b)"
  have "((now - lastRefillTime b) div ?I) * ?I \<le> now - lastRefillTime b"
    using assms(1) by (simp add: minus_mod_eq_div_mult [symmetric])
  with assms(2) show ?thesis by (auto simp: ticks_def max_def split: if_splits)
qed

lemma now_lt_ticks:
  assumes "0 < RefillInterval (configPtr b)"
  shows "now < lastRefillTime b + (ticks b now + 1) * RefillInterval (configPtr b)"
proof -
  let ?I = "RefillInterval (configPtr b)" and ?d = "now - lastRefillTime b"
  have "?d - ?d mod ?I = (?d div ?I) * ?I" by (rule minus_mod_eq_div_mult)
  moreover have "?d mod ?I < ?I" using assms by simp
  ultimately have "?d < (?d div ?I + 1) * ?I" unfolding distrib_right by linarith
  also have "\<dots> \<le> (ticks b now + 1) * ?I"
    using assms by (intro mult_right_mono) (auto simp: ticks_def)
  finally show ?thesis by simp
qed

text \<open>On a well-formed bucket the wrapping code computes the exact refill.\<close>

lemma lazyRefill_exact:
  assumes ok: "bucket_ok b" and t: "valid_time now" and I: "0 < RefillInterval (configPtr b)"
  shows "lazyRefill b now (configPtr b) =
    b\<lparr>lastRefillTime := lastRefillTime b + ticks b now * RefillInterval (configPtr b),
      tokens := min (MaxTokens (configPtr b)) (tokens b + ticks b now * RefillRate (configPtr b))\<rparr>"
proof -
  let ?c = "configPtr b" and ?k = "ticks b now" and ?d = "now - lastRefillTime b"
  from ok have lt: "valid_time (lastRefillTime b)" and rate: "0 \<le> RefillRate ?c"
    by (simp_all add: bucket_ok_def cfg_safe_def)
  have el: "timeSub now (timeUnix (lastRefillTime b)) = ?d"
    using t lt by (simp add: timeUnix_def timeSub_valid)
  have q: "go_div ?d (RefillInterval ?c) = ?k" if "?k \<noteq> 0"
  proof -
    have "0 < ?d div RefillInterval ?c" using that by (auto simp: ticks_def)
    then have "0 < ?d" using I by (simp add: pos_imp_zdiv_pos_iff)
    with t lt I show ?thesis
      by (subst go_div_nonneg) (auto simp: valid_time_def ticks_def pos_imp_zdiv_nonneg_iff)
  qed
  show ?thesis
  proof (cases "?k = 0")
    case True
    have "go_div ?d (RefillInterval ?c) \<le> 0"
    proof (cases "0 \<le> ?d")
      case True
      with t lt I \<open>?k = 0\<close> show ?thesis
        by (subst go_div_nonneg) (auto simp: valid_time_def ticks_def max_def split: if_splits)
    next
      case False
      with t lt I show ?thesis
        by (intro go_div_neg_le) (auto simp: valid_time_def is_i64_def)
    qed
    with True ok el show ?thesis by (simp add: lazyRefill_def bucket_ok_def)
  next
    case False
    have kb: "?k \<le> max_i64 div RefillInterval ?c" by (rule ticks_bound [OF lt t I])
    have kr: "0 \<le> ?k * RefillRate ?c" "?k * RefillRate ?c \<le> (max_i64 div RefillInterval ?c) * RefillRate ?c"
      using kb rate by (auto intro: mult_right_mono)
    have new: "lastRefillTime b + ?k * RefillInterval ?c \<le> now"
      by (rule ticks_le_now [OF I False])
    have "0 \<le> ?k * RefillInterval ?c" using I by simp
    with new t lt have fits: "i64 (?k * RefillInterval ?c) = ?k * RefillInterval ?c"
      "UnixNano (lastRefillTime b + ?k * RefillInterval ?c) = lastRefillTime b + ?k * RefillInterval ?c"
      by (auto simp: valid_time_def i64_id is_i64_def UnixNano_valid)
    have fits2: "i64 (?k * RefillRate ?c) = ?k * RefillRate ?c"
      "i64 (tokens b + ?k * RefillRate ?c) = tokens b + ?k * RefillRate ?c"
    proof -
      have "MaxTokens ?c + (max_i64 div RefillInterval ?c) * RefillRate ?c \<le> max_i64"
        "0 \<le> tokens b" "tokens b \<le> MaxTokens ?c"
        using ok I by (simp_all add: bucket_ok_def cfg_safe_def)
      then have "is_i64 (?k * RefillRate ?c)" "is_i64 (tokens b + ?k * RefillRate ?c)"
        using kr unfolding is_i64_def max_i64_def by linarith+
      then show "i64 (?k * RefillRate ?c) = ?k * RefillRate ?c"
        "i64 (tokens b + ?k * RefillRate ?c) = tokens b + ?k * RefillRate ?c"
        by (simp_all add: i64_id)
    qed
    have "0 < ?k" using False ticks_nonneg [of b now] by linarith
    with fits fits2 q False el show ?thesis
      by (simp add: lazyRefill_def timeUnix_def timeAdd_def Let_def min_def)
  qed
qed

section \<open>Refill\<close>

text \<open>The balance and the refill clock after bringing a bucket up to date.\<close>

definition refilled :: "Bucket \<Rightarrow> gotime \<Rightarrow> Bucket" where
  "refilled b now =
     (if 0 < RefillInterval (configPtr b)
      then b\<lparr>lastRefillTime := lastRefillTime b + ticks b now * RefillInterval (configPtr b),
             tokens := min (MaxTokens (configPtr b))
                           (tokens b + ticks b now * RefillRate (configPtr b))\<rparr>
      else b)"

lemma refilled_simps [simp]:
  "configPtr (refilled b now) = configPtr b" "blocked (refilled b now) = blocked b"
  "windowPtr (refilled b now) = windowPtr b" "createdAt (refilled b now) = createdAt b"
  "lastAccessTime (refilled b now) = lastAccessTime b"
  by (simp_all add: refilled_def)

lemma ScheduledRefill_exact:
  "bucket_ok b \<Longrightarrow> valid_time now \<Longrightarrow> ScheduledRefill b now = refilled b now"
  by (simp add: ScheduledRefill_def refilled_def lazyRefill_exact not_le Let_def)

lemma lazyRefill_guarded:
  "(if RefillInterval (configPtr b) > 0 then lazyRefill b now (configPtr b) else b) =
   ScheduledRefill b now"
  by (auto simp: ScheduledRefill_def)

lemma refilled_clock:
  assumes "bucket_ok b" "valid_time now"
  shows "lastRefillTime b \<le> lastRefillTime (refilled b now)"
    "lastRefillTime (refilled b now) \<le> max (lastRefillTime b) now"
    "0 < RefillInterval (configPtr b) \<Longrightarrow>
       now < lastRefillTime (refilled b now) + RefillInterval (configPtr b)"
proof -
  show "lastRefillTime b \<le> lastRefillTime (refilled b now)" by (simp add: refilled_def)
  show "lastRefillTime (refilled b now) \<le> max (lastRefillTime b) now"
    using ticks_le_now [of b now] by (cases "ticks b now = 0") (auto simp: refilled_def)
  show "now < lastRefillTime (refilled b now) + RefillInterval (configPtr b)"
    if "0 < RefillInterval (configPtr b)"
    using now_lt_ticks [OF that, of now] that by (simp add: refilled_def algebra_simps)
qed

lemma refilled_ok:
  assumes "bucket_ok b" "valid_time now"
  shows "bucket_ok (refilled b now)"
proof -
  have "valid_time (lastRefillTime (refilled b now))"
    using refilled_clock(1,2) [OF assms] assms by (auto simp: bucket_ok_def valid_time_def)
  moreover have "0 \<le> tokens (refilled b now)"
    using assms(1) by (auto simp: refilled_def bucket_ok_def cfg_safe_def)
  ultimately show ?thesis using assms(1) by (auto simp: bucket_ok_def refilled_def)
qed

lemma ticks_add:
  assumes I: "0 < RefillInterval (configPtr b)" and t: "t1 \<le> t2"
  shows "ticks b t2 = ticks b t1 + ticks (refilled b t1) t2"
proof -
  let ?I = "RefillInterval (configPtr b)"
  have "(t2 - (lastRefillTime b + ticks b t1 * ?I)) div ?I = (t2 - lastRefillTime b) div ?I - ticks b t1"
    using I div_mult_self1 [of ?I "t2 - lastRefillTime b" "- ticks b t1"] by (simp add: algebra_simps)
  moreover have "ticks b t1 \<le> ticks b t2"
    using I t zdiv_mono1 [of "t1 - lastRefillTime b" "t2 - lastRefillTime b" ?I]
    by (simp add: ticks_def max.coboundedI2)
  ultimately show ?thesis
    using I by (auto simp: ticks_def refilled_def)
qed

text \<open>Refilling twice is refilling once at the later time.\<close>

lemma refilled_refilled:
  assumes ok: "bucket_ok b" and t: "t1 \<le> t2"
  shows "refilled (refilled b t1) t2 = refilled b t2"
proof (cases "0 < RefillInterval (configPtr b)")
  case True
  let ?c = "configPtr b" and ?k1 = "ticks b t1" and ?k2 = "ticks (refilled b t1) t2"
  have k: "ticks b t2 = ?k1 + ?k2" by (rule ticks_add [OF True t])
  have r: "0 \<le> ?k1 * RefillRate ?c" "0 \<le> ?k2 * RefillRate ?c"
    using ok by (simp_all add: bucket_ok_def cfg_safe_def)
  have "min (MaxTokens ?c) (min (MaxTokens ?c) (tokens b + ?k1 * RefillRate ?c) + ?k2 * RefillRate ?c)
      = min (MaxTokens ?c) (tokens b + (?k1 + ?k2) * RefillRate ?c)"
    using r by (auto simp: min_def algebra_simps)
  with True k show ?thesis by (simp add: refilled_def algebra_simps)
qed (simp add: refilled_def)

section \<open>The four outcomes of a request\<close>

lemma window_step:
  assumes "window_fits (Some w)" "valid_time now"
  obtains w' d where "window_Allow w now = (w', Ret d)" "window_fits (Some w')"
proof -
  have "is_i64 (now - windowSize w)"
    using assms by (auto simp: window_fits_def valid_time_def is_i64_def max_i64_def)
  with window_Allow_live [of w now] assms that show thesis
    by (force simp: window_fits_def)
qed

lemma bucket_Allow_unfold:
  "bucket_Allow b now =
     (if blocked b then (b, False, 0)
      else let cfg = configPtr b; n = cost cfg;
               b2 = (ScheduledRefill b now)\<lparr>lastAccessTime := UnixNano now\<rparr>
           in if tokens b2 < n then (b2, False, retry_after cfg n (tokens b2))
              else let b3 = b2\<lparr>tokens := i64 (tokens b2 - n)\<rparr>
                   in case windowPtr b3 of
                        None \<Rightarrow> (b3, True, 0)
                      | Some w \<Rightarrow>
                          (case window_Allow w now of
                             (w', Panic) \<Rightarrow> (b3\<lparr>windowPtr := Some w'\<rparr>, False, Second)
                           | (w', Ret True) \<Rightarrow> (b3\<lparr>windowPtr := Some w'\<rparr>, True, 0)
                           | (w', Ret False) \<Rightarrow>
                               (b3\<lparr>windowPtr := Some w', tokens := i64 (tokens b3 + n)\<rparr>,
                                False, RefillInterval cfg)))"
  by (simp only: bucket_Allow_def Let_def lazyRefill_guarded)

lemma bucket_Allow_cases [consumes 2, case_names blocked poor granted refunded]:
  assumes ok: "bucket_ok b" and t: "valid_time now"
  obtains
    (blocked) "blocked b" "bucket_Allow b now = (b, False, 0)"
  | (poor) "\<not> blocked b" "tokens (refilled b now) < TokensPerRequest (configPtr b)"
      "bucket_Allow b now =
         ((refilled b now)\<lparr>lastAccessTime := now\<rparr>, False,
          retry_after (configPtr b) (TokensPerRequest (configPtr b)) (tokens (refilled b now)))"
  | (granted) wp where "\<not> blocked b" "TokensPerRequest (configPtr b) \<le> tokens (refilled b now)"
      "window_fits wp" "bucket_Allow b now =
         ((refilled b now)\<lparr>lastAccessTime := now, windowPtr := wp,
            tokens := tokens (refilled b now) - TokensPerRequest (configPtr b)\<rparr>, True, 0)"
  | (refunded) wp where "\<not> blocked b" "TokensPerRequest (configPtr b) \<le> tokens (refilled b now)"
      "window_fits wp" "windowPtr b \<noteq> None" "bucket_Allow b now =
         ((refilled b now)\<lparr>lastAccessTime := now, windowPtr := wp\<rparr>, False, RefillInterval (configPtr b))"
proof -
  let ?c = "configPtr b" and ?r = "refilled b now"
  have n: "cost ?c = TokensPerRequest ?c" using ok by (simp add: cost_def bucket_ok_def)
  have r: "ScheduledRefill b now = ?r" "UnixNano now = now"
    using ok t by (simp_all add: ScheduledRefill_exact UnixNano_valid)
  have rok: "bucket_ok ?r" by (rule refilled_ok [OF ok t])
  have fits: "i64 (tokens ?r - TokensPerRequest ?c) = tokens ?r - TokensPerRequest ?c"
    "i64 (tokens ?r) = tokens ?r" if "TokensPerRequest ?c \<le> tokens ?r"
    using rok that by (auto simp: bucket_ok_def cfg_safe_def i64_id is_i64_def max_i64_def)
  consider "blocked b" | "\<not> blocked b" "tokens ?r < TokensPerRequest ?c"
    | "\<not> blocked b" "TokensPerRequest ?c \<le> tokens ?r" "windowPtr b = None"
    | w where "\<not> blocked b" "TokensPerRequest ?c \<le> tokens ?r" "windowPtr b = Some w"
    by (cases "windowPtr b") force+
  then show thesis
  proof cases
    case 1
    then show ?thesis by (intro blocked) (simp_all add: bucket_Allow_unfold)
  next
    case 2
    then show ?thesis by (intro poor) (simp_all add: bucket_Allow_unfold n r Let_def)
  next
    case 3
    then have "bucket_Allow b now = (?r\<lparr>lastAccessTime := now, windowPtr := None,
            tokens := tokens ?r - TokensPerRequest ?c\<rparr>, True, 0)"
      by (simp add: bucket_Allow_unfold n r fits Let_def)
    with 3 show ?thesis by (intro granted [of None]) (simp_all add: window_fits_def)
  next
    case (4 w)
    from ok 4(3) have "window_fits (Some w)" by (simp add: bucket_ok_def)
    then obtain w' d where w': "window_Allow w now = (w', Ret d)" "window_fits (Some w')"
      using t by (rule window_step)
    show ?thesis
    proof (cases d)
      case True
      with 4 w' show ?thesis
        by (intro granted [of "Some w'"]) (simp_all add: bucket_Allow_unfold n r fits Let_def)
    next
      case False
      with 4 w' show ?thesis
        by (intro refunded [of "Some w'"]) (simp_all add: bucket_Allow_unfold n r fits Let_def)
    qed
  qed
qed

section \<open>Every operation keeps a bucket well formed\<close>

lemma bucket_ok_lastAccess [simp]: "bucket_ok (b\<lparr>lastAccessTime := x\<rparr>) = bucket_ok b"
  by (simp add: bucket_ok_def)

lemma normalize_safe: "cfg_safe cfg \<Longrightarrow> cfg_safe (normalize cfg) \<and> 0 < TokensPerRequest (normalize cfg)"
  by (auto simp: normalize_def cfg_safe_def is_i64_def)

lemma normalize_simps [simp]:
  "MaxTokens (normalize cfg) = MaxTokens cfg" "RefillRate (normalize cfg) = RefillRate cfg"
  "RefillInterval (normalize cfg) = RefillInterval cfg"
  "SlidingWindowCfg (normalize cfg) = SlidingWindowCfg cfg"
  by (simp_all add: normalize_def)

lemma window_of_fits: "cfg_safe cfg \<Longrightarrow> window_fits (window_of cfg)"
  by (auto simp: cfg_safe_def window_of_def window_fits_def window_cfg_ok_def window_New_ok
      split: option.splits)

lemma bucket_New_ok:
  assumes "cfg_safe cfg" "valid_time now"
  shows "bucket_ok (bucket_New cfg now)"
  using assms normalize_safe [OF assms(1)]
  by (simp add: bucket_ok_def bucket_New_def UnixNano_valid window_of_fits cfg_safe_def Let_def)

lemma bucket_Allow_ok:
  assumes "bucket_ok b" "valid_time now"
  shows "bucket_ok (fst (bucket_Allow b now))"
  using assms
proof (cases rule: bucket_Allow_cases)
  case (granted wp)
  then show ?thesis using refilled_ok [OF assms] by (auto simp: bucket_ok_def)
qed (use assms refilled_ok [OF assms] in \<open>auto simp: bucket_ok_def\<close>)

lemma ScheduledRefill_ok: "bucket_ok b \<Longrightarrow> valid_time now \<Longrightarrow> bucket_ok (ScheduledRefill b now)"
  by (simp add: ScheduledRefill_exact refilled_ok)

lemma UpdateConfig_ok:
  assumes "bucket_ok b" "cfg_safe cfg"
  shows "bucket_ok (UpdateConfig b cfg)"
  using assms normalize_safe [OF assms(2)]
  by (auto simp: bucket_ok_def UpdateConfig_def window_of_fits cfg_safe_def Let_def)

lemma bucket_Block_ok [simp]:
  "bucket_ok (bucket_Block b) = bucket_ok b" "bucket_ok (bucket_Unblock b) = bucket_ok b"
  by (simp_all add: bucket_ok_def bucket_Block_def bucket_Unblock_def)

lemma bucket_Block_config [simp]:
  "configPtr (bucket_Block b) = configPtr b" "configPtr (bucket_Unblock b) = configPtr b"
  by (simp_all add: bucket_Block_def bucket_Unblock_def)

lemma bucket_Allow_config [simp]: "configPtr (fst (bucket_Allow b now)) = configPtr b"
  by (auto simp: bucket_Allow_def lazyRefill_def Let_def split: option.splits prod.splits go.splits bool.splits)

lemma ScheduledRefill_config [simp]: "configPtr (ScheduledRefill b now) = configPtr b"
  by (auto simp: ScheduledRefill_def lazyRefill_def Let_def)

section \<open>Metered admission\<close>

text \<open>
  The accounting argument of a rate limiter, apart from any particular one: a state with a
  \<open>level\<close>, a clock that has \<open>accrued\<close> so much credit so far, and steps that spend.
  If no step spends more than the level loses or the clock gains, then nor does a run.
\<close>

locale metered =
  fixes step :: "'s \<Rightarrow> 'e \<Rightarrow> 's"
    and spent :: "'s \<Rightarrow> 'e \<Rightarrow> int"
    and level :: "'s \<Rightarrow> int"
    and accrued :: "'s \<Rightarrow> int"
    and ok :: "'s \<Rightarrow> bool"
    and good :: "'e \<Rightarrow> bool"
  assumes step_ok: "ok s \<Longrightarrow> good e \<Longrightarrow> ok (step s e)"
    and step_meter: "ok s \<Longrightarrow> good e \<Longrightarrow>
          level (step s e) + spent s e + accrued s \<le> level s + accrued (step s e)"
begin

primrec run :: "'s \<Rightarrow> 'e list \<Rightarrow> 's" where
  "run s [] = s"
| "run s (e # es) = run (step s e) es"

primrec total :: "'s \<Rightarrow> 'e list \<Rightarrow> int" where
  "total s [] = 0"
| "total s (e # es) = spent s e + total (step s e) es"

lemma run_ok: "ok s \<Longrightarrow> list_all good es \<Longrightarrow> ok (run s es)"
  by (induction es arbitrary: s) (auto intro: step_ok)

lemma run_meter:
  "ok s \<Longrightarrow> list_all good es \<Longrightarrow>
   level (run s es) + total s es + accrued s \<le> level s + accrued (run s es)"
proof (induction es arbitrary: s)
  case (Cons e es)
  have "level (step s e) + spent s e + accrued s \<le> level s + accrued (step s e)"
    using Cons.prems by (simp add: step_meter)
  moreover have "level (run (step s e) es) + total (step s e) es + accrued (step s e)
      \<le> level (step s e) + accrued (run (step s e) es)"
    using Cons.prems by (intro Cons.IH) (auto intro: step_ok)
  ultimately show ?case by simp
qed simp

end

section \<open>Runs of a bucket\<close>

datatype bucket_op = OpAllow gotime | OpRefill gotime | OpBlock | OpUnblock

fun bucket_step :: "Bucket \<Rightarrow> bucket_op \<Rightarrow> Bucket" where
  "bucket_step b (OpAllow t) = fst (bucket_Allow b t)"
| "bucket_step b (OpRefill t) = ScheduledRefill b t"
| "bucket_step b OpBlock = bucket_Block b"
| "bucket_step b OpUnblock = bucket_Unblock b"

fun op_time_ok :: "gotime \<Rightarrow> bucket_op \<Rightarrow> bool" where
  "op_time_ok tmax (OpAllow t) \<longleftrightarrow> valid_time t \<and> t \<le> tmax"
| "op_time_ok tmax (OpRefill t) \<longleftrightarrow> valid_time t \<and> t \<le> tmax"
| "op_time_ok tmax _ \<longleftrightarrow> True"

text \<open>The tokens a step takes out for good: those of an accepted request.\<close>

fun op_spent :: "Bucket \<Rightarrow> bucket_op \<Rightarrow> int" where
  "op_spent b (OpAllow t) = (if fst (snd (bucket_Allow b t)) then TokensPerRequest (configPtr b) else 0)"
| "op_spent b _ = 0"

fun bucket_run :: "Bucket \<Rightarrow> bucket_op list \<Rightarrow> Bucket" where
  "bucket_run b [] = b"
| "bucket_run b (x # xs) = bucket_run (bucket_step b x) xs"

fun admitted :: "Bucket \<Rightarrow> bucket_op list \<Rightarrow> nat" where
  "admitted b [] = 0"
| "admitted b (OpAllow t # xs) =
     (if fst (snd (bucket_Allow b t)) then 1 else 0) + admitted (bucket_step b (OpAllow t)) xs"
| "admitted b (x # xs) = admitted (bucket_step b x) xs"

definition clock_credit :: "Bucket \<Rightarrow> int" where
  "clock_credit b = RefillRate (configPtr b) * (lastRefillTime b div RefillInterval (configPtr b))"

lemma refilled_meter:
  assumes "bucket_ok b"
  shows "tokens (refilled b now) + clock_credit b \<le> tokens b + clock_credit (refilled b now)"
proof (cases "0 < RefillInterval (configPtr b)")
  case True
  let ?c = "configPtr b"
  have "(lastRefillTime b + ticks b now * RefillInterval ?c) div RefillInterval ?c
      = lastRefillTime b div RefillInterval ?c + ticks b now"
    using True by simp
  then have "clock_credit (refilled b now) = clock_credit b + ticks b now * RefillRate ?c"
    using True by (simp add: clock_credit_def refilled_def algebra_simps)
  with True show ?thesis by (simp add: refilled_def)
qed (simp add: refilled_def)

lemma clock_credit_cong:
  "configPtr b' = configPtr b \<Longrightarrow> lastRefillTime b' = lastRefillTime b \<Longrightarrow>
   clock_credit b' = clock_credit b"
  by (simp add: clock_credit_def)

lemma bucket_Allow_meter:
  assumes "bucket_ok b" "valid_time t"
  shows "tokens (fst (bucket_Allow b t)) + op_spent b (OpAllow t) + clock_credit b
       \<le> tokens b + clock_credit (fst (bucket_Allow b t))"
  using assms
proof (cases rule: bucket_Allow_cases)
  case blocked
  then show ?thesis by simp
next
  case poor
  then show ?thesis using refilled_meter [OF assms(1), of t] by (simp add: clock_credit_def)
next
  case (granted wp)
  then show ?thesis using refilled_meter [OF assms(1), of t] by (simp add: clock_credit_def)
next
  case (refunded wp)
  then show ?thesis using refilled_meter [OF assms(1), of t] by (simp add: clock_credit_def)
qed

interpretation bm: metered bucket_step op_spent tokens clock_credit bucket_ok "op_time_ok max_i64"
proof (unfold_locales, goal_cases)
  case (1 b x)
  then show ?case by (cases x) (simp_all add: bucket_Allow_ok ScheduledRefill_ok)
next
  case (2 b x)
  show ?case
  proof (cases x)
    case (OpAllow t)
    with 2 show ?thesis using bucket_Allow_meter [of b t] by simp
  next
    case (OpRefill t)
    with 2 show ?thesis using refilled_meter [of b t] by (simp add: ScheduledRefill_exact)
  qed (simp_all add: bucket_Block_def bucket_Unblock_def clock_credit_def)
qed

lemma bucket_run_is_run: "bucket_run b ops = bm.run b ops"
  by (induction ops arbitrary: b) simp_all

lemma bucket_step_config [simp]: "configPtr (bucket_step b x) = configPtr b"
  by (cases x) (simp_all add: bucket_Block_def bucket_Unblock_def)

lemma total_admitted: "bm.total b ops = TokensPerRequest (configPtr b) * int (admitted b ops)"
proof (induction ops arbitrary: b)
  case (Cons x ops)
  then show ?case by (cases x) (simp_all add: distrib_left)
qed simp

text \<open>The refill clock advances in whole intervals and never past the present.\<close>

lemma bucket_step_clock:
  assumes "bucket_ok b" "op_time_ok tmax x"
  shows "\<exists>k\<ge>0. lastRefillTime (bucket_step b x) = lastRefillTime b + k * RefillInterval (configPtr b)
     \<and> lastRefillTime (bucket_step b x) \<le> max (lastRefillTime b) tmax"
proof -
  have refill: "\<exists>k\<ge>0. lastRefillTime (refilled b t) = lastRefillTime b + k * RefillInterval (configPtr b)
     \<and> lastRefillTime (refilled b t) \<le> max (lastRefillTime b) tmax" if "valid_time t" "t \<le> tmax" for t
    using refilled_clock(2) [OF assms(1) that(1)] that(2)
    by (cases "0 < RefillInterval (configPtr b)")
      (auto simp: refilled_def intro!: exI [of _ "ticks b t"] exI [of _ "0::int"])
  show ?thesis
  proof (cases x)
    case (OpAllow t)
    with assms have t: "valid_time t" "t \<le> tmax" by simp_all
    from assms(1) t(1) have "lastRefillTime (bucket_step b x) \<in> {lastRefillTime b, lastRefillTime (refilled b t)}"
      by (cases rule: bucket_Allow_cases) (simp_all add: OpAllow)
    with refill [OF t] show ?thesis by (auto intro: exI [of _ "0::int"])
  next
    case (OpRefill t)
    with assms refill [of t] show ?thesis by (simp add: ScheduledRefill_exact)
  qed (auto simp: bucket_Block_def bucket_Unblock_def intro: exI [of _ "0::int"])
qed

lemma op_time_ok_mono: "op_time_ok tmax x \<Longrightarrow> op_time_ok max_i64 x"
  by (cases x) (auto simp: valid_time_def max_i64_def)

lemma bucket_run_clock:
  assumes "bucket_ok b" "list_all (op_time_ok tmax) ops"
  shows "\<exists>k\<ge>0. lastRefillTime (bucket_run b ops) = lastRefillTime b + k * RefillInterval (configPtr b)
     \<and> lastRefillTime (bucket_run b ops) \<le> max (lastRefillTime b) tmax"
  using assms
proof (induction ops arbitrary: b)
  case Nil
  then show ?case by (auto intro: exI [of _ "0::int"])
next
  case (Cons x ops)
  from Cons.prems have x: "op_time_ok tmax x" "bucket_ok (bucket_step b x)"
    using bm.step_ok op_time_ok_mono by auto
  obtain k where k: "0 \<le> k"
    "lastRefillTime (bucket_step b x) = lastRefillTime b + k * RefillInterval (configPtr b)"
    "lastRefillTime (bucket_step b x) \<le> max (lastRefillTime b) tmax"
    using bucket_step_clock [OF Cons.prems(1) x(1)] by blast
  obtain m where "0 \<le> m" "lastRefillTime (bucket_run (bucket_step b x) ops) =
      lastRefillTime (bucket_step b x) + m * RefillInterval (configPtr b)"
    "lastRefillTime (bucket_run (bucket_step b x) ops) \<le> max (lastRefillTime (bucket_step b x)) tmax"
    using Cons.IH [OF x(2)] Cons.prems(2) by auto
  with k show ?case by (intro exI [of _ "k + m"]) (auto simp: algebra_simps)
qed

lemma bucket_run_ok: "bucket_ok b \<Longrightarrow> list_all (op_time_ok tmax) ops \<Longrightarrow> bucket_ok (bucket_run b ops)"
  unfolding bucket_run_is_run
  by (rule bm.run_ok) (auto simp: list_all_iff intro: op_time_ok_mono)

lemma bucket_run_config [simp]: "configPtr (bucket_run b ops) = configPtr b"
  by (induction ops arbitrary: b) simp_all

section \<open>How long to wait\<close>

lemma ceil_div_covers:
  assumes "0 < r" "0 < (d::int)"
  shows "d \<le> (d + r - 1) div r * r" "0 < (d + r - 1) div r" "(d + r - 1) div r \<le> d"
proof -
  have "(d + r - 1) mod r < r" using assms(1) by simp
  then show "d \<le> (d + r - 1) div r * r"
    using minus_mod_eq_div_mult [of "d + r - 1" r] by linarith
  then show "0 < (d + r - 1) div r"
    using assms by (metis mult_not_zero not_less_iff_gr_or_eq order_less_le_trans zero_less_mult_pos2)
  have "d + r - 1 < (d + 1) * r"
  proof -
    have "d \<le> d * r" using assms by simp
    then show ?thesis unfolding distrib_right by simp
  qed
  moreover have "(d + r - 1) div r * r \<le> d + r - 1"
    using minus_mod_eq_div_mult [of "d + r - 1" r] pos_mod_sign [OF assms(1), of "d + r - 1"] by linarith
  ultimately have "(d + r - 1) div r * r < (d + 1) * r" by simp
  then have "(d + r - 1) div r < d + 1"
    using assms(1) by (simp add: mult_less_cancel_right)
  then show "(d + r - 1) div r \<le> d" by simp
qed

lemma retry_after_exact:
  assumes "cfg_safe cfg" "0 < RefillRate cfg" "0 < RefillInterval cfg"
    and "0 \<le> c" "c < n" "n \<le> MaxTokens cfg" "n * RefillInterval cfg \<le> max_i64"
  shows "retry_after cfg n c = (n - c + RefillRate cfg - 1) div RefillRate cfg * RefillInterval cfg"
proof -
  let ?r = "RefillRate cfg" and ?I = "RefillInterval cfg" and ?k = "(n - c + RefillRate cfg - 1) div RefillRate cfg"
  have "1 \<le> max_i64 div ?I"
    using assms(1,3) by (simp add: cfg_safe_def is_i64_def max_i64_def pos_imp_zdiv_pos_iff int_one_le_iff_zero_less)
  then have "?r \<le> (max_i64 div ?I) * ?r"
    using assms(2) by (simp add: mult_le_cancel_right1)
  then have mr: "MaxTokens cfg + ?r \<le> max_i64"
    using assms(1,3) by (simp add: cfg_safe_def)
  have fits: "i64 (n - c) = n - c" "i64 (n - c + ?r) = n - c + ?r" "i64 (n - c + ?r - 1) = n - c + ?r - 1"
    using assms mr by (auto simp: i64_id is_i64_def max_i64_def)
  have q: "go_div (n - c + ?r - 1) ?r = ?k"
    using assms mr by (intro go_div_nonneg) (auto simp: max_i64_def)
  have "?k * ?I \<le> n * ?I"
    using ceil_div_covers(3) [of ?r "n - c"] assms by (intro mult_right_mono) auto
  moreover have "0 \<le> ?k * ?I"
    using ceil_div_covers(2) [of ?r "n - c"] assms by simp
  ultimately have "i64 (?k * ?I) = ?k * ?I"
    using assms(7) by (simp add: i64_id is_i64_def max_i64_def)
  with fits q assms show ?thesis by (simp add: retry_after_def Let_def)
qed

lemma ticks_after_wait:
  assumes "0 < RefillInterval (configPtr b)" "lastRefillTime b \<le> now" "0 \<le> k"
  shows "k \<le> ticks b (now + k * RefillInterval (configPtr b))"
proof -
  let ?I = "RefillInterval (configPtr b)"
  have "(k * ?I) div ?I \<le> (now + k * ?I - lastRefillTime b) div ?I"
    using assms by (intro zdiv_mono1) auto
  with assms(1) show ?thesis by (simp add: ticks_def)
qed

lemma enough_after_wait:
  assumes "bucket_ok b" "0 < RefillInterval (configPtr b)" "lastRefillTime b \<le> now" "0 \<le> k"
    and "n \<le> MaxTokens (configPtr b)" "n \<le> tokens b + k * RefillRate (configPtr b)"
  shows "n \<le> tokens (refilled b (now + k * RefillInterval (configPtr b)))"
proof -
  let ?r = "RefillRate (configPtr b)" and ?t = "now + k * RefillInterval (configPtr b)"
  have "k * ?r \<le> ticks b ?t * ?r"
    using ticks_after_wait [OF assms(2-4)] assms(1)
    by (intro mult_right_mono) (simp_all add: bucket_ok_def cfg_safe_def)
  with assms(2,5,6) show ?thesis by (simp add: refilled_def)
qed

lemma allowed_when_rich:
  assumes "bucket_ok b" "valid_time t" "\<not> blocked b" "windowPtr b = None"
    and "TokensPerRequest (configPtr b) \<le> tokens (refilled b t)"
  shows "fst (snd (bucket_Allow b t))"
  using assms(1,2) by (cases rule: bucket_Allow_cases) (use assms in auto)

section \<open>Properties of the component\<close>

definition example_cfg :: bucket_Config where
  "example_cfg = \<lparr>MaxTokens = 5, RefillRate = 2, RefillInterval = 100, TokensPerRequest = 1,
     SlidingWindowCfg = None\<rparr>"

definition example_bucket :: Bucket where
  "example_bucket = bucket_New example_cfg 1000"

lemma example_cfg_safe [simp]: "cfg_safe example_cfg"
  by (simp add: cfg_safe_def example_cfg_def max_i64_def is_i64_def)

lemma example_fields [simp]:
  "MaxTokens example_cfg = 5" "RefillRate example_cfg = 2" "RefillInterval example_cfg = 100"
  "TokensPerRequest example_cfg = 1" "SlidingWindowCfg example_cfg = None"
  "configPtr example_bucket = example_cfg" "tokens example_bucket = 5"
  "lastRefillTime example_bucket = 1000" "blocked example_bucket = False"
  "windowPtr example_bucket = None"
  by (simp_all add: example_bucket_def example_cfg_def bucket_New_def normalize_def UnixNano_valid
      valid_time_def window_of_def Let_def)

lemma example_bucket_ok [simp]: "bucket_ok example_bucket"
  by (simp add: example_bucket_def bucket_New_ok valid_time_def)

lemma admitted_bound:
  assumes "bucket_ok b" "list_all (op_time_ok tmax) ops" "0 < RefillInterval (configPtr b)"
  shows "TokensPerRequest (configPtr b) * int (admitted b ops)
       \<le> tokens b + RefillRate (configPtr b) * ticks b tmax"
proof -
  let ?b' = "bucket_run b ops" and ?c = "configPtr b"
  have good: "list_all (op_time_ok max_i64) ops"
    using assms(2) by (auto simp: list_all_iff intro: op_time_ok_mono)
  have meter: "tokens ?b' + TokensPerRequest ?c * int (admitted b ops) + clock_credit b
      \<le> tokens b + clock_credit ?b'"
    using bm.run_meter [OF assms(1) good] by (simp add: bucket_run_is_run total_admitted)
  obtain k where k: "0 \<le> k" "lastRefillTime ?b' = lastRefillTime b + k * RefillInterval ?c"
    "lastRefillTime ?b' \<le> max (lastRefillTime b) tmax"
    using bucket_run_clock [OF assms(1,2)] by blast
  have "k \<le> ticks b tmax"
  proof (cases "k = 0")
    case False
    with k(1) assms(3) have "0 < k * RefillInterval ?c" by simp
    with k(2,3) have "k * RefillInterval ?c \<le> tmax - lastRefillTime b" by linarith
    from zdiv_mono1 [OF this assms(3)] assms(3) show ?thesis by (simp add: ticks_def)
  qed simp
  moreover have "0 \<le> RefillRate ?c" using assms(1) by (simp add: bucket_ok_def cfg_safe_def)
  ultimately have "RefillRate ?c * k \<le> RefillRate ?c * ticks b tmax" by (rule mult_left_mono)
  moreover have "clock_credit ?b' = clock_credit b + RefillRate ?c * k"
    using k(2) assms(3) by (simp add: clock_credit_def distrib_left)
  moreover have "0 \<le> tokens ?b'"
    using bucket_run_ok [OF assms(1,2)] by (simp add: bucket_ok_def)
  ultimately show ?thesis using meter by linarith
qed

text \<open>
  C2. The rate limit.  Over any sequence of requests, scheduled refills, blocks and unblocks,
  in any order and with any clock readings up to \<open>tmax\<close>, the tokens taken by the accepted
  requests never exceed the balance at the start plus \<^verbatim>\<open>RefillRate\<close> for each whole
  \<^verbatim>\<open>RefillInterval\<close> between the last refill and \<open>tmax\<close>.
\<close>

theorem bucket_rate_limit:
  assumes "bucket_ok b" "list_all (op_time_ok tmax) ops" "0 < RefillInterval (configPtr b)"
  shows "TokensPerRequest (configPtr b) * int (admitted b ops)
       \<le> tokens b + RefillRate (configPtr b) * ticks b tmax"
  by (rule admitted_bound [OF assms])

theorem bucket_rate_limit_witness:
  "int (admitted example_bucket (replicate 9 (OpAllow 1250))) \<le> 5 + 2 * 2"
  using bucket_rate_limit [of example_bucket 1250 "replicate 9 (OpAllow 1250)"]
  by (simp add: valid_time_def ticks_def list_all_iff)

text \<open>
  The balance stays in range.  A bucket made by \<^verbatim>\<open>New\<close> from a safe configuration
  holds between 0 and \<^verbatim>\<open>MaxTokens\<close> tokens after any sequence of operations, and after
  a further \<^verbatim>\<open>UpdateConfig\<close> between 0 and the new maximum.
\<close>

theorem bucket_balance_in_range:
  assumes "cfg_safe cfg" "valid_time now" "list_all (op_time_ok tmax) ops" "cfg_safe cfg'"
  shows "0 \<le> tokens (bucket_run (bucket_New cfg now) ops)
    \<and> tokens (bucket_run (bucket_New cfg now) ops) \<le> MaxTokens cfg
    \<and> 0 \<le> tokens (UpdateConfig (bucket_run (bucket_New cfg now) ops) cfg')
    \<and> tokens (UpdateConfig (bucket_run (bucket_New cfg now) ops) cfg') \<le> MaxTokens cfg'"
proof -
  have ok: "bucket_ok (bucket_run (bucket_New cfg now) ops)"
    by (rule bucket_run_ok [OF bucket_New_ok [OF assms(1,2)] assms(3)])
  then have "bucket_ok (UpdateConfig (bucket_run (bucket_New cfg now) ops) cfg')"
    by (rule UpdateConfig_ok [OF _ assms(4)])
  with ok show ?thesis by (simp add: bucket_ok_def bucket_New_def UpdateConfig_def Let_def)
qed

theorem bucket_balance_in_range_witness:
  "0 \<le> tokens (UpdateConfig (bucket_run (bucket_New example_cfg 1000) [OpAllow 1250, OpRefill 900])
        (example_cfg\<lparr>MaxTokens := 3\<rparr>))
   \<and> tokens (UpdateConfig (bucket_run (bucket_New example_cfg 1000) [OpAllow 1250, OpRefill 900])
        (example_cfg\<lparr>MaxTokens := 3\<rparr>)) \<le> 3"
  using bucket_balance_in_range [of example_cfg 1000 1250 "[OpAllow 1250, OpRefill 900]"
      "example_cfg\<lparr>MaxTokens := 3\<rparr>"]
  by (simp add: valid_time_def cfg_safe_def example_cfg_def max_i64_def is_i64_def)




definition drained_bucket :: Bucket where
  "drained_bucket = example_bucket\<lparr>tokens := 0\<rparr>"


text \<open>
  A request refused by the sliding window costs nothing: the balance and the refill clock
  are what a refill alone would have left, so only an accepted request takes tokens.
\<close>

theorem window_rejection_refunds:
  assumes "bucket_ok b" "valid_time now" "bucket_Allow b now = (b', False, wait)" "\<not> blocked b"
  shows "tokens b' = tokens (ScheduledRefill b now)
    \<and> lastRefillTime b' = lastRefillTime (ScheduledRefill b now)"
  using assms(1,2)
  by (cases rule: bucket_Allow_cases) (use assms in \<open>auto simp: ScheduledRefill_exact\<close>)

definition windowed_bucket :: Bucket where
  "windowed_bucket = bucket_New (example_cfg\<lparr>SlidingWindowCfg := Some (example_window\<lparr>MaxRequests := 0\<rparr>)\<rparr>) 1000"

theorem window_rejection_refunds_witness:
  "\<exists>b' wait. bucket_Allow windowed_bucket 1050 = (b', False, wait) \<and> tokens b' = 5 \<and> wait = 100"
proof -
  have ok: "bucket_ok windowed_bucket"
    unfolding windowed_bucket_def by (rule bucket_New_ok)
      (simp_all add: cfg_safe_def example_window_def window_cfg_ok_def max_i64_def is_i64_def valid_time_def)
  have f: "blocked windowed_bucket = False" "tokens windowed_bucket = 5"
    by (simp_all add: windowed_bucket_def bucket_New_def Let_def)
  have "\<exists>b'. bucket_Allow windowed_bucket 1050 = (b', False, 100)"
    by (simp add: windowed_bucket_def example_window_def example_cfg_def bucket_New_def normalize_def window_of_def window_New_def
        bucket_Allow_def lazyRefill_def cost_def timeSub_valid valid_time_def timeUnix_def
        UnixNano_valid go_div_nonneg i64_id is_i64_def window_Allow_def compactLocked_def Let_def)
  then obtain b' where b': "bucket_Allow windowed_bucket 1050 = (b', False, 100)" by blast
  have "tokens (ScheduledRefill windowed_bucket 1050) = 5"
    by (simp add: windowed_bucket_def example_cfg_def bucket_New_def normalize_def ScheduledRefill_def lazyRefill_def
        timeSub_valid valid_time_def timeUnix_def UnixNano_valid go_div_nonneg Let_def)
  with window_rejection_refunds [OF ok _ b'] f(1) b' show ?thesis by (simp add: valid_time_def)
qed

end
