(* ===== verification/BucketRace.thy ===== *)
theory BucketRace
  imports Bucket
begin

text \<open>
  The lock-free hot path of \<^verbatim>\<open>internal/bucket/bucket.go\<close> under interference.  Any
  number of goroutines call \<^verbatim>\<open>Allow\<close> and \<^verbatim>\<open>ScheduledRefill\<close> on one bucket;
  a step of the system is one atomic load, store, add or compare-and-swap of one goroutine
  (the sliding window's \<^verbatim>\<open>Allow\<close> runs under its mutex and is one step), or an admin's
  \<^verbatim>\<open>Block\<close> or \<^verbatim>\<open>Unblock\<close>.  The retry loops are cycles of the program counter.

  The configuration of a bucket does not change while the bucket is shared: the store never
  calls \<^verbatim>\<open>UpdateConfig\<close>, it replaces the whole bucket (see the theory \<open>Store\<close>).
\<close>

section \<open>Goroutines\<close>

datatype caller = FromAllow | FromScheduler

text \<open>The program counter of a goroutine, with its local variables.\<close>

datatype pc =
    Idle
  | LoadBlocked gotime
  | CheckInterval gotime
  | RLoadTime caller gotime
  | RCasTime caller gotime int64 int64 int64
  | RLoadTok caller gotime int64
  | RCasTok caller gotime int64 int64
  | StoreAccess gotime
  | ALoadTok gotime
  | ACasTok gotime int64
  | AWindow gotime
  | ARefund
  | Returned bool duration

fun after_refill :: "caller \<Rightarrow> gotime \<Rightarrow> pc" where
  "after_refill FromAllow now = StoreAccess now"
| "after_refill FromScheduler now = Idle"

fun thread_step :: "Bucket \<Rightarrow> pc \<Rightarrow> Bucket \<times> pc" where
  "thread_step b Idle = (b, Idle)"
| "thread_step b (LoadBlocked now) =
     (b, if blocked b then Returned False 0
         else if RefillInterval (configPtr b) > 0 then RLoadTime FromAllow now
         else StoreAccess now)"
| "thread_step b (CheckInterval now) =
     (b, if RefillInterval (configPtr b) \<le> 0 then Idle else RLoadTime FromScheduler now)"
| "thread_step b (RLoadTime c now) =
     (let cfg = configPtr b;
          lastNano = lastRefillTime b;
          last = timeUnix lastNano;
          intervals = go_div (timeSub now last) (RefillInterval cfg)
      in if intervals \<le> 0 then (b, after_refill c now)
         else (b, RCasTime c now lastNano
                    (UnixNano (timeAdd last (i64 (intervals * RefillInterval cfg))))
                    (i64 (intervals * RefillRate cfg))))"
| "thread_step b (RCasTime c now lastNano newLastNano tokensToAdd) =
     (if lastRefillTime b = lastNano
      then (b\<lparr>lastRefillTime := newLastNano\<rparr>, RLoadTok c now tokensToAdd)
      else (b, RLoadTime c now))"
| "thread_step b (RLoadTok c now tokensToAdd) = (b, RCasTok c now tokensToAdd (tokens b))"
| "thread_step b (RCasTok c now tokensToAdd current) =
     (let updated = i64 (current + tokensToAdd);
          updated = (if updated > MaxTokens (configPtr b) then MaxTokens (configPtr b) else updated)
      in if tokens b = current then (b\<lparr>tokens := updated\<rparr>, after_refill c now)
         else (b, RLoadTok c now tokensToAdd))"
| "thread_step b (StoreAccess now) = (b\<lparr>lastAccessTime := UnixNano now\<rparr>, ALoadTok now)"
| "thread_step b (ALoadTok now) =
     (let current = tokens b; n = cost (configPtr b) in
      (b, if current < n then Returned False (retry_after (configPtr b) n current)
          else ACasTok now current))"
| "thread_step b (ACasTok now current) =
     (if tokens b = current
      then (b\<lparr>tokens := i64 (current - cost (configPtr b))\<rparr>, AWindow now)
      else (b, ALoadTok now))"
| "thread_step b (AWindow now) =
     (case windowPtr b of
        None \<Rightarrow> (b, Returned True 0)
      | Some w \<Rightarrow> (case window_Allow w now of
                     (w', Panic) \<Rightarrow> (b\<lparr>windowPtr := Some w'\<rparr>, Returned False Second)
                   | (w', Ret True) \<Rightarrow> (b\<lparr>windowPtr := Some w'\<rparr>, Returned True 0)
                   | (w', Ret False) \<Rightarrow> (b\<lparr>windowPtr := Some w'\<rparr>, ARefund)))"
| "thread_step b ARefund =
     (b\<lparr>tokens := i64 (tokens b + cost (configPtr b))\<rparr>,
      Returned False (RefillInterval (configPtr b)))"
| "thread_step b (Returned d r) = (b, Returned d r)"

section \<open>The system\<close>

text \<open>The shared bucket, the goroutines, and how many requests have been accepted so far.\<close>

record race =
  shared :: Bucket
  pcs :: "pc list"
  granted :: nat

definition grants :: "pc \<Rightarrow> pc \<Rightarrow> nat" where
  "grants p p' = (case (p, p') of (AWindow _, Returned True _) \<Rightarrow> 1 | _ \<Rightarrow> 0)"

inductive race_step :: "gotime \<Rightarrow> race \<Rightarrow> race \<Rightarrow> bool" for tmax where
  call_allow: "i < length (pcs s) \<Longrightarrow> pcs s ! i = Idle \<Longrightarrow> valid_time now \<Longrightarrow> now \<le> tmax \<Longrightarrow>
     race_step tmax s (s\<lparr>pcs := (pcs s)[i := LoadBlocked now]\<rparr>)"
| call_refill: "i < length (pcs s) \<Longrightarrow> pcs s ! i = Idle \<Longrightarrow> valid_time now \<Longrightarrow> now \<le> tmax \<Longrightarrow>
     race_step tmax s (s\<lparr>pcs := (pcs s)[i := CheckInterval now]\<rparr>)"
| return: "i < length (pcs s) \<Longrightarrow> pcs s ! i = Returned d r \<Longrightarrow>
     race_step tmax s (s\<lparr>pcs := (pcs s)[i := Idle]\<rparr>)"
| run: "i < length (pcs s) \<Longrightarrow> thread_step (shared s) (pcs s ! i) = (b, p) \<Longrightarrow>
     race_step tmax s (s\<lparr>shared := b, pcs := (pcs s)[i := p],
                         granted := granted s + grants (pcs s ! i) p\<rparr>)"
| block: "race_step tmax s (s\<lparr>shared := bucket_Block (shared s)\<rparr>)"
| unblock: "race_step tmax s (s\<lparr>shared := bucket_Unblock (shared s)\<rparr>)"

definition race_init :: "Bucket \<Rightarrow> nat \<Rightarrow> race" where
  "race_init b n = \<lparr>shared = b, pcs = replicate n Idle, granted = 0\<rparr>"

inductive race_reach :: "Bucket \<Rightarrow> nat \<Rightarrow> gotime \<Rightarrow> race \<Rightarrow> bool" for b0 n tmax where
  init: "race_reach b0 n tmax (race_init b0 n)"
| step: "race_reach b0 n tmax s \<Longrightarrow> race_step tmax s t \<Longrightarrow> race_reach b0 n tmax t"

section \<open>A goroutine left alone\<close>

text \<open>Without interference the steps of a call compose to the sequential operation.\<close>

fun solo :: "nat \<Rightarrow> Bucket \<times> pc \<Rightarrow> Bucket \<times> pc" where
  "solo 0 x = x"
| "solo (Suc k) (b, p) = solo k (thread_step b p)"

lemma solo_add: "solo (j + k) x = solo k (solo j x)"
proof (induction j arbitrary: x)
  case (Suc j)
  then show ?case by (cases x) simp
qed simp

lemma solo_Returned [simp]: "solo k (b, Returned d r) = (b, Returned d r)"
  by (induction k) simp_all

lemma solo_refill:
  assumes "RefillInterval (configPtr b) > 0"
  shows "\<exists>j\<le>4. solo j (b, RLoadTime c now) = (lazyRefill b now (configPtr b), after_refill c now)"
proof (cases "go_div (timeSub now (timeUnix (lastRefillTime b))) (RefillInterval (configPtr b)) \<le> 0")
  case True
  then show ?thesis
    by (intro exI [of _ 1]) (simp add: lazyRefill_def numeral_eq_Suc Let_def)
next
  case False
  then show ?thesis
    by (intro exI [of _ 4]) (simp add: lazyRefill_def numeral_eq_Suc Let_def)
qed

lemma solo_decide:
  "solo 5 (b, StoreAccess now) =
     (let b2 = b\<lparr>lastAccessTime := UnixNano now\<rparr>; cfg = configPtr b; n = cost cfg
      in if tokens b2 < n then (b2, Returned False (retry_after cfg n (tokens b2)))
         else let b3 = b2\<lparr>tokens := i64 (tokens b2 - n)\<rparr>
              in case windowPtr b3 of
                   None \<Rightarrow> (b3, Returned True 0)
                 | Some w \<Rightarrow>
                     (case window_Allow w now of
                        (w', Panic) \<Rightarrow> (b3\<lparr>windowPtr := Some w'\<rparr>, Returned False Second)
                      | (w', Ret True) \<Rightarrow> (b3\<lparr>windowPtr := Some w'\<rparr>, Returned True 0)
                      | (w', Ret False) \<Rightarrow>
                          (b3\<lparr>windowPtr := Some w', tokens := i64 (tokens b3 + n)\<rparr>,
                           Returned False (RefillInterval cfg))))"
  by (auto simp: numeral_eq_Suc Let_def split: option.splits prod.splits go.splits bool.splits)

lemma solo_Returned_le: "solo j x = (b, Returned d r) \<Longrightarrow> j \<le> k \<Longrightarrow> solo k x = (b, Returned d r)"
  using solo_add [of j "k - j" x] by simp

lemma solo_decide_Allow:
  assumes "\<not> blocked b" "b1 = ScheduledRefill b now" "bucket_Allow b now = (b', d, r)"
  shows "solo 5 (b1, StoreAccess now) = (b', Returned d r)"
proof -
  have "configPtr b1 = configPtr b" using assms(2) by simp
  with assms show ?thesis
    by (auto simp: solo_decide bucket_Allow_unfold Let_def
        split: if_splits option.splits prod.splits go.splits bool.splits)
qed

lemma solo_reaches_StoreAccess:
  assumes "\<not> blocked b"
  shows "\<exists>j\<le>5. solo j (b, LoadBlocked now) = (ScheduledRefill b now, StoreAccess now)"
proof (cases "RefillInterval (configPtr b) > 0")
  case True
  then obtain j where "j \<le> 4" "solo j (b, RLoadTime FromAllow now) =
      (lazyRefill b now (configPtr b), StoreAccess now)"
    using solo_refill [of b FromAllow now] by auto
  with True assms show ?thesis
    by (intro exI [of _ "Suc j"]) (simp add: ScheduledRefill_def)
next
  case False
  with assms show ?thesis
    by (intro exI [of _ 1]) (simp add: ScheduledRefill_def)
qed

section \<open>Accounting\<close>

definition psum :: "(pc \<Rightarrow> int) \<Rightarrow> pc list \<Rightarrow> int" where
  "psum f ps = sum_list (map f ps)"

lemma psum_update:
  "i < length ps \<Longrightarrow> psum f (ps[i := p]) = psum f ps - f (ps ! i) + f p"
proof (induction ps arbitrary: i)
  case (Cons q ps)
  then show ?case by (cases i) (simp_all add: psum_def)
qed simp

lemma psum_replicate_Idle: "f Idle = 0 \<Longrightarrow> psum f (replicate n Idle) = 0"
  by (simp add: psum_def sum_list_replicate)

text \<open>A goroutine that has taken tokens for a request still undecided, and the credit a
  goroutine has claimed by moving the refill clock but not yet added to the balance.\<close>

fun undecided :: "pc \<Rightarrow> int" where
  "undecided (AWindow _) = 1"
| "undecided ARefund = 1"
| "undecided _ = 0"

fun owed :: "pc \<Rightarrow> int" where
  "owed (RLoadTok _ _ a) = a"
| "owed (RCasTok _ _ a _) = a"
| "owed _ = 0"

lemma undecided_bounds: "0 \<le> psum undecided ps" "psum undecided ps \<le> int (length ps)"
proof -
  have "0 \<le> undecided p \<and> undecided p \<le> 1" for p by (cases p) simp_all
  then show "0 \<le> psum undecided ps" "psum undecided ps \<le> int (length ps)"
    by (induction ps) (auto simp: psum_def intro: add_mono)
qed

definition max_add :: "bucket_Config \<Rightarrow> int" where
  "max_add cfg = (max_i64 div RefillInterval cfg) * RefillRate cfg"

text \<open>What the local variables of a goroutine satisfy.\<close>

fun pc_ok :: "bucket_Config \<Rightarrow> gotime \<Rightarrow> pc \<Rightarrow> bool" where
  "pc_ok cfg tmax (RCasTime c now l l' a) \<longleftrightarrow> valid_time now \<and> now \<le> tmax
     \<and> 0 < RefillInterval cfg \<and> l' \<le> now \<and> 0 \<le> a \<and> a \<le> max_add cfg
     \<and> (\<exists>k>0. l' = l + k * RefillInterval cfg \<and> a = k * RefillRate cfg)"
| "pc_ok cfg tmax (RLoadTok c now a) \<longleftrightarrow> valid_time now \<and> now \<le> tmax \<and> 0 < RefillInterval cfg
     \<and> 0 \<le> a \<and> a \<le> max_add cfg"
| "pc_ok cfg tmax (RCasTok c now a cur) \<longleftrightarrow> valid_time now \<and> now \<le> tmax \<and> 0 < RefillInterval cfg
     \<and> 0 \<le> a \<and> a \<le> max_add cfg"
| "pc_ok cfg tmax (ACasTok now cur) \<longleftrightarrow> valid_time now \<and> now \<le> tmax \<and> cost cfg \<le> cur"
| "pc_ok cfg tmax (RLoadTime c now) \<longleftrightarrow> valid_time now \<and> now \<le> tmax \<and> 0 < RefillInterval cfg"
| "pc_ok cfg tmax (LoadBlocked now) \<longleftrightarrow> valid_time now \<and> now \<le> tmax"
| "pc_ok cfg tmax (CheckInterval now) \<longleftrightarrow> valid_time now \<and> now \<le> tmax"
| "pc_ok cfg tmax (StoreAccess now) \<longleftrightarrow> valid_time now \<and> now \<le> tmax"
| "pc_ok cfg tmax (ALoadTok now) \<longleftrightarrow> valid_time now \<and> now \<le> tmax"
| "pc_ok cfg tmax (AWindow now) \<longleftrightarrow> valid_time now \<and> now \<le> tmax"
| "pc_ok cfg tmax _ \<longleftrightarrow> True"

lemma pc_ok_after_refill: "valid_time now \<Longrightarrow> now \<le> tmax \<Longrightarrow> pc_ok cfg tmax (after_refill c now)"
  by (cases c) simp_all

lemma weights_after_refill [simp]: "undecided (after_refill c now) = 0" "owed (after_refill c now) = 0"
  by (cases c; simp)+

text \<open>With room for one request of every goroutine on top of the largest refill, no
  interleaving overflows.\<close>

definition race_safe :: "bucket_Config \<Rightarrow> nat \<Rightarrow> bool" where
  "race_safe cfg n \<longleftrightarrow>
     MaxTokens cfg + cost cfg * int n + (if 0 < RefillInterval cfg then max_add cfg else 0) \<le> max_i64"

text \<open>
  The invariant.  \<open>K\<close> is the number of refill intervals the clock has advanced since the
  start: every token that was ever available is in the balance, held by an undecided request,
  taken by an accepted one, or owed by a goroutine in the middle of a refill.
\<close>

definition race_inv :: "Bucket \<Rightarrow> nat \<Rightarrow> gotime \<Rightarrow> race \<Rightarrow> bool" where
  "race_inv b0 n tmax s \<longleftrightarrow>
     (let b = shared s; cfg = configPtr b0 in
      configPtr b = cfg \<and> length (pcs s) = n \<and> list_all (pc_ok cfg tmax) (pcs s)
      \<and> 0 \<le> tokens b \<and> tokens b + cost cfg * psum undecided (pcs s) \<le> MaxTokens cfg + cost cfg * int n
      \<and> valid_time (lastRefillTime b) \<and> lastRefillTime b \<le> max (lastRefillTime b0) tmax
      \<and> window_fits (windowPtr b)
      \<and> (\<exists>K\<ge>0. lastRefillTime b = lastRefillTime b0 + K * RefillInterval cfg
           \<and> tokens b + cost cfg * psum undecided (pcs s) + cost cfg * int (granted s)
               + psum owed (pcs s) \<le> tokens b0 + K * RefillRate cfg))"

section \<open>The effect of one step\<close>

lemma cost_pos: "0 < cost cfg"
  by (simp add: cost_def)

lemma intervals_pos:
  assumes t: "valid_time now" "valid_time l" and I: "0 < I"
    and q: "q = go_div (timeSub now (timeUnix l)) I" "0 < q"
  shows "l + q * I \<le> now" "q \<le> max_i64 div I"
proof -
  have sub: "timeSub now (timeUnix l) = now - l" using t by (simp add: timeUnix_def timeSub_valid)
  have "0 \<le> now - l"
  proof (rule ccontr)
    assume "\<not> 0 \<le> now - l"
    then have "go_div (now - l) I \<le> 0"
      using t I by (intro go_div_neg_le) (auto simp: valid_time_def is_i64_def)
    with q sub show False by simp
  qed
  then have q': "q = (now - l) div I"
    using q sub t I by (simp add: go_div_nonneg valid_time_def)
  show "l + q * I \<le> now"
    unfolding q' using minus_mod_eq_div_mult [of "now - l" I] pos_mod_sign [OF I, of "now - l"] by linarith
  show "q \<le> max_i64 div I"
    unfolding q' using t I by (intro zdiv_mono1) (auto simp: valid_time_def max_i64_def)
qed

text \<open>One step of one goroutine, measured against the bucket it found.\<close>

definition step_effect :: "bucket_Config \<Rightarrow> gotime \<Rightarrow> Bucket \<Rightarrow> pc \<Rightarrow> Bucket \<Rightarrow> pc \<Rightarrow> bool" where
  "step_effect cfg tmax b p b' p' \<longleftrightarrow>
     configPtr b' = cfg \<and> pc_ok cfg tmax p' \<and> window_fits (windowPtr b') \<and> 0 \<le> tokens b'
     \<and> (tokens b' + cost cfg * undecided p' \<le> tokens b + cost cfg * undecided p
        \<or> (tokens b' \<le> MaxTokens cfg \<and> undecided p' = undecided p))
     \<and> valid_time (lastRefillTime b') \<and> lastRefillTime b' \<le> max (lastRefillTime b) tmax
     \<and> (\<exists>k\<ge>0. lastRefillTime b' = lastRefillTime b + k * RefillInterval cfg
          \<and> tokens b' + cost cfg * undecided p' + cost cfg * int (grants p p') + owed p'
              \<le> tokens b + cost cfg * undecided p + owed p + k * RefillRate cfg)"

lemma step_effectI:
  assumes "configPtr b' = cfg" "pc_ok cfg tmax p'" "window_fits (windowPtr b')" "0 \<le> tokens b'"
    and "valid_time (lastRefillTime b')" "lastRefillTime b' = lastRefillTime b"
    and "tokens b' + cost cfg * undecided p' \<le> tokens b + cost cfg * undecided p"
    and "tokens b' + cost cfg * undecided p' + cost cfg * int (grants p p') + owed p'
           \<le> tokens b + cost cfg * undecided p + owed p"
  shows "step_effect cfg tmax b p b' p'"
  using assms unfolding step_effect_def by (auto intro!: exI [of _ "0::int"])

definition shared_ok :: "bucket_Config \<Rightarrow> Bucket \<Rightarrow> bool" where
  "shared_ok cfg b \<longleftrightarrow> cfg_safe cfg \<and> configPtr b = cfg \<and> 0 \<le> tokens b
     \<and> valid_time (lastRefillTime b) \<and> window_fits (windowPtr b)"

lemma shared_okD:
  assumes "shared_ok cfg b"
  shows "configPtr b = cfg" "0 \<le> tokens b" "valid_time (lastRefillTime b)" "window_fits (windowPtr b)"
    "cfg_safe cfg" "0 \<le> RefillRate cfg" "0 \<le> MaxTokens cfg"
  using assms by (simp_all add: shared_ok_def cfg_safe_def)

lemma max_add_nonneg: "cfg_safe cfg \<Longrightarrow> 0 < RefillInterval cfg \<Longrightarrow> 0 \<le> max_add cfg"
  by (simp add: max_add_def cfg_safe_def pos_imp_zdiv_nonneg_iff max_i64_def)

lemma effect_RLoadTime:
  assumes so: "shared_ok cfg b" and "pc_ok cfg tmax (RLoadTime c now)" "thread_step b (RLoadTime c now) = (b', p')"
  shows "step_effect cfg tmax b (RLoadTime c now) b' p'"
proof -
  define q where "q = go_div (timeSub now (timeUnix (lastRefillTime b))) (RefillInterval cfg)"
  from assms(2) have t: "valid_time now" "now \<le> tmax" and I: "0 < RefillInterval cfg" by auto
  show ?thesis
  proof (cases "q \<le> 0")
    case True
    with assms(3) shared_okD [OF so] have "b' = b" "p' = after_refill c now" by (simp_all add: q_def Let_def)
    with shared_okD [OF so] t show ?thesis by (intro step_effectI) (simp_all add: pc_ok_after_refill grants_def)
  next
    case False
    then have q0: "0 < q" by simp
    note q = intervals_pos [OF t(1) shared_okD(3) [OF so] I q_def q0]
    have rate: "0 \<le> RefillRate cfg" using shared_okD [OF so] by simp
    have add: "0 \<le> q * RefillRate cfg" "q * RefillRate cfg \<le> max_add cfg"
      using q(2) q0 rate by (auto simp: max_add_def intro: mult_right_mono)
    have safe: "MaxTokens cfg + max_add cfg \<le> max_i64" "0 \<le> MaxTokens cfg"
      using shared_okD(5,7) [OF so] I by (simp_all add: cfg_safe_def max_add_def)
    have qI: "0 \<le> q * RefillInterval cfg" using q0 I by simp
    have fits: "i64 (q * RefillRate cfg) = q * RefillRate cfg"
      "i64 (q * RefillInterval cfg) = q * RefillInterval cfg"
      using add safe q(1) qI t(1) shared_okD(3) [OF so]
      by (auto simp: i64_id is_i64_def max_i64_def valid_time_def)
    have un: "UnixNano (timeAdd (timeUnix (lastRefillTime b)) (q * RefillInterval cfg)) =
        lastRefillTime b + q * RefillInterval cfg"
      unfolding timeAdd_def timeUnix_def
      using q(1) qI t(1) shared_okD(3) [OF so] by (intro UnixNano_valid) (auto simp: valid_time_def)
    have "thread_step b (RLoadTime c now) =
        (b, RCasTime c now (lastRefillTime b) (lastRefillTime b + q * RefillInterval cfg) (q * RefillRate cfg))"
      using shared_okD(1) [OF so] False fits un by (simp add: q_def [symmetric] Let_def)
    with assms(3) have "b' = b" "p' = RCasTime c now (lastRefillTime b)
        (lastRefillTime b + q * RefillInterval cfg) (q * RefillRate cfg)" by simp_all
    moreover have "pc_ok cfg tmax p'"
      using t I q(1) q0 add calculation by auto
    ultimately show ?thesis
      using shared_okD [OF so] by (intro step_effectI) (simp_all add: grants_def del: pc_ok.simps)
  qed
qed

lemma effect_RCasTime:
  assumes so: "shared_ok cfg b" and "pc_ok cfg tmax (RCasTime c now l l' a)" "thread_step b (RCasTime c now l l' a) = (b', p')"
  shows "step_effect cfg tmax b (RCasTime c now l l' a) b' p'"
proof (cases "lastRefillTime b = l")
  case True
  from assms(2) obtain k where k: "0 < k" "l' = l + k * RefillInterval cfg" "a = k * RefillRate cfg"
    by auto
  have "0 \<le> k * RefillInterval cfg" using assms(2) k(1) by simp
  then have "valid_time l'" using assms(2) shared_okD(3) [OF so] True k(2) by (auto simp: valid_time_def)
  moreover have "b' = b\<lparr>lastRefillTime := l'\<rparr>" "p' = RLoadTok c now a"
    using assms(3) True by simp_all
  ultimately show ?thesis
    using assms(2) shared_okD [OF so] k True by (auto simp: step_effect_def grants_def intro!: exI [of _ k])
next
  case False
  with assms shared_okD [OF so] show ?thesis by (intro step_effectI) (auto simp: grants_def)
qed

lemma effect_RCasTok:
  assumes so: "shared_ok cfg b" and "pc_ok cfg tmax (RCasTok c now a cur)" "thread_step b (RCasTok c now a cur) = (b', p')"
    and "tokens b + max_add cfg \<le> max_i64"
  shows "step_effect cfg tmax b (RCasTok c now a cur) b' p'"
proof (cases "tokens b = cur")
  case True
  have "i64 (cur + a) = cur + a"
    using assms(2,4) shared_okD(2) [OF so] True by (auto simp: i64_id is_i64_def max_i64_def)
  then have "b' = b\<lparr>tokens := min (MaxTokens cfg) (cur + a)\<rparr>" "p' = after_refill c now"
    using assms(3) True shared_okD(1) [OF so] by (auto simp: Let_def min_def split: if_splits)
  moreover have "0 \<le> MaxTokens cfg" using shared_okD [OF so] by simp
  ultimately show ?thesis
    using assms(2) shared_okD [OF so] True
    by (auto simp: step_effect_def grants_def pc_ok_after_refill intro!: exI [of _ "0::int"])
next
  case False
  with assms shared_okD [OF so] show ?thesis by (intro step_effectI) (auto simp: grants_def Let_def)
qed

lemma effect_AWindow:
  assumes so: "shared_ok cfg b" and "pc_ok cfg tmax (AWindow now)" "thread_step b (AWindow now) = (b', p')"
  shows "step_effect cfg tmax b (AWindow now) b' p'"
proof (cases "windowPtr b")
  case None
  with assms shared_okD [OF so] show ?thesis
    using cost_pos [of cfg] by (intro step_effectI) (auto simp: grants_def less_imp_le)
next
  case (Some w)
  from shared_okD(4) [OF so] Some obtain w' d where w': "window_Allow w now = (w', Ret d)" "window_fits (Some w')"
    using assms(2) window_step [of w now] by auto
  with Some assms shared_okD [OF so] show ?thesis
    using cost_pos [of cfg] by (intro step_effectI; cases d) (auto simp: grants_def)
qed

lemma thread_step_effect:
  assumes so: "shared_ok cfg b" and ok: "pc_ok cfg tmax p" and step: "thread_step b p = (b', p')"
    and L: "tokens b + cost cfg * undecided p + (if 0 < RefillInterval cfg then max_add cfg else 0) \<le> max_i64"
  shows "step_effect cfg tmax b p b' p'"
proof -
  note b = shared_okD [OF so]
  have room: "tokens b + cost cfg * undecided p \<le> max_i64"
    using L max_add_nonneg [OF b(5)] by (auto split: if_splits)
  show ?thesis
  proof (cases p)
    case (RCasTok c now a cur)
    with L so ok step effect_RCasTok show ?thesis by (auto split: if_splits)
  next
    case (ACasTok now cur)
    show ?thesis
    proof (cases "tokens b = cur")
      case True
      have "cost cfg \<le> cur" "cur \<le> max_i64" using ok room ACasTok True by simp_all
      then have "is_i64 (cur - cost cfg)"
        using cost_pos [of cfg] unfolding is_i64_def max_i64_def by linarith
      then have "i64 (cur - cost cfg) = cur - cost cfg" by (rule i64_id)
      with True ACasTok ok step b show ?thesis by (intro step_effectI) (auto simp: grants_def)
    next
      case False
      with ACasTok ok step b show ?thesis by (intro step_effectI) (auto simp: grants_def)
    qed
  next
    case ARefund
    have "0 \<le> tokens b + cost cfg" "tokens b + cost cfg \<le> max_i64"
      using room ARefund b(2) cost_pos [of cfg] by (simp_all del: add_nonneg_nonneg)
    then have "i64 (tokens b + cost cfg) = tokens b + cost cfg"
      by (intro i64_id is_i64I) (simp_all add: max_i64_def)
    with ARefund ok step b \<open>0 \<le> tokens b + cost cfg\<close> show ?thesis
      by (intro step_effectI) (auto simp: grants_def)
  next
    case (RLoadTime c now)
    show ?thesis using effect_RLoadTime [OF so] ok step unfolding RLoadTime by blast
  next
    case (RCasTime c now l l' a)
    show ?thesis using effect_RCasTime [OF so] ok step unfolding RCasTime by blast
  next
    case (AWindow now)
    show ?thesis using effect_AWindow [OF so] ok step unfolding AWindow by blast
  qed (use ok step b in \<open>(auto simp: Let_def grants_def split: if_splits intro!: step_effectI)\<close>)
qed

section \<open>The invariant holds in every reachable state\<close>

lemma list_all_update: "list_all P xs \<Longrightarrow> P x \<Longrightarrow> list_all P (xs[i := x])"
  by (auto simp: list_all_iff dest!: set_update_subset_insert [THEN subsetD])

lemma list_all_nthD: "list_all P xs \<Longrightarrow> i < length xs \<Longrightarrow> P (xs ! i)"
  by (simp add: list_all_iff)

lemma race_inv_init:
  assumes "bucket_ok b0"
  shows "race_inv b0 n tmax (race_init b0 n)"
proof -
  have "tokens b0 \<le> MaxTokens (configPtr b0) + cost (configPtr b0) * int n"
    using assms cost_pos [of "configPtr b0"]
    by (intro add_increasing2) (simp_all add: bucket_ok_def)
  then show ?thesis
    using assms by (auto simp: race_inv_def race_init_def psum_replicate_Idle bucket_ok_def
        list_all_iff Let_def intro!: exI [of _ "0::int"])
qed

text \<open>Calling, returning and blocking do not touch what is counted.\<close>

lemma race_inv_quiet:
  assumes "race_inv b0 n tmax s" "i < length (pcs s)"
    and "pc_ok (configPtr b0) tmax p" "undecided p = undecided (pcs s ! i)" "owed p = owed (pcs s ! i)"
  shows "race_inv b0 n tmax (s\<lparr>pcs := (pcs s)[i := p]\<rparr>)"
  using assms by (simp add: race_inv_def psum_update list_all_update Let_def)

lemma race_inv_run:
  assumes inv: "race_inv b0 n tmax s" and safe: "cfg_safe (configPtr b0)" "race_safe (configPtr b0) n"
    and i: "i < length (pcs s)" and step: "thread_step (shared s) (pcs s ! i) = (b, p)"
  shows "race_inv b0 n tmax (s\<lparr>shared := b, pcs := (pcs s)[i := p],
                                granted := granted s + grants (pcs s ! i) p\<rparr>)"
proof -
  let ?c = "configPtr b0" and ?q = "pcs s ! i" and ?b = "shared s"
  define U where "U = psum undecided (pcs s)"
  define U' where "U' = psum undecided ((pcs s)[i := p])"
  from inv have f: "configPtr ?b = ?c" "length (pcs s) = n" "list_all (pc_ok ?c tmax) (pcs s)"
    "0 \<le> tokens ?b" "tokens ?b + cost ?c * U \<le> MaxTokens ?c + cost ?c * int n"
    "valid_time (lastRefillTime ?b)" "lastRefillTime ?b \<le> max (lastRefillTime b0) tmax"
    "window_fits (windowPtr ?b)" by (simp_all add: race_inv_def Let_def U_def)
  from inv obtain K where K: "0 \<le> K" "lastRefillTime ?b = lastRefillTime b0 + K * RefillInterval ?c"
    "tokens ?b + cost ?c * U + cost ?c * int (granted s) + psum owed (pcs s)
       \<le> tokens b0 + K * RefillRate ?c"
    by (auto simp: race_inv_def Let_def U_def)
  have U': "U' = U - undecided ?q + undecided p" using i by (simp add: U_def U'_def psum_update)
  have cU: "cost ?c * U' = cost ?c * U - cost ?c * undecided ?q + cost ?c * undecided p"
    by (simp add: U' algebra_simps)
  have "undecided ?q \<le> U"
    using undecided_bounds(1) [of "(pcs s)[i := Idle]"] psum_update [OF i, of undecided Idle]
    by (simp add: U_def)
  then have "cost ?c * undecided ?q \<le> cost ?c * U"
    using cost_pos [of ?c] by (intro mult_left_mono) simp_all
  with f(5) have room: "tokens ?b + cost ?c * undecided ?q
      + (if 0 < RefillInterval ?c then max_add ?c else 0) \<le> max_i64"
    using safe(2) unfolding race_safe_def by linarith
  have so: "shared_ok ?c ?b" using f safe(1) by (simp add: shared_ok_def)
  have eff: "step_effect ?c tmax ?b ?q b p"
    by (rule thread_step_effect [OF so list_all_nthD [OF f(3) i] step room])
  from eff obtain k where k: "0 \<le> k" "lastRefillTime b = lastRefillTime ?b + k * RefillInterval ?c"
    "tokens b + cost ?c * undecided p + cost ?c * int (grants ?q p) + owed p
       \<le> tokens ?b + cost ?c * undecided ?q + owed ?q + k * RefillRate ?c"
    by (auto simp: step_effect_def)
  have bound: "tokens b + cost ?c * U' \<le> MaxTokens ?c + cost ?c * int n"
  proof -
    have "cost ?c * U' \<le> cost ?c * int n"
      using undecided_bounds(2) [of "(pcs s)[i := p]"] f(2)
        cost_pos [of ?c] by (intro mult_left_mono) (simp_all add: U'_def)
    with eff f(5) cU show ?thesis by (auto simp: step_effect_def)
  qed
  have "tokens b + cost ?c * U' + cost ?c * int (granted s + grants ?q p) + psum owed ((pcs s)[i := p])
      \<le> tokens b0 + (K + k) * RefillRate ?c"
    using K(3) k(3) cU by (simp add: psum_update [OF i] distrib_left distrib_right)
  moreover have "lastRefillTime b = lastRefillTime b0 + (K + k) * RefillInterval ?c"
    using K(2) k(2) by (simp add: distrib_right)
  ultimately show ?thesis
    using eff f bound K(1) k(1) unfolding race_inv_def Let_def step_effect_def
    by (auto simp: U'_def list_all_update intro!: exI [of _ "K + k"])
qed

lemma race_step_inv:
  assumes "race_step tmax s t" "race_inv b0 n tmax s" "cfg_safe (configPtr b0)" "race_safe (configPtr b0) n"
  shows "race_inv b0 n tmax t"
  using assms
proof (cases rule: race_step.cases)
  case (run i b p)
  then show ?thesis using assms race_inv_run by blast
next
  case block
  then show ?thesis using assms(2) by (simp add: race_inv_def bucket_Block_def Let_def)
next
  case unblock
  then show ?thesis using assms(2) by (simp add: race_inv_def bucket_Unblock_def Let_def)
qed (use assms(2) in \<open>auto intro!: race_inv_quiet\<close>)

lemma race_reach_inv:
  assumes "race_reach b0 n tmax s" "bucket_ok b0" "race_safe (configPtr b0) n"
  shows "race_inv b0 n tmax s"
  using assms
proof (induction rule: race_reach.induct)
  case init
  then show ?case by (simp add: race_inv_init)
next
  case (step s t)
  then show ?case using race_step_inv by (simp add: bucket_ok_def)
qed

section \<open>Without a sliding window the balance is capped\<close>

definition capped :: "Bucket \<Rightarrow> race \<Rightarrow> bool" where
  "capped b0 s \<longleftrightarrow> windowPtr (shared s) = None \<and> ARefund \<notin> set (pcs s)
     \<and> tokens (shared s) \<le> MaxTokens (configPtr b0)"

lemma thread_step_capped:
  assumes so: "shared_ok cfg b" and "pc_ok cfg tmax p" "thread_step b p = (b', p')" "p \<noteq> ARefund"
    and "windowPtr b = None" "tokens b \<le> MaxTokens cfg"
  shows "windowPtr b' = None \<and> p' \<noteq> ARefund \<and> tokens b' \<le> MaxTokens cfg"
proof (cases p)
  case (RLoadTime c now)
  with assms show ?thesis by (cases c) (auto simp: Let_def split: if_splits)
next
  case (RCasTok c now a cur)
  with assms shared_okD [OF so] show ?thesis by (cases c) (auto simp: Let_def split: if_splits)
next
  case (ACasTok now cur)
  have "is_i64 (cur - cost cfg)" if "tokens b = cur"
    using assms(2,6) cost_pos [of cfg] shared_okD(5) [OF so] that ACasTok
    by (simp add: cfg_safe_def is_i64_def max_i64_def)
  with assms shared_okD [OF so] ACasTok cost_pos [of cfg] show ?thesis
    by (auto simp: i64_id split: if_splits)
qed (use assms in \<open>auto simp: Let_def split: if_splits\<close>)

lemma race_reach_capped:
  assumes "race_reach b0 n tmax s" "bucket_ok b0" "race_safe (configPtr b0) n" "windowPtr b0 = None"
  shows "capped b0 s"
  using assms
proof (induction rule: race_reach.induct)
  case init
  then show ?case by (auto simp: capped_def race_init_def bucket_ok_def)
next
  case (step s t)
  then have cap: "capped b0 s" and inv: "race_inv b0 n tmax s" by (auto intro: race_reach_inv)
  from step.hyps(2) show ?case
  proof (cases rule: race_step.cases)
    case (run i b p)
    have so: "shared_ok (configPtr b0) (shared s)"
      using inv step.prems(1) by (simp add: race_inv_def shared_ok_def bucket_ok_def Let_def)
    have ok: "pc_ok (configPtr b0) tmax (pcs s ! i)"
      using inv run(2) by (auto simp: race_inv_def Let_def intro: list_all_nthD)
    have "pcs s ! i \<noteq> ARefund" using cap run(2) nth_mem by (fastforce simp: capped_def)
    with thread_step_capped [OF so ok run(3)] cap run(1) show ?thesis
      by (auto simp: capped_def dest!: set_update_subset_insert [THEN subsetD])
  qed (use cap in \<open>auto simp: capped_def bucket_Block_def bucket_Unblock_def
        dest!: set_update_subset_insert [THEN subsetD]\<close>)
qed

section \<open>Executing a schedule\<close>

text \<open>A schedule names the goroutine that moves next; executing one stays within the reachable
  states.\<close>

datatype race_event = EvAllow nat gotime | EvRefill nat gotime | EvRun nat

fun exec_event :: "gotime \<Rightarrow> race \<Rightarrow> race_event \<Rightarrow> race option" where
  "exec_event tmax s (EvAllow i now) =
     (if i < length (pcs s) \<and> pcs s ! i = Idle \<and> valid_time now \<and> now \<le> tmax
      then Some (s\<lparr>pcs := (pcs s)[i := LoadBlocked now]\<rparr>) else None)"
| "exec_event tmax s (EvRefill i now) =
     (if i < length (pcs s) \<and> pcs s ! i = Idle \<and> valid_time now \<and> now \<le> tmax
      then Some (s\<lparr>pcs := (pcs s)[i := CheckInterval now]\<rparr>) else None)"
| "exec_event tmax s (EvRun i) =
     (if i < length (pcs s)
      then let (b, p) = thread_step (shared s) (pcs s ! i)
           in Some (s\<lparr>shared := b, pcs := (pcs s)[i := p], granted := granted s + grants (pcs s ! i) p\<rparr>)
      else None)"

fun exec :: "gotime \<Rightarrow> race \<Rightarrow> race_event list \<Rightarrow> race option" where
  "exec tmax s [] = Some s"
| "exec tmax s (e # es) = (case exec_event tmax s e of None \<Rightarrow> None | Some t \<Rightarrow> exec tmax t es)"

lemma exec_event_step: "exec_event tmax s e = Some t \<Longrightarrow> race_step tmax s t"
  by (cases e) (auto intro: race_step.intros split: if_splits prod.splits)

lemma exec_reach:
  "race_reach b0 n tmax s \<Longrightarrow> exec tmax s es = Some t \<Longrightarrow> race_reach b0 n tmax t"
proof (induction es arbitrary: s)
  case (Cons e es)
  from Cons.prems(2) obtain u where u: "exec_event tmax s e = Some u" "exec tmax u es = Some t"
    by (auto split: option.splits)
  from race_reach.step [OF Cons.prems(1) exec_event_step [OF u(1)]] u(2) show ?case by (rule Cons.IH)
qed simp

section \<open>Properties of the component\<close>

text \<open>
  C8. The concurrent code and the sequential operation agree.  Ten steps of a goroutine that
  runs \<^verbatim>\<open>Allow\<close> without interference leave the bucket and return the decision and the
  retry hint of \<open>bucket_Allow\<close>, for every bucket and every time.
\<close>

theorem solo_Allow:
  "solo 10 (b, LoadBlocked now) = (case bucket_Allow b now of (b', d, r) \<Rightarrow> (b', Returned d r))"
proof (cases "blocked b")
  case True
  then have "solo 1 (b, LoadBlocked now) = (b, Returned False 0)" by simp
  from solo_Returned_le [OF this, of 10] True show ?thesis by (simp add: bucket_Allow_def)
next
  case False
  obtain b' d r where a: "bucket_Allow b now = (b', d, r)" by (cases "bucket_Allow b now") auto
  from solo_reaches_StoreAccess [OF False] obtain j where j: "j \<le> 5"
    "solo j (b, LoadBlocked now) = (ScheduledRefill b now, StoreAccess now)" by blast
  have "solo (j + 5) (b, LoadBlocked now) = (b', Returned d r)"
    using solo_decide_Allow [OF False refl a] by (simp add: solo_add j(2))
  from solo_Returned_le [OF this, of 10] j(1) a show ?thesis by simp
qed

text \<open>
  C1. The rate limit holds under concurrency.  In every reachable state of any number of
  goroutines racing on one bucket the balance is not negative, and the tokens of all accepted
  requests are at most the initial balance plus \<^verbatim>\<open>RefillRate\<close> for each whole interval
  up to the latest clock reading: no interval is credited twice and no token is spent twice.
\<close>

theorem race_rate_limit:
  assumes "race_reach b0 n tmax s" "bucket_ok b0" "race_safe (configPtr b0) n"
    and "0 < RefillInterval (configPtr b0)"
  shows "0 \<le> tokens (shared s) \<and>
    TokensPerRequest (configPtr b0) * int (granted s)
      \<le> tokens b0 + RefillRate (configPtr b0) * ticks b0 tmax"
proof -
  let ?c = "configPtr b0"
  have inv: "race_inv b0 n tmax s" by (rule race_reach_inv [OF assms(1-3)])
  then obtain K where K: "0 \<le> K" "lastRefillTime (shared s) = lastRefillTime b0 + K * RefillInterval ?c"
    "tokens (shared s) + cost ?c * psum undecided (pcs s) + cost ?c * int (granted s)
       + psum owed (pcs s) \<le> tokens b0 + K * RefillRate ?c"
    by (auto simp: race_inv_def Let_def)
  from inv have t: "0 \<le> tokens (shared s)" "lastRefillTime (shared s) \<le> max (lastRefillTime b0) tmax"
    "list_all (pc_ok ?c tmax) (pcs s)" by (simp_all add: race_inv_def Let_def)
  have "0 \<le> owed p" if "pc_ok ?c tmax p" for p using that by (cases p) simp_all
  with t(3) have "0 \<le> psum owed (pcs s)"
    by (auto simp: psum_def list_all_iff intro!: sum_list_nonneg)
  moreover have "0 \<le> cost ?c * psum undecided (pcs s)"
    using cost_pos [of ?c] undecided_bounds(1) by simp
  ultimately have 1: "cost ?c * int (granted s) \<le> tokens b0 + K * RefillRate ?c"
    using K(3) t(1) by linarith
  have "K \<le> ticks b0 tmax"
  proof (cases "K = 0")
    case False
    with K(1) assms(4) have "0 < K * RefillInterval ?c" by simp
    with K(2) t(2) have "K * RefillInterval ?c \<le> tmax - lastRefillTime b0" by linarith
    from zdiv_mono1 [OF this assms(4)] assms(4) show ?thesis by (simp add: ticks_def)
  qed simp
  then have "K * RefillRate ?c \<le> RefillRate ?c * ticks b0 tmax"
    using assms(2) unfolding mult.commute [of K]
    by (intro mult_left_mono) (simp_all add: bucket_ok_def cfg_safe_def)
  with 1 t(1) assms(2) show ?thesis by (simp add: bucket_ok_def cost_def)
qed

definition race_schedule :: "race_event list" where
  "race_schedule = [EvAllow 0 1050, EvAllow 1 1130] @ map EvRun [0, 1, 0, 1, 0, 1, 0, 1, 0, 1, 0, 1, 0, 1, 1, 1, 1, 1, 1]"

lemmas race_eval = race_init_def race_schedule_def example_bucket_def example_cfg_def bucket_New_def
  normalize_def window_of_def Let_def grants_def valid_time_def timeUnix_def timeAdd_def cost_def
  UnixNano_def timeSub_def go_div_nonneg i64_id is_i64_def

theorem race_rate_limit_witness:
  "\<exists>s. exec 1130 (race_init example_bucket 2) race_schedule = Some s \<and> granted s = 2
     \<and> 1 * int (granted s) \<le> 5 + 2 * 1"
proof -
  have "\<exists>s. exec 1130 (race_init example_bucket 2) race_schedule = Some s \<and> granted s = 2"
    by (simp add: race_eval)
  then obtain s where s: "exec 1130 (race_init example_bucket 2) race_schedule = Some s" "granted s = 2"
    by blast
  have "race_reach example_bucket 2 1130 s" by (rule exec_reach [OF race_reach.init s(1)])
  from race_rate_limit [OF this] s show ?thesis
    by (simp add: race_safe_def cost_def max_add_def max_i64_def ticks_def)
qed

text \<open>
  Without a sliding window the balance never exceeds \<^verbatim>\<open>MaxTokens\<close>, whatever the
  interleaving.
\<close>

theorem race_balance_capped:
  assumes "race_reach b0 n tmax s" "bucket_ok b0" "race_safe (configPtr b0) n" "windowPtr b0 = None"
  shows "tokens (shared s) \<le> MaxTokens (configPtr b0)"
  using race_reach_capped [OF assms] by (simp add: capped_def)

theorem race_balance_capped_witness:
  "\<exists>s. exec 1130 (race_init example_bucket 2) (take 10 race_schedule) = Some s
     \<and> pcs s = [ACasTok 1050 5, RCasTok FromAllow 1130 2 5] \<and> tokens (shared s) \<le> 5"
proof -
  have "\<exists>s. exec 1130 (race_init example_bucket 2) (take 10 race_schedule) = Some s
     \<and> pcs s = [ACasTok 1050 5, RCasTok FromAllow 1130 2 5]"
    by (simp add: race_eval numeral_2_eq_2)
  then obtain s where s: "exec 1130 (race_init example_bucket 2) (take 10 race_schedule) = Some s"
    "pcs s = [ACasTok 1050 5, RCasTok FromAllow 1130 2 5]" by blast
  have "race_reach example_bucket 2 1130 s" by (rule exec_reach [OF race_reach.init s(1)])
  from race_balance_capped [OF this] s show ?thesis
    by (simp add: race_safe_def cost_def max_add_def max_i64_def)
qed

text \<open>
  With a sliding window the cap can be broken.  One goroutine takes a token, is refused by
  the window and is about to refund it; a second one refills the bucket to its maximum; the
  refund then lifts the balance to \<^verbatim>\<open>MaxTokens + 1\<close>.  The refund of
  \<^verbatim>\<open>Allow\<close> is an unconditional \<^verbatim>\<open>Add\<close>, unlike the clamped refill.
\<close>

definition refund_schedule :: "race_event list" where
  "refund_schedule = [EvAllow 0 1050, EvRefill 1 1100] @ map EvRun [0, 0, 0, 0, 0, 0, 1, 1, 1, 1, 1, 0]"

theorem refund_race_exceeds_cap:
  "\<exists>s. race_reach windowed_bucket 2 1100 s
     \<and> MaxTokens (configPtr (shared s)) = 5 \<and> tokens (shared s) = 6"
proof -
  have "\<exists>s. exec 1100 (race_init windowed_bucket 2) refund_schedule = Some s
     \<and> MaxTokens (configPtr (shared s)) = 5 \<and> tokens (shared s) = 6"
    by (simp add: race_eval refund_schedule_def windowed_bucket_def example_window_def window_New_def
        window_Allow_def compactLocked_def)
  then show ?thesis by (blast intro: exec_reach [OF race_reach.init])
qed

end
