(* ===== verification/MultiBucket.thy ===== *)
theory MultiBucket
  imports Bucket
begin

text \<open>
  The buckets of one client, one per resource tier
  (\<^verbatim>\<open>internal/multibucket/multibucket.go\<close>).  Each bucket pointer of the code is held
  by one map only, so the map holds the buckets themselves.  The loops that block, unblock
  or look for a blocked bucket do the same whatever order \<^verbatim>\<open>range\<close> picks;
  \<open>Tiers\<close>, whose result shows the order, takes it as the parameter \<open>rng\<close>.
\<close>

section \<open>State and operations\<close>

definition DefaultTier :: string where
  "DefaultTier = ''default''"

record ClientBuckets =
  clientKey :: string
  buckets :: "(string, Bucket) gomap"

definition mb_New :: "string \<Rightarrow> ClientBuckets" where
  "mb_New key = \<lparr>clientKey = key, buckets = []\<rparr>"

definition mb_Key :: "ClientBuckets \<Rightarrow> string" where
  "mb_Key cb = clientKey cb"

definition tier_name :: "string \<Rightarrow> string" where
  "tier_name tier = (if tier = [] then DefaultTier else tier)"

definition Configure :: "ClientBuckets \<Rightarrow> string \<Rightarrow> bucket_Config \<Rightarrow> gotime \<Rightarrow> ClientBuckets" where
  "Configure cb tier cfg now = cb\<lparr>buckets := gm_set (tier_name tier) (bucket_New cfg now) (buckets cb)\<rparr>"

definition mb_Bucket :: "ClientBuckets \<Rightarrow> string \<Rightarrow> Bucket option" where
  "mb_Bucket cb tier = gm_lookup (buckets cb) (tier_name tier)"

text \<open>The name of the bucket a request for \<open>tier\<close> is charged to: the tier itself, or the
  default tier when the tier has no bucket.\<close>

definition charged_tier :: "ClientBuckets \<Rightarrow> string \<Rightarrow> string" where
  "charged_tier cb tier =
     (if gm_lookup (buckets cb) (tier_name tier) = None then DefaultTier else tier_name tier)"

definition mb_Allow :: "ClientBuckets \<Rightarrow> string \<Rightarrow> gotime \<Rightarrow> ClientBuckets \<times> bool \<times> duration" where
  "mb_Allow cb tier now =
     (let t = charged_tier cb tier in
      case gm_lookup (buckets cb) t of
        None \<Rightarrow> (cb, False, Second)
      | Some b \<Rightarrow> let (b', allowed, wait) = bucket_Allow b now
                  in (cb\<lparr>buckets := gm_set t b' (buckets cb)\<rparr>, allowed, wait))"

definition Tiers :: "string range_order \<Rightarrow> ClientBuckets \<Rightarrow> string list" where
  "Tiers rng cb = rng (gm_keys (buckets cb))"

definition BlockAll :: "ClientBuckets \<Rightarrow> ClientBuckets" where
  "BlockAll cb = cb\<lparr>buckets := gm_map bucket_Block (buckets cb)\<rparr>"

definition UnblockAll :: "ClientBuckets \<Rightarrow> ClientBuckets" where
  "UnblockAll cb = cb\<lparr>buckets := gm_map bucket_Unblock (buckets cb)\<rparr>"

definition mb_IsBlocked :: "ClientBuckets \<Rightarrow> bool" where
  "mb_IsBlocked cb = list_ex (\<lambda>(_, b). bucket_IsBlocked b) (buckets cb)"

definition mb_LastAccess :: "ClientBuckets \<Rightarrow> gotime" where
  "mb_LastAccess cb =
     fold (\<lambda>(_, b) latest. let t = bucket_LastAccess b in if After t latest then t else latest)
       (buckets cb) zeroTime"

section \<open>Invariant\<close>

definition client_ok :: "ClientBuckets \<Rightarrow> bool" where
  "client_ok cb \<longleftrightarrow> gm_ok (buckets cb) \<and> (\<forall>t b. gm_lookup (buckets cb) t = Some b \<longrightarrow> bucket_ok b)
     \<and> gm_lookup (buckets cb) DefaultTier \<noteq> None"

lemma tier_name_idem [simp]: "tier_name (tier_name t) = tier_name t" "tier_name [] = DefaultTier"
  "tier_name DefaultTier = DefaultTier"
  by (simp_all add: tier_name_def DefaultTier_def)

lemma tier_name_id: "tier \<noteq> [] \<Longrightarrow> tier_name tier = tier"
  by (simp add: tier_name_def)

lemma Configure_simps [simp]:
  "clientKey (Configure cb tier cfg now) = clientKey cb"
  "gm_lookup (buckets (Configure cb tier cfg now)) t =
     (if t = tier_name tier then Some (bucket_New cfg now) else gm_lookup (buckets cb) t)"
  by (simp_all add: Configure_def gm_lookup_set)

lemma Configure_New_ok:
  "cfg_safe cfg \<Longrightarrow> valid_time now \<Longrightarrow> client_ok (Configure (mb_New key) DefaultTier cfg now)"
  by (auto simp: client_ok_def Configure_def mb_New_def gm_lookup_set bucket_New_ok)

lemma Configure_ok:
  "client_ok cb \<Longrightarrow> cfg_safe cfg \<Longrightarrow> valid_time now \<Longrightarrow> client_ok (Configure cb tier cfg now)"
  by (auto simp: client_ok_def Configure_def gm_lookup_set bucket_New_ok)

lemma client_ok_map:
  assumes "client_ok cb" "\<And>b. bucket_ok b \<Longrightarrow> bucket_ok (f b)"
  shows "client_ok (cb\<lparr>buckets := gm_map f (buckets cb)\<rparr>)"
  using assms by (auto simp: client_ok_def gm_lookup_map)

lemma BlockAll_ok [simp]: "client_ok cb \<Longrightarrow> client_ok (BlockAll cb)" "client_ok cb \<Longrightarrow> client_ok (UnblockAll cb)"
  by (simp_all add: BlockAll_def UnblockAll_def client_ok_map)

lemma client_ok_set:
  assumes "client_ok cb" "bucket_ok b"
  shows "client_ok (cb\<lparr>buckets := gm_set t b (buckets cb)\<rparr>)"
  using assms by (auto simp: client_ok_def gm_lookup_set)

lemma client_ok_bucket: "client_ok cb \<Longrightarrow> gm_lookup (buckets cb) t = Some b \<Longrightarrow> bucket_ok b"
  by (simp add: client_ok_def)

text \<open>A client with a default tier always has a bucket to charge.\<close>

lemma charged_bucket:
  assumes "client_ok cb"
  obtains b where "gm_lookup (buckets cb) (charged_tier cb tier) = Some b" "bucket_ok b"
proof -
  have "gm_lookup (buckets cb) (charged_tier cb tier) \<noteq> None"
    using assms by (simp add: client_ok_def charged_tier_def)
  with assms that show thesis by (auto dest: client_ok_bucket)
qed

lemma mb_Allow_found:
  "gm_lookup (buckets cb) (charged_tier cb tier) = Some b \<Longrightarrow>
   mb_Allow cb tier now = (cb\<lparr>buckets := gm_set (charged_tier cb tier) (fst (bucket_Allow b now)) (buckets cb)\<rparr>,
     snd (bucket_Allow b now))"
  by (simp add: mb_Allow_def Let_def case_prod_beta)

lemma mb_Allow_ok:
  assumes "client_ok cb" "valid_time now"
  shows "client_ok (fst (mb_Allow cb tier now))"
proof -
  obtain b where "gm_lookup (buckets cb) (charged_tier cb tier) = Some b" "bucket_ok b"
    by (rule charged_bucket [OF assms(1)])
  with assms show ?thesis by (simp add: mb_Allow_found client_ok_set bucket_Allow_ok)
qed

lemma mb_Allow_simps [simp]: "clientKey (fst (mb_Allow cb tier now)) = clientKey cb"
  by (simp add: mb_Allow_def Let_def case_prod_beta split: option.split)

section \<open>Blocking\<close>

lemma mb_IsBlocked_iff:
  "gm_ok (buckets cb) \<Longrightarrow>
   mb_IsBlocked cb \<longleftrightarrow> (\<exists>t b. gm_lookup (buckets cb) t = Some b \<and> blocked b)"
  unfolding mb_IsBlocked_def list_ex_iff gm_lookup_def gm_ok_def bucket_IsBlocked_def
  by (auto simp: map_of_eq_Some_iff)

lemma BlockAll_blocks:
  assumes "client_ok cb"
  shows "mb_IsBlocked (BlockAll cb)"
proof -
  obtain b where "gm_lookup (buckets cb) DefaultTier = Some b" using assms by (auto simp: client_ok_def)
  then have "gm_lookup (buckets (BlockAll cb)) DefaultTier = Some (b\<lparr>blocked := True\<rparr>)"
    by (simp add: BlockAll_def gm_lookup_map bucket_Block_def)
  moreover have "gm_ok (buckets (BlockAll cb))" using assms by (simp add: client_ok_def BlockAll_def)
  ultimately show ?thesis using mb_IsBlocked_iff [of "BlockAll cb"] by fastforce
qed

lemma UnblockAll_unblocks: "client_ok cb \<Longrightarrow> \<not> mb_IsBlocked (UnblockAll cb)"
  by (subst mb_IsBlocked_iff) (auto simp: client_ok_def UnblockAll_def gm_lookup_map bucket_Unblock_def)

section \<open>Last access\<close>

lemma latest_fold:
  "fold (\<lambda>(_, b) latest. let t = bucket_LastAccess b in if After t latest then t else latest) m t0 =
   Max (insert t0 ((\<lambda>(_, b). bucket_LastAccess b) ` set m))"
proof (induction m arbitrary: t0)
  case (Cons p m)
  let ?A = "(\<lambda>(_, b). bucket_LastAccess b) ` set m" and ?t = "bucket_LastAccess (snd p)"
  have "Max (insert (max t0 ?t) ?A) = Max (insert t0 (insert ?t ?A))"
    by (cases "?A = {}") (simp_all add: max.assoc)
  with Cons [of "max t0 ?t"] show ?case
    by (auto simp: case_prod_beta Let_def After_def max_def)
qed simp

text \<open>The loop finds the latest access whatever order it visits the tiers in.\<close>

lemma mb_LastAccess_Max:
  "mb_LastAccess cb = Max (insert zeroTime ((\<lambda>(_, b). bucket_LastAccess b) ` set (buckets cb)))"
  by (simp only: mb_LastAccess_def latest_fold)

lemma mb_LastAccess_ge:
  assumes "gm_lookup (buckets cb) t = Some b"
  shows "bucket_LastAccess b \<le> mb_LastAccess cb"
proof -
  from assms have "(t, b) \<in> set (buckets cb)" by (simp add: gm_lookup_def map_of_SomeD)
  then show ?thesis unfolding mb_LastAccess_Max by (intro Max_ge) (auto simp: image_iff)
qed

text \<open>
  A request for any tier of a well-formed client is decided by exactly one bucket, the
  tier's own or the default tier's when the tier has none: the answer is that bucket's
  answer, every other bucket is untouched, and the client stays well-formed.
\<close>

theorem tier_isolation:
  assumes "client_ok cb" "valid_time now" "mb_Allow cb tier now = (cb', allowed, wait)"
  shows "\<exists>t b. (t = tier_name tier \<or> (t = DefaultTier \<and> mb_Bucket cb tier = None))
    \<and> gm_lookup (buckets cb) t = Some b \<and> (allowed, wait) = snd (bucket_Allow b now)
    \<and> gm_lookup (buckets cb') t = Some (fst (bucket_Allow b now))
    \<and> (\<forall>u. u \<noteq> t \<longrightarrow> gm_lookup (buckets cb') u = gm_lookup (buckets cb) u) \<and> client_ok cb'"
proof -
  obtain b where b: "gm_lookup (buckets cb) (charged_tier cb tier) = Some b" "bucket_ok b"
    by (rule charged_bucket [OF assms(1)])
  have "client_ok cb'" using mb_Allow_ok [OF assms(1,2), of tier] assms(3) by simp
  moreover have "charged_tier cb tier = tier_name tier \<or>
      (charged_tier cb tier = DefaultTier \<and> mb_Bucket cb tier = None)"
    by (simp add: charged_tier_def mb_Bucket_def)
  ultimately show ?thesis
    using mb_Allow_found [OF b(1), of now] assms(3) b(1)
    by (intro exI [of _ "charged_tier cb tier"] exI [of _ b]) (auto simp: gm_lookup_set)
qed

definition example_client :: ClientBuckets where
  "example_client = Configure (Configure (mb_New ''alice'') [] example_cfg 0) ''bulk'' example_cfg 0"

lemma example_client_ok [simp]: "client_ok example_client"
  unfolding example_client_def
  by (rule Configure_ok) (use Configure_New_ok [of example_cfg 0 "''alice''"] in
      \<open>simp_all add: Configure_def valid_time_def\<close>)

theorem tier_isolation_witness:
  "client_ok example_client \<and> client_ok (fst (mb_Allow example_client ''bulk'' 5))
   \<and> gm_lookup (buckets (fst (mb_Allow example_client ''bulk'' 5))) DefaultTier = Some (bucket_New example_cfg 0)"
proof -
  obtain cb' al w where r: "mb_Allow example_client ''bulk'' 5 = (cb', al, w)"
    by (cases "mb_Allow example_client ''bulk'' 5")
  have "mb_Bucket example_client ''bulk'' = Some (bucket_New example_cfg 0)"
    by (simp add: example_client_def mb_Bucket_def)
  with tier_isolation [OF example_client_ok _ r] have "client_ok cb'"
    "gm_lookup (buckets cb') DefaultTier = gm_lookup (buckets example_client) DefaultTier"
    by (auto simp: valid_time_def tier_name_def DefaultTier_def)
  moreover have "gm_lookup (buckets example_client) DefaultTier = Some (bucket_New example_cfg 0)"
    by (simp add: example_client_def tier_name_def DefaultTier_def)
  ultimately show ?thesis using r by simp
qed

end
