(* ===== verification/RefillHeap.thy ===== *)
theory RefillHeap
  imports GoPrelude
begin

text \<open>
  The min-heap of the refill scheduler: \<^verbatim>\<open>internal/scheduler/heap.go\<close> and the
  procedures of \<^verbatim>\<open>container/heap\<close> that run on it.

  Heap slots hold pointers to entries and an entry records its own slot, so the model has an
  explicit store from pointers to entries.  The heap order is stated on the array of due
  times the slots denote (\<open>due\<close>); while an element sifts up or down the array is a heap
  but for one index.
\<close>

section \<open>Entries, heaps and the interface of container/heap\<close>

type_synonym ptr = nat

record refillEntry =
  entryId :: string
  nextRefillTime :: gotime
  heapIndex :: int

record refillHeap =
  mem :: "ptr \<Rightarrow> refillEntry"
  slots :: "ptr list"

definition Len :: "refillHeap \<Rightarrow> nat" where
  "Len h = length (slots h)"

definition due :: "refillHeap \<Rightarrow> nat \<Rightarrow> gotime" where
  "due h i = nextRefillTime (mem h (slots h ! i))"

definition Less :: "refillHeap \<Rightarrow> nat \<Rightarrow> nat \<Rightarrow> bool" where
  "Less h i j \<longleftrightarrow> Before (due h i) (due h j)"

definition set_index :: "ptr \<Rightarrow> int \<Rightarrow> (ptr \<Rightarrow> refillEntry) \<Rightarrow> (ptr \<Rightarrow> refillEntry)" where
  "set_index p i m = m(p := (m p)\<lparr>heapIndex := i\<rparr>)"

definition Swap :: "refillHeap \<Rightarrow> nat \<Rightarrow> nat \<Rightarrow> refillHeap" where
  "Swap h i j =
     (let s = (slots h)[i := slots h ! j, j := slots h ! i]
      in \<lparr>mem = set_index (s ! j) (int j) (set_index (s ! i) (int i) (mem h)), slots = s\<rparr>)"

definition heap_push :: "refillHeap \<Rightarrow> ptr \<Rightarrow> refillHeap" where
  "heap_push h p = \<lparr>mem = set_index p (int (length (slots h))) (mem h), slots = slots h @ [p]\<rparr>"

definition heap_pop :: "refillHeap \<Rightarrow> refillHeap \<times> ptr" where
  "heap_pop h = (\<lparr>mem = set_index (last (slots h)) (-1) (mem h), slots = butlast (slots h)\<rparr>, last (slots h))"

section \<open>The procedures of container/heap\<close>

function up :: "refillHeap \<Rightarrow> nat \<Rightarrow> refillHeap" where
  "up h j = (let i = (j - 1) div 2 in
     if i = j \<or> \<not> Less h j i then h else up (Swap h i j) i)"
  by pat_completeness auto
termination
  by (relation "measure snd") auto

function down :: "refillHeap \<Rightarrow> nat \<Rightarrow> nat \<Rightarrow> refillHeap \<times> nat" where
  "down h i n = (let j1 = 2 * i + 1 in
     if j1 \<ge> n then (h, i)
     else let j = (if j1 + 1 < n \<and> Less h (j1 + 1) j1 then j1 + 1 else j1)
          in if \<not> Less h j i then (h, i) else down (Swap h i j) j n)"
  by pat_completeness auto
termination
  by (relation "measure (\<lambda>(h, i, n). n - i)") (auto simp: Let_def split: if_splits)

declare up.simps [simp del] down.simps [simp del]

definition Heap_Push :: "refillHeap \<Rightarrow> ptr \<Rightarrow> refillHeap" where
  "Heap_Push h p = (let h1 = heap_push h p in up h1 (Len h1 - 1))"

definition Heap_Pop :: "refillHeap \<Rightarrow> (refillHeap \<times> ptr) go" where
  "Heap_Pop h = (if Len h = 0 then Panic
     else let n = Len h - 1; (h1, _) = down (Swap h 0 n) 0 n in Ret (heap_pop h1))"

text \<open>\<^verbatim>\<open>if !down(h, i, n) { up(h, i) }\<close>\<close>

definition sift :: "refillHeap \<Rightarrow> nat \<Rightarrow> nat \<Rightarrow> refillHeap" where
  "sift h i n = (let (h1, i1) = down h i n in if i1 > i then h1 else up h1 i)"

text \<open>\<^verbatim>\<open>Fix\<close> at index -1, the index of an entry that is not in the heap, leaves both
  loops at once; any other index out of range is read by \<^verbatim>\<open>Less\<close> and panics.\<close>

definition Heap_Fix :: "refillHeap \<Rightarrow> int \<Rightarrow> refillHeap go" where
  "Heap_Fix h i =
     (if 0 \<le> i \<and> i < int (Len h) then Ret (sift h (nat i) (Len h))
      else if i = -1 then Ret h else Panic)"

definition Heap_Remove :: "refillHeap \<Rightarrow> int \<Rightarrow> (refillHeap \<times> ptr) go" where
  "Heap_Remove h i =
     (if 0 \<le> i \<and> i < int (Len h)
      then let n = Len h - 1;
               h1 = (if int n \<noteq> i then sift (Swap h (nat i) n) (nat i) n else h)
           in Ret (heap_pop h1)
      else Panic)"

section \<open>Heap order on arrays\<close>

definition parent :: "nat \<Rightarrow> nat" where
  "parent i = (i - 1) div 2"

definition heap_upto :: "(nat \<Rightarrow> gotime) \<Rightarrow> nat \<Rightarrow> bool" where
  "heap_upto a n \<longleftrightarrow> (\<forall>k<n. 0 < k \<longrightarrow> a (parent k) \<le> a k)"

text \<open>A heap but for index \<open>i\<close>: the element there may be too small for its parent, or too
  large for its children; its parent is still no larger than its children.\<close>

definition grand_ok :: "(nat \<Rightarrow> gotime) \<Rightarrow> nat \<Rightarrow> nat \<Rightarrow> bool" where
  "grand_ok a n i \<longleftrightarrow> (\<forall>k<n. 0 < k \<longrightarrow> parent k = i \<longrightarrow> 0 < i \<longrightarrow> a (parent i) \<le> a k)"

definition heap_but_up :: "(nat \<Rightarrow> gotime) \<Rightarrow> nat \<Rightarrow> nat \<Rightarrow> bool" where
  "heap_but_up a n i \<longleftrightarrow> (\<forall>k<n. 0 < k \<longrightarrow> k \<noteq> i \<longrightarrow> a (parent k) \<le> a k) \<and> grand_ok a n i"

definition heap_but_down :: "(nat \<Rightarrow> gotime) \<Rightarrow> nat \<Rightarrow> nat \<Rightarrow> bool" where
  "heap_but_down a n i \<longleftrightarrow> (\<forall>k<n. 0 < k \<longrightarrow> parent k \<noteq> i \<longrightarrow> a (parent k) \<le> a k) \<and> grand_ok a n i"

definition heap_but :: "(nat \<Rightarrow> gotime) \<Rightarrow> nat \<Rightarrow> nat \<Rightarrow> bool" where
  "heap_but a n i \<longleftrightarrow>
     (\<forall>k<n. 0 < k \<longrightarrow> k \<noteq> i \<longrightarrow> parent k \<noteq> i \<longrightarrow> a (parent k) \<le> a k) \<and> grand_ok a n i"

definition swapped :: "(nat \<Rightarrow> gotime) \<Rightarrow> nat \<Rightarrow> nat \<Rightarrow> nat \<Rightarrow> gotime" where
  "swapped a i j = a(i := a j, j := a i)"

lemma parent_less: "0 < k \<Longrightarrow> parent k < k"
  by (auto simp: parent_def)

lemma parent_children: "parent k = i \<and> 0 < k \<longleftrightarrow> k = 2 * i + 1 \<or> k = 2 * i + 2"
  by (auto simp: parent_def)

lemma heap_but_up_exit:
  "heap_but_up a n j \<Longrightarrow> j = 0 \<or> a (parent j) \<le> a j \<Longrightarrow> heap_upto a n"
  by (auto simp: heap_but_up_def heap_upto_def)

lemma heap_but_up_step:
  assumes "heap_but_up a n j" "j < n" "0 < j" "a j < a (parent j)"
  shows "heap_but_up (swapped a (parent j) j) n (parent j)"
proof -
  let ?p = "parent j" and ?b = "swapped a (parent j) j"
  have pj: "?p < j" using assms(3) by (rule parent_less)
  have ord: "a (parent k) \<le> a k" if "k < n" "0 < k" "k \<noteq> j" for k
    using assms(1) that by (simp add: heap_but_up_def)
  have gr: "a ?p \<le> a k" if "k < n" "0 < k" "parent k = j" for k
    using assms(1,3) that by (auto simp: heap_but_up_def grand_ok_def)
  have "?b (parent k) \<le> ?b k" if k: "k < n" "0 < k" "k \<noteq> ?p" for k
  proof (cases "k = j")
    case True
    with pj assms(4) show ?thesis by (simp add: swapped_def)
  next
    case False
    have o: "a (parent k) \<le> a k" using ord [OF k(1,2) False] .
    show ?thesis
    proof (cases "parent k = j")
      case True
      with False pj k gr show ?thesis by (simp add: swapped_def)
    next
      case False
      with \<open>k \<noteq> j\<close> k(3) o assms(4) show ?thesis by (auto simp: swapped_def)
    qed
  qed
  moreover have "?b (parent ?p) \<le> ?b k" if k: "k < n" "0 < k" "parent k = ?p" "0 < ?p" for k
  proof -
    have pp: "parent ?p < ?p" using k(4) by (rule parent_less)
    have "a (parent ?p) \<le> a ?p" using ord [of ?p] k(4) pj assms(2) by simp
    moreover have "a ?p \<le> a k" if "k \<noteq> j" using ord [OF k(1,2) that] k(3) by simp
    ultimately show ?thesis using pp pj k(3) by (auto simp: swapped_def)
  qed
  ultimately show ?thesis by (auto simp: heap_but_up_def grand_ok_def)
qed

lemma heap_but_down_exit:
  assumes "heap_but_down a n i" "\<And>k. k < n \<Longrightarrow> 0 < k \<Longrightarrow> parent k = i \<Longrightarrow> a i \<le> a k"
  shows "heap_upto a n"
  using assms by (auto simp: heap_but_down_def heap_upto_def)

lemma heap_but_down_step:
  assumes "heap_but_down a n i" "j < n" "0 < j" "parent j = i" "a j < a i"
    and least: "\<And>k. k < n \<Longrightarrow> 0 < k \<Longrightarrow> parent k = i \<Longrightarrow> a j \<le> a k"
  shows "heap_but_down (swapped a i j) n j"
proof -
  let ?b = "swapped a i j"
  have ij: "i < j" using parent_less [OF assms(3)] assms(4) by simp
  have ord: "a (parent k) \<le> a k" if "k < n" "0 < k" "parent k \<noteq> i" for k
    using assms(1) that by (simp add: heap_but_down_def)
  have gr: "a (parent i) \<le> a k" if "k < n" "0 < k" "parent k = i" "0 < i" for k
    using assms(1) that by (auto simp: heap_but_down_def grand_ok_def)
  have "?b (parent k) \<le> ?b k" if k: "k < n" "0 < k" "parent k \<noteq> j" for k
  proof (cases "parent k = i")
    case True
    then have "k \<noteq> i" using parent_less [OF k(2)] by auto
    with True k assms(5) least [of k] ij show ?thesis by (auto simp: swapped_def)
  next
    case False
    then have "k \<noteq> j" using assms(4) by auto
    with ord [OF k(1,2) False] False k gr [of j] assms(2,3,4) show ?thesis
      by (auto simp: swapped_def)
  qed
  moreover have "?b (parent j) \<le> ?b k" if k: "k < n" "0 < k" "parent k = j" for k
  proof -
    have "k \<noteq> i" "k \<noteq> j" using parent_less [OF k(2)] k(3) ij by auto
    with ord [of k] k ij assms(4) show ?thesis by (auto simp: swapped_def)
  qed
  ultimately show ?thesis by (auto simp: heap_but_down_def grand_ok_def)
qed

lemma heap_but_cases:
  assumes "heap_but a n i"
  obtains (too_small) "0 < i" "heap_but_up a n i"
    "\<forall>k<n. 0 < k \<longrightarrow> parent k = i \<longrightarrow> a i \<le> a k"
  | (other) "heap_but_down a n i"
proof (cases "0 < i \<and> a i < a (parent i)")
  case True
  have kids: "\<forall>k<n. 0 < k \<longrightarrow> parent k = i \<longrightarrow> a i \<le> a k"
  proof (intro allI impI)
    fix k assume "k < n" "0 < k" "parent k = i"
    then have "a (parent i) \<le> a k" using assms True by (simp add: heap_but_def grand_ok_def)
    with True show "a i \<le> a k" by simp
  qed
  then have "heap_but_up a n i" using assms unfolding heap_but_def heap_but_up_def by metis
  with True kids show thesis by (intro too_small) simp_all
next
  case False
  have "a (parent k) \<le> a k" if "k < n" "0 < k" "parent k \<noteq> i" for k
    using assms that False by (cases "k = i") (auto simp: heap_but_def)
  then have "heap_but_down a n i" using assms by (simp add: heap_but_def heap_but_down_def)
  then show thesis by (rule other)
qed

lemma heap_upto_root: "heap_upto a n \<Longrightarrow> k < n \<Longrightarrow> a 0 \<le> a k"
proof (induction k rule: less_induct)
  case (less k)
  show ?case
  proof (cases "k = 0")
    case False
    then have "parent k < k" by (simp add: parent_less)
    with less have "a 0 \<le> a (parent k)" by simp
    also have "\<dots> \<le> a k" using less.prems False by (simp add: heap_upto_def)
    finally show ?thesis .
  qed simp
qed

lemma heap_upto_mono: "heap_upto a n \<Longrightarrow> m \<le> n \<Longrightarrow> heap_upto a m"
  by (simp add: heap_upto_def)

lemma heap_upto_cong:
  assumes "heap_upto a n" "\<And>k. k < n \<Longrightarrow> b k = a k"
  shows "heap_upto b n"
  unfolding heap_upto_def
proof (intro allI impI)
  fix k assume k: "k < n" "0 < k"
  then have "parent k < n" using parent_less [of k] by simp
  with k assms show "b (parent k) \<le> b k" by (simp add: heap_upto_def)
qed

section \<open>What swapping keeps\<close>

text \<open>The slots point to distinct entries and every entry knows its slot.\<close>

definition indexed :: "refillHeap \<Rightarrow> bool" where
  "indexed h \<longleftrightarrow> distinct (slots h) \<and> (\<forall>i<length (slots h). heapIndex (mem h (slots h ! i)) = int i)"

text \<open>The same entries, with the same ids and due times, in other slots.\<close>

definition reordered :: "refillHeap \<Rightarrow> refillHeap \<Rightarrow> bool" where
  "reordered h h' \<longleftrightarrow> mset (slots h') = mset (slots h)
     \<and> (\<forall>p. entryId (mem h' p) = entryId (mem h p))
     \<and> (\<forall>p. nextRefillTime (mem h' p) = nextRefillTime (mem h p))
     \<and> (indexed h \<longrightarrow> indexed h')"

lemma reordered_refl [simp]: "reordered h h"
  by (simp add: reordered_def)

lemma reordered_trans: "reordered h h' \<Longrightarrow> reordered h' h'' \<Longrightarrow> reordered h h''"
  by (simp add: reordered_def)

lemma reordered_length: "reordered h h' \<Longrightarrow> length (slots h') = length (slots h)"
  unfolding reordered_def by (metis size_mset)

lemma reordered_set: "reordered h h' \<Longrightarrow> set (slots h') = set (slots h)"
  unfolding reordered_def by (metis set_mset_mset)

lemma set_index_simps [simp]:
  "entryId (set_index p i m q) = entryId (m q)"
  "nextRefillTime (set_index p i m q) = nextRefillTime (m q)"
  "heapIndex (set_index p i m q) = (if q = p then i else heapIndex (m q))"
  by (simp_all add: set_index_def)

lemma slots_Swap: "slots (Swap h i j) = (slots h)[i := slots h ! j, j := slots h ! i]"
  by (simp add: Swap_def Let_def)

lemma due_Swap:
  "i < length (slots h) \<Longrightarrow> j < length (slots h) \<Longrightarrow> due (Swap h i j) = swapped (due h) i j"
  by (rule ext) (simp add: due_def swapped_def Swap_def Let_def nth_list_update)

lemma indexed_Swap:
  assumes "indexed h" "i < length (slots h)" "j < length (slots h)"
  shows "indexed (Swap h i j)"
proof -
  let ?s = "slots (Swap h i j)"
  have d: "distinct ?s" using assms by (simp add: indexed_def slots_Swap distinct_swap)
  have "heapIndex (mem (Swap h i j) (?s ! k)) = int k" if k: "k < length ?s" for k
  proof -
    have len: "length ?s = length (slots h)" by (simp add: slots_Swap)
    have eq: "?s ! k = ?s ! m \<longleftrightarrow> k = m" if "m < length ?s" for m
      using d k that by (simp add: nth_eq_iff_index_eq)
    have m: "mem (Swap h i j) = set_index (?s ! j) (int j) (set_index (?s ! i) (int i) (mem h))"
      by (simp add: Swap_def Let_def)
    show ?thesis
      using assms k len eq [of i] eq [of j] by (auto simp: m indexed_def slots_Swap)
  qed
  with d show ?thesis by (simp add: indexed_def)
qed

lemma reordered_Swap:
  assumes "i < length (slots h)" "j < length (slots h)"
  shows "reordered h (Swap h i j)"
  using assms indexed_Swap [OF _ assms]
  by (auto simp: reordered_def Swap_def Let_def mset_swap)

section \<open>Sifting\<close>

definition min_child :: "refillHeap \<Rightarrow> nat \<Rightarrow> nat \<Rightarrow> nat" where
  "min_child h i n = (if 2 * i + 1 + 1 < n \<and> Less h (2 * i + 1 + 1) (2 * i + 1) then 2 * i + 1 + 1 else 2 * i + 1)"

lemma down_unfold:
  "down h i n = (if n \<le> 2 * i + 1 \<or> \<not> Less h (min_child h i n) i then (h, i)
                 else down (Swap h i (min_child h i n)) (min_child h i n) n)"
  by (subst down.simps) (simp only: Let_def min_child_def, simp)

lemma min_child:
  assumes "2 * i + 1 < n"
  shows "min_child h i n < n" "0 < min_child h i n" "parent (min_child h i n) = i" "i < min_child h i n"
    and "\<And>k. k < n \<Longrightarrow> 0 < k \<Longrightarrow> parent k = i \<Longrightarrow> due h (min_child h i n) \<le> due h k"
proof -
  show "min_child h i n < n" "0 < min_child h i n" "parent (min_child h i n) = i" "i < min_child h i n"
    using assms by (auto simp: parent_def min_child_def)
  show "due h (min_child h i n) \<le> due h k" if "k < n" "0 < k" "parent k = i" for k
  proof -
    have "k = 2 * i + 1 \<or> k = 2 * i + 2" using that parent_children by blast
    then show ?thesis using that(1) by (auto simp: min_child_def Less_def Before_def)
  qed
qed

lemma down_exit_order:
  assumes "heap_but_down (due h) n i" "n \<le> 2 * i + 1 \<or> \<not> Less h (min_child h i n) i"
  shows "heap_upto (due h) n"
proof (rule heap_but_down_exit [OF assms(1)])
  fix k assume k: "k < n" "0 < k" "parent k = i"
  then have "2 * i + 1 < n" using parent_children [of k i] by auto
  from min_child(5) [where h = h, OF this k] assms(2) this show "due h i \<le> due h k"
    by (auto simp: Less_def Before_def)
qed

lemma down_correct:
  assumes "n \<le> length (slots h)" "heap_but_down (due h) n i"
  shows "reordered h (fst (down h i n)) \<and> heap_upto (due (fst (down h i n))) n"
  using assms
proof (induction h i n rule: down.induct)
  case (1 h i n)
  let ?j = "min_child h i n"
  show ?case
  proof (cases "n \<le> 2 * i + 1 \<or> \<not> Less h ?j i")
    case True
    with down_exit_order [OF "1.prems"(2) True] show ?thesis by (simp add: down_unfold [of h i n])
  next
    case False
    then have n: "2 * i + 1 < n" and lt: "due h ?j < due h i" by (auto simp: Less_def Before_def)
    note j = min_child [where h = h, OF n]
    have bounds: "i < length (slots h)" "?j < length (slots h)" using j(1,4) "1.prems"(1) by linarith+
    have sw: "reordered h (Swap h i ?j)" using bounds by (rule reordered_Swap)
    have "heap_but_down (due (Swap h i ?j)) n ?j"
      unfolding due_Swap [OF bounds]
      by (rule heap_but_down_step [OF "1.prems"(2) j(1-3) lt j(5)])
    then have "reordered (Swap h i ?j) (fst (down (Swap h i ?j) ?j n))
        \<and> heap_upto (due (fst (down (Swap h i ?j) ?j n))) n"
      using "1.IH" [OF refl _ min_child_def] False reordered_length [OF sw] "1.prems"(1) by simp
    moreover have "down h i n = down (Swap h i ?j) ?j n"
      using False by (simp add: down_unfold [of h i n])
    ultimately show ?thesis using sw by (auto intro: reordered_trans)
  qed
qed

lemma down_stays: "\<not> Less h (min_child h i n) i \<Longrightarrow> down h i n = (h, i)"
  by (simp add: down_unfold)

lemma down_index_ge: "i \<le> snd (down h i n)"
proof (induction h i n rule: down.induct)
  case (1 h i n)
  show ?case
  proof (cases "n \<le> 2 * i + 1 \<or> \<not> Less h (min_child h i n) i")
    case False
    then have "i < min_child h i n" by (intro min_child(4)) auto
    with "1.IH" [OF refl _ min_child_def] False show ?thesis
      by (auto simp: down_unfold [of h i n])
  qed (simp add: down_unfold [of h i n])
qed

text \<open>If the element does not move down, the heap is untouched.\<close>

lemma down_not_moved: "snd (down h i n) = i \<Longrightarrow> fst (down h i n) = h"
proof (cases "n \<le> 2 * i + 1 \<or> \<not> Less h (min_child h i n) i")
  case False
  then have "i < min_child h i n" by (intro min_child(4)) auto
  also have "\<dots> \<le> snd (down (Swap h i (min_child h i n)) (min_child h i n) n)" by (rule down_index_ge)
  finally show "snd (down h i n) = i \<Longrightarrow> fst (down h i n) = h" using False by (simp add: down_unfold [of h i n])
qed (simp add: down_unfold [of h i n])

lemma up_upto:
  assumes "j < n" "n \<le> length (slots h)" "heap_but_up (due h) n j"
  shows "reordered h (up h j) \<and> heap_upto (due (up h j)) n \<and> drop n (slots (up h j)) = drop n (slots h)"
  using assms
proof (induction h j rule: up.induct)
  case (1 h j)
  let ?i = "(j - 1) div 2"
  show ?case
  proof (cases "?i = j \<or> \<not> Less h j ?i")
    case True
    then have "up h j = h" by (simp add: up.simps [of h j] Let_def)
    moreover have "j = 0 \<or> due h (parent j) \<le> due h j"
      using True by (auto simp: Less_def Before_def parent_def)
    ultimately show ?thesis using heap_but_up_exit [OF "1.prems"(3)] by simp
  next
    case False
    then have j: "0 < j" "due h j < due h (parent j)" and i: "parent j = ?i" "?i < n"
      using "1.prems"(1) by (auto simp: Less_def Before_def parent_def)
    have b: "?i < length (slots h)" "j < length (slots h)" using i "1.prems"(1,2) by linarith+
    have sw: "reordered h (Swap h ?i j)" using b by (rule reordered_Swap)
    have "heap_but_up (due (Swap h ?i j)) n ?i"
      using heap_but_up_step [OF "1.prems"(3,1) j] unfolding i(1) by (simp only: due_Swap [OF b])
    then have "reordered (Swap h ?i j) (up (Swap h ?i j) ?i)
        \<and> heap_upto (due (up (Swap h ?i j) ?i)) n
        \<and> drop n (slots (up (Swap h ?i j) ?i)) = drop n (slots (Swap h ?i j))"
      using "1.IH" [OF refl False] i(2) reordered_length [OF sw] "1.prems"(2) by simp
    with False sw i(2) "1.prems"(1) show ?thesis
      by (auto simp: up.simps [of h j] Let_def slots_Swap intro: reordered_trans)
  qed
qed

lemma down_drop: "n \<le> length (slots h) \<Longrightarrow> drop n (slots (fst (down h i n))) = drop n (slots h)"
proof (induction h i n rule: down.induct)
  case (1 h i n)
  show ?case
  proof (cases "n \<le> 2 * i + 1 \<or> \<not> Less h (min_child h i n) i")
    case False
    then have j: "min_child h i n < n" "i < min_child h i n" by (auto intro!: min_child(1,4))
    with "1.IH" [OF refl _ min_child_def] False "1.prems" show ?thesis
      by (simp add: down_unfold [of h i n] slots_Swap)
  qed (simp add: down_unfold [of h i n])
qed

lemma sift_correct:
  assumes "i < n" "n \<le> length (slots h)" "heap_but (due h) n i"
  shows "reordered h (sift h i n) \<and> heap_upto (due (sift h i n)) n
    \<and> drop n (slots (sift h i n)) = drop n (slots h)"
  using assms(3)
proof (cases rule: heap_but_cases)
  case too_small
  have "\<not> (2 * i + 1 < n \<and> Less h (min_child h i n) i)"
    using too_small(3) min_child [where h = h and i = i and n = n] by (auto simp: Less_def Before_def)
  then have "down h i n = (h, i)" by (auto simp: down_unfold [of h i n])
  with up_upto [OF assms(1,2) too_small(2)] show ?thesis by (simp add: sift_def)
next
  case other
  note d = down_correct [OF assms(2) other] down_drop [OF assms(2), where i = i]
  show ?thesis
  proof (cases "snd (down h i n) > i")
    case True
    with d show ?thesis by (simp add: sift_def case_prod_beta)
  next
    case False
    then have "snd (down h i n) = i" using down_index_ge [where h = h and i = i and n = n] by simp
    then have h: "fst (down h i n) = h" by (rule down_not_moved)
    with d(1) have "heap_upto (due h) n" by simp
    then have "heap_but_up (due h) n i"
      using parent_less [of i] assms(1)
      by (auto simp: heap_upto_def heap_but_up_def grand_ok_def intro: order_trans)
    with up_upto [OF assms(1,2)] False h show ?thesis by (simp add: sift_def case_prod_beta)
  qed
qed

section \<open>The heap operations\<close>

definition heap_ok :: "refillHeap \<Rightarrow> bool" where
  "heap_ok h \<longleftrightarrow> indexed h \<and> heap_upto (due h) (length (slots h))"

text \<open>No operation changes the id or the due time of an entry.\<close>

definition same_entries :: "refillHeap \<Rightarrow> refillHeap \<Rightarrow> bool" where
  "same_entries h h' \<longleftrightarrow> (\<forall>p. entryId (mem h' p) = entryId (mem h p))
     \<and> (\<forall>p. nextRefillTime (mem h' p) = nextRefillTime (mem h p))"

lemma same_entriesD:
  "same_entries h h' \<Longrightarrow> entryId (mem h' p) = entryId (mem h p)"
  "same_entries h h' \<Longrightarrow> nextRefillTime (mem h' p) = nextRefillTime (mem h p)"
  by (simp_all add: same_entries_def)

lemma same_entries_trans: "same_entries h h' \<Longrightarrow> same_entries h' h'' \<Longrightarrow> same_entries h h''"
  by (simp add: same_entries_def)

lemma reordered_same: "reordered h h' \<Longrightarrow> same_entries h h'"
  by (simp add: reordered_def same_entries_def)

lemma reordered_indexed: "reordered h h' \<Longrightarrow> indexed h \<Longrightarrow> indexed h'"
  by (simp add: reordered_def)

lemma Heap_Push_correct:
  assumes "heap_ok h" "p \<notin> set (slots h)"
  shows "heap_ok (Heap_Push h p)" "mset (slots (Heap_Push h p)) = add_mset p (mset (slots h))"
    "same_entries h (Heap_Push h p)"
proof -
  let ?h = "heap_push h p" and ?n = "length (slots h)"
  have len: "length (slots ?h) = Suc ?n" "?n < length (slots ?h)" by (simp_all add: heap_push_def)
  have ix: "indexed ?h" using assms
    by (auto simp: heap_ok_def indexed_def heap_push_def nth_append less_Suc_eq)
  have due: "due ?h k = due h k" if "k < ?n" for k
    using that by (simp add: due_def heap_push_def nth_append)
  have "heap_but_up (due ?h) (Suc ?n) ?n"
    unfolding heap_but_up_def grand_ok_def
  proof (intro conjI allI impI)
    fix k assume k: "k < Suc ?n" "0 < k" "k \<noteq> ?n"
    then have "parent k < ?n" using parent_less [of k] by simp
    with k assms(1) show "due ?h (parent k) \<le> due ?h k" by (simp add: due heap_ok_def heap_upto_def)
  next
    fix k assume "k < Suc ?n" "0 < k" "parent k = ?n"
    then show "due ?h (parent ?n) \<le> due ?h k" using parent_less [of k] by simp
  qed
  then have u: "reordered ?h (up ?h ?n)" "heap_upto (due (up ?h ?n)) (Suc ?n)"
    using up_upto [OF len(2)] len(1) by simp_all
  have P: "Heap_Push h p = up ?h ?n" by (simp add: Heap_Push_def Len_def len(1))
  show "heap_ok (Heap_Push h p)"
    using u reordered_indexed [OF u(1) ix] reordered_length [OF u(1)] len(1) by (simp add: P heap_ok_def)
  show "mset (slots (Heap_Push h p)) = add_mset p (mset (slots h))"
    using u(1) by (simp add: P reordered_def heap_push_def)
  show "same_entries h (Heap_Push h p)"
    using u(1) by (simp add: P reordered_def same_entries_def heap_push_def)
qed

text \<open>Dropping the last slot.\<close>

lemma heap_pop_correct:
  assumes "indexed h" "slots h = xs @ [p]" "heap_upto (due h) (length xs)"
  shows "heap_pop h = (\<lparr>mem = set_index p (-1) (mem h), slots = xs\<rparr>, p)"
    "heap_ok (fst (heap_pop h))" "same_entries h (fst (heap_pop h))"
proof -
  let ?h = "\<lparr>mem = set_index p (-1) (mem h), slots = xs\<rparr>"
  show pop: "heap_pop h = (?h, p)" using assms(2) by (simp add: heap_pop_def)
  have "p \<noteq> xs ! i" if "i < length xs" for i
    using assms(1,2) that nth_mem [OF that] by (auto simp: indexed_def)
  moreover have "heapIndex (mem h (xs ! i)) = int i" if "i < length xs" for i
    using assms(1,2) that unfolding indexed_def by (metis length_append_singleton less_SucI nth_append)
  ultimately have "indexed ?h" using assms(1,2) by (force simp: indexed_def)
  moreover have "heap_upto (due ?h) (length xs)"
    using assms(3) by (rule heap_upto_cong) (simp add: due_def assms(2) nth_append)
  ultimately show "heap_ok (fst (heap_pop h))" by (simp add: pop heap_ok_def)
  show "same_entries h (fst (heap_pop h))" by (simp add: pop same_entries_def)
qed

text \<open>Popping after the first \<open>n\<close> slots have been put in order.\<close>

lemma ordered_then_pop:
  assumes r: "reordered h h1" "heap_upto (due h1) n" "drop n (slots h1) = drop n (slots h)"
    and h: "indexed h" "length (slots h) = Suc n" "slots h ! n = p"
  obtains h' where "heap_pop h1 = (h', p)" "heap_ok h'" "mset (slots h') = mset (slots h) - {#p#}"
    "same_entries h h'"
proof -
  have ix: "indexed h1" using r(1) h(1) by (rule reordered_indexed)
  have "drop n (slots h1) = [p]"
    using r(3) h(2,3) by (metis Cons_nth_drop_Suc drop_all lessI order_refl)
  then have sl: "slots h1 = take n (slots h1) @ [p]" by (metis append_take_drop_id)
  have len: "length (take n (slots h1)) = n" using reordered_length [OF r(1)] h(2) by simp
  note pop = heap_pop_correct [OF ix sl]
  have "mset (slots (fst (heap_pop h1))) = mset (slots h) - {#p#}"
  proof -
    have "mset (slots h) = mset (take n (slots h1) @ [p])"
      using r(1) sl unfolding reordered_def by metis
    then show ?thesis using pop(1) r(2) len by simp
  qed
  moreover have "snd (heap_pop h1) = p" using pop(1) r(2) len by simp
  moreover have "same_entries h (fst (heap_pop h1))"
    using pop(3) r(2) len reordered_same [OF r(1)] by (auto intro: same_entries_trans)
  ultimately show thesis
    using that [of "fst (heap_pop h1)"] pop(2) r(2) len by (metis prod.collapse)
qed

lemma Heap_Pop_correct:
  assumes "heap_ok h" "slots h \<noteq> []"
  obtains h' where "Heap_Pop h = Ret (h', slots h ! 0)" "heap_ok h'"
    "mset (slots h') = mset (slots h) - {#slots h ! 0#}" "same_entries h h'"
    "\<forall>q\<in>set (slots h). due h 0 \<le> nextRefillTime (mem h q)"
proof -
  define n where "n = length (slots h) - 1"
  have n: "length (slots h) = Suc n" using assms(2) by (cases "slots h") (simp_all add: n_def)
  let ?s = "Swap h 0 n"
  have b: "0 < length (slots h)" "n < length (slots h)" using n by simp_all
  have sw: "reordered h ?s" by (rule reordered_Swap [OF b])
  have "heap_but_down (due ?s) n 0"
    unfolding heap_but_down_def grand_ok_def
  proof (intro conjI allI impI)
    fix k assume k: "k < n" "0 < k" "parent k \<noteq> 0"
    have "parent k < n" using parent_less [OF k(2)] k(1) by simp
    with k assms(1) n show "due ?s (parent k) \<le> due ?s k"
      by (simp add: due_Swap [OF b] swapped_def heap_ok_def heap_upto_def)
  qed simp
  with n have d: "reordered ?s (fst (down ?s 0 n))" "heap_upto (due (fst (down ?s 0 n))) n"
    "drop n (slots (fst (down ?s 0 n))) = drop n (slots ?s)"
    using down_correct [of n ?s 0] down_drop [of n ?s 0] by (simp_all add: slots_Swap)
  have s: "indexed ?s" "length (slots ?s) = Suc n" "slots ?s ! n = slots h ! 0"
    using assms(1) b n reordered_indexed [OF sw]
    by (auto simp: heap_ok_def slots_Swap nth_list_update)
  obtain h' where h': "heap_pop (fst (down ?s 0 n)) = (h', slots h ! 0)" "heap_ok h'"
    "mset (slots h') = mset (slots ?s) - {#slots h ! 0#}" "same_entries ?s h'"
    by (rule ordered_then_pop [OF d s])
  have "Heap_Pop h = Ret (h', slots h ! 0)"
    using h'(1) n assms(2) by (simp add: Heap_Pop_def Len_def case_prod_beta Let_def)
  moreover have "mset (slots h') = mset (slots h) - {#slots h ! 0#}"
    using h'(3) sw by (simp add: reordered_def)
  moreover have "same_entries h h'" using reordered_same [OF sw] h'(4) by (rule same_entries_trans)
  moreover have "\<forall>q\<in>set (slots h). due h 0 \<le> nextRefillTime (mem h q)"
    using assms(1) heap_upto_root [of "due h" "length (slots h)"]
    by (auto simp: heap_ok_def due_def in_set_conv_nth)
  ultimately show thesis using that h'(2) by blast
qed

text \<open>Changing the due time of one entry leaves a heap but for its slot.\<close>

lemma heap_but_changed:
  assumes "heap_upto a n" "\<And>k. k < n \<Longrightarrow> k \<noteq> i \<Longrightarrow> b k = a k"
  shows "heap_but b n i"
  unfolding heap_but_def grand_ok_def
proof (intro conjI allI impI)
  fix k assume "k < n" "0 < k" "k \<noteq> i" "parent k \<noteq> i"
  with assms parent_less [of k] show "b (parent k) \<le> b k" by (simp add: heap_upto_def)
next
  fix k assume k: "k < n" "0 < k" "parent k = i" "0 < i"
  have i: "parent i \<noteq> i" "k \<noteq> i" "i < n" "parent i < n"
    using parent_less [of i] parent_less [of k] k by auto
  moreover have "a (parent i) \<le> a i" "a i \<le> a k" using assms(1) k i(3) by (auto simp: heap_upto_def)
  ultimately show "b (parent i) \<le> b k" using assms(2) k(1) by simp
qed

lemma Heap_Fix_correct:
  assumes "indexed h" "i < length (slots h)" "heap_but (due h) (length (slots h)) i"
  obtains h' where "Heap_Fix h (int i) = Ret h'" "heap_ok h'" "reordered h h'"
proof -
  note s = sift_correct [OF assms(2) order_refl assms(3)]
  have "heap_ok (sift h i (length (slots h)))"
    using s reordered_indexed [OF _ assms(1)] reordered_length by (auto simp: heap_ok_def)
  with s assms(2) that show thesis by (simp add: Heap_Fix_def Len_def)
qed

lemma Heap_Remove_correct:
  assumes "heap_ok h" "i < length (slots h)"
  obtains h' where "Heap_Remove h (int i) = Ret (h', slots h ! i)" "heap_ok h'"
    "mset (slots h') = mset (slots h) - {#slots h ! i#}" "same_entries h h'"
proof -
  define n where "n = length (slots h) - 1"
  have n: "length (slots h) = Suc n" using assms(2) by (cases "slots h") (simp_all add: n_def)
  have ix: "indexed h" and hp: "heap_upto (due h) (Suc n)" using assms(1) n by (simp_all add: heap_ok_def)
  show thesis
  proof (cases "i = n")
    case True
    obtain h' where "heap_pop h = (h', slots h ! i)" "heap_ok h'"
      "mset (slots h') = mset (slots h) - {#slots h ! i#}" "same_entries h h'"
      using ordered_then_pop [OF reordered_refl heap_upto_mono [OF hp] refl ix n] True by auto
    moreover have "Heap_Remove h (int i) = Ret (heap_pop h)"
      using True n by (simp add: Heap_Remove_def Len_def)
    ultimately show thesis using that by simp
  next
    case False
    let ?s = "Swap h i n"
    have b: "i < length (slots h)" "n < length (slots h)" "i < n" using assms(2) n False by auto
    have sw: "reordered h ?s" by (rule reordered_Swap [OF b(1,2)])
    have "heap_but (due ?s) n i"
      by (rule heap_but_changed [OF heap_upto_mono [OF hp]])
        (simp_all add: due_Swap [OF b(1,2)] swapped_def)
    note t = sift_correct [OF b(3) _ this]
    have s: "n \<le> length (slots ?s)" "indexed ?s" "length (slots ?s) = Suc n" "slots ?s ! n = slots h ! i"
      using b n reordered_indexed [OF sw ix] by (auto simp: slots_Swap nth_list_update)
    obtain h' where h': "heap_pop (sift ?s i n) = (h', slots h ! i)" "heap_ok h'"
      "mset (slots h') = mset (slots ?s) - {#slots h ! i#}" "same_entries ?s h'"
      using t s by (auto elim: ordered_then_pop)
    have "Heap_Remove h (int i) = Ret (h', slots h ! i)"
      using h'(1) n False b(1) by (simp add: Heap_Remove_def Len_def Let_def)
    moreover have "mset (slots h') = mset (slots h) - {#slots h ! i#}"
      using h'(3) sw by (simp add: reordered_def)
    moreover have "same_entries h h'" using reordered_same [OF sw] h'(4) by (rule same_entries_trans)
    ultimately show thesis using that h'(2) by blast
  qed
qed

end
