(* ===== verification/Scheduler.thy ===== *)
theory Scheduler
  imports RefillHeap
begin

text \<open>
  The event-driven refill scheduler (\<^verbatim>\<open>internal/scheduler/scheduler.go\<close>): a min-heap of
  entries, an index from ids to entries, a one-slot wake-up channel and the loop
  \<^verbatim>\<open>Run\<close> that sleeps until the earliest entry is due.

  The pair of heap and index is a table from ids to due times (\<open>pending\<close>); the contract
  \<open>schedule_table\<close> is what the store relies on.  The field \<open>dead\<close> records a panic inside
  the scheduler (an index out of range); it is shown never to be set.
\<close>

section \<open>State and operations\<close>

record Scheduler =
  h :: refillHeap
  entries :: "(string, ptr) gomap"
  wakeup :: bool
  refillsTotal :: int64
  nextPtr :: ptr
  dead :: bool

definition sched_New :: Scheduler where
  "sched_New = \<lparr>h = \<lparr>mem = (\<lambda>_. \<lparr>entryId = [], nextRefillTime = zeroTime, heapIndex = 0\<rparr>), slots = []\<rparr>,
     entries = [], wakeup = False, refillsTotal = 0, nextPtr = 0, dead = False\<rparr>"

text \<open>A send on the buffered channel that gives up when the buffer is full.\<close>

definition signal :: "Scheduler \<Rightarrow> Scheduler" where
  "signal s = s\<lparr>wakeup := True\<rparr>"

definition Schedule :: "Scheduler \<Rightarrow> string \<Rightarrow> gotime \<Rightarrow> Scheduler" where
  "Schedule s i next =
     (case gm_lookup (entries s) i of
        Some e \<Rightarrow>
          let h1 = (h s)\<lparr>mem := (mem (h s))(e := (mem (h s) e)\<lparr>nextRefillTime := next\<rparr>)\<rparr>
          in (case Heap_Fix h1 (heapIndex (mem h1 e)) of
                Panic \<Rightarrow> s\<lparr>h := h1, dead := True\<rparr>
              | Ret h2 \<Rightarrow> signal (s\<lparr>h := h2\<rparr>))
      | None \<Rightarrow>
          let e = nextPtr s;
              h1 = (h s)\<lparr>mem := (mem (h s))(e := \<lparr>entryId = i, nextRefillTime = next, heapIndex = 0\<rparr>)\<rparr>;
              h2 = Heap_Push h1 e
          in signal (s\<lparr>h := h2, entries := gm_set i e (entries s), nextPtr := e + 1\<rparr>))"

definition sched_Remove :: "Scheduler \<Rightarrow> string \<Rightarrow> Scheduler" where
  "sched_Remove s i =
     (case gm_lookup (entries s) i of
        None \<Rightarrow> s
      | Some e \<Rightarrow>
          (case Heap_Remove (h s) (heapIndex (mem (h s) e)) of
             Panic \<Rightarrow> s\<lparr>dead := True\<rparr>
           | Ret (h2, _) \<Rightarrow> s\<lparr>h := h2, entries := gm_delete i (entries s)\<rparr>))"

definition nextWait :: "Scheduler \<Rightarrow> gotime \<Rightarrow> duration" where
  "nextWait s now =
     (if Len (h s) = 0 then Hour
      else let wait = timeSub (due (h s) 0) now in if wait < 0 then 0 else wait)"

lemma length_slots_Swap [simp]: "length (slots (Swap hp i j)) = length (slots hp)"
  by (simp add: slots_Swap)

lemma length_slots_down [simp]: "length (slots (fst (down hp i n))) = length (slots hp)"
proof (induction hp i n rule: down.induct)
  case (1 hp i n)
  show ?case
    using "1.IH" [OF refl _ min_child_def] by (auto simp: down_unfold [of hp i n])
qed

lemma Heap_Pop_shrinks: "Heap_Pop hp = Ret (hp', p) \<Longrightarrow> length (slots hp') < length (slots hp)"
  using length_slots_down [of "Swap hp 0 (Len hp - 1)" 0 "Len hp - 1"]
  by (auto simp: Heap_Pop_def heap_pop_def Len_def Let_def case_prod_beta split: if_splits)

text \<open>The first loop of \<^verbatim>\<open>processDue\<close>: pop every entry that is due and drop it from the
  index.  It returns the entries in the order they were popped.\<close>

function popDue :: "Scheduler \<Rightarrow> gotime \<Rightarrow> Scheduler \<times> refillEntry list" where
  "popDue s now =
     (if Len (h s) > 0 \<and> \<not> After (due (h s) 0) now then
        (case Heap_Pop (h s) of
           Panic \<Rightarrow> (s\<lparr>dead := True\<rparr>, [])
         | Ret (h2, e) \<Rightarrow>
             let s1 = s\<lparr>h := h2, entries := gm_delete (entryId (mem h2 e)) (entries s)\<rparr>;
                 (s2, es) = popDue s1 now
             in (s2, mem h2 e # es))
      else (s, []))"
  by pat_completeness auto
termination
  by (relation "measure (\<lambda>(s, now). length (slots (h s)))") (auto dest: Heap_Pop_shrinks)

declare popDue.simps [simp del]

text \<open>The second loop: one callback per popped entry.  A \<^verbatim>\<open>RefillFunc\<close> works on some
  environment, here the store, and returns the next due time or that the entry is gone.\<close>

type_synonym 's RefillFunc = "'s \<Rightarrow> string \<Rightarrow> gotime \<Rightarrow> 's \<times> gotime \<times> bool"

definition runDue :: "'s RefillFunc \<Rightarrow> gotime \<Rightarrow> refillEntry \<Rightarrow> Scheduler \<times> 's \<Rightarrow> Scheduler \<times> 's" where
  "runDue onDue now e = (\<lambda>(s, env).
     let (env1, next, ok) = onDue env (entryId e) now;
         s1 = s\<lparr>refillsTotal := i64 (refillsTotal s + 1)\<rparr>
     in (if ok then Schedule s1 (entryId e) next else s1, env1))"

definition processDue :: "'s RefillFunc \<Rightarrow> gotime \<Rightarrow> Scheduler \<times> 's \<Rightarrow> Scheduler \<times> 's" where
  "processDue onDue now = (\<lambda>(s, env).
     let (s1, es) = popDue s now in fold (runDue onDue now) es (s1, env))"

definition HeapSize :: "Scheduler \<Rightarrow> int" where
  "HeapSize s = int (Len (h s))"

definition RefillsTotal :: "Scheduler \<Rightarrow> int64" where
  "RefillsTotal s = refillsTotal s"

section \<open>Heap and index agree\<close>

definition sched_ok :: "Scheduler \<Rightarrow> bool" where
  "sched_ok s \<longleftrightarrow> \<not> dead s \<and> heap_ok (h s) \<and> gm_ok (entries s)
     \<and> (\<forall>i p. gm_lookup (entries s) i = Some p \<longleftrightarrow> p \<in> set (slots (h s)) \<and> entryId (mem (h s) p) = i)
     \<and> (\<forall>p\<in>set (slots (h s)). p < nextPtr s)"

definition pending :: "Scheduler \<Rightarrow> string \<rightharpoonup> gotime" where
  "pending s i = map_option (\<lambda>p. nextRefillTime (mem (h s) p)) (gm_lookup (entries s) i)"

lemma sched_okD:
  assumes "sched_ok s"
  shows "\<not> dead s" "heap_ok (h s)" "gm_ok (entries s)" "\<And>p. p \<in> set (slots (h s)) \<Longrightarrow> p < nextPtr s"
    "\<And>i p. gm_lookup (entries s) i = Some p \<longleftrightarrow> p \<in> set (slots (h s)) \<and> entryId (mem (h s) p) = i"
  using assms by (simp_all add: sched_ok_def)

lemma heap_ok_distinct: "heap_ok hp \<Longrightarrow> distinct (slots hp)"
  by (simp add: heap_ok_def indexed_def)

lemma pending_iff:
  "sched_ok s \<Longrightarrow> pending s i = Some t \<longleftrightarrow>
     (\<exists>p\<in>set (slots (h s)). entryId (mem (h s) p) = i \<and> nextRefillTime (mem (h s) p) = t)"
  by (auto simp: pending_def sched_okD(5))

text \<open>Every entry of the index is where it says it is.\<close>

lemma indexed_slot:
  assumes "sched_ok s" "gm_lookup (entries s) i = Some e"
  obtains k where "k < length (slots (h s))" "slots (h s) ! k = e" "heapIndex (mem (h s) e) = int k"
proof -
  from assms have "e \<in> set (slots (h s))" by (simp add: sched_okD(5))
  then obtain k where k: "k < length (slots (h s))" "slots (h s) ! k = e" by (auto simp: in_set_conv_nth)
  with sched_okD(2) [OF assms(1)] have "heapIndex (mem (h s) e) = int k"
    by (auto simp: heap_ok_def indexed_def)
  with k that show thesis by blast
qed

lemma mset_remove_set:
  assumes "mset ys = mset xs - {#p#}" "distinct xs" "p \<in> set xs"
  shows "set ys = set xs - {p}"
proof -
  have "set ys = set_mset (mset xs - {#p#})" using assms(1) by (metis set_mset_mset)
  also have "\<dots> = set xs - {p}" using assms(2,3)
    by (auto simp: set_mset_def not_in_iff distinct_count_atmost_1 count_mset)
  finally show ?thesis .
qed

text \<open>Taking one entry out of heap and index.\<close>

lemma sched_ok_taken:
  assumes ok: "sched_ok s" and p: "p \<in> set (slots (h s))" "entryId (mem (h s) p) = i"
    and h2: "heap_ok h2" "mset (slots h2) = mset (slots (h s)) - {#p#}" "same_entries (h s) h2"
  defines "s' \<equiv> s\<lparr>h := h2, entries := gm_delete i (entries s)\<rparr>"
  shows "sched_ok s'" "pending s' = (pending s)(i := None)"
proof -
  have set2: "set (slots h2) = set (slots (h s)) - {p}"
    by (rule mset_remove_set [OF h2(2) heap_ok_distinct [OF sched_okD(2) [OF ok]] p(1)])
  have uniq: "q = p" if "q \<in> set (slots (h s))" "entryId (mem (h s) q) = i" for q
    using sched_okD(5) [OF ok, of i q] sched_okD(5) [OF ok, of i p] that p by simp
  show "sched_ok s'"
    using ok h2(1) set2 uniq same_entriesD [OF h2(3)] p(2)
    by (auto simp: sched_ok_def s'_def gm_lookup_delete)
  show "pending s' = (pending s)(i := None)"
    by (rule ext) (simp add: pending_def s'_def gm_lookup_delete same_entriesD [OF h2(3)])
qed

section \<open>Schedule and Remove\<close>

lemma sched_Remove_correct:
  assumes ok: "sched_ok s"
  shows "sched_ok (sched_Remove s i)" "pending (sched_Remove s i) = (pending s)(i := None)"
    "wakeup (sched_Remove s i) = wakeup s"
proof -
  have "sched_ok (sched_Remove s i) \<and> pending (sched_Remove s i) = (pending s)(i := None)
    \<and> wakeup (sched_Remove s i) = wakeup s"
  proof (cases "gm_lookup (entries s) i")
    case None
    then have "sched_Remove s i = s" "pending s i = None" by (simp_all add: sched_Remove_def pending_def)
    with ok show ?thesis by auto
  next
    case (Some e)
    obtain k where k: "k < length (slots (h s))" "slots (h s) ! k = e" "heapIndex (mem (h s) e) = int k"
      by (rule indexed_slot [OF ok Some])
    obtain h2 where h2: "Heap_Remove (h s) (int k) = Ret (h2, e)" "heap_ok h2"
      "mset (slots h2) = mset (slots (h s)) - {#e#}" "same_entries (h s) h2"
      by (rule Heap_Remove_correct [OF sched_okD(2) [OF ok] k(1), unfolded k(2)])
    from sched_okD(5) [OF ok, of i e] Some have e: "e \<in> set (slots (h s))" "entryId (mem (h s) e) = i"
      by simp_all
    have "sched_Remove s i = s\<lparr>h := h2, entries := gm_delete i (entries s)\<rparr>"
      using Some k(3) h2(1) by (simp add: sched_Remove_def)
    with sched_ok_taken [OF ok e h2(2-4)] show ?thesis by simp
  qed
  then show "sched_ok (sched_Remove s i)" "pending (sched_Remove s i) = (pending s)(i := None)"
    "wakeup (sched_Remove s i) = wakeup s" by auto
qed

lemma pending_signal [simp]: "pending (signal s) = pending s" "sched_ok (signal s) = sched_ok s"
  by (rule ext) (simp_all add: pending_def signal_def sched_ok_def)

text \<open>Rescheduling a known id.\<close>

lemma Schedule_known:
  assumes ok: "sched_ok s" and e: "gm_lookup (entries s) i = Some e"
  shows "\<exists>h2. Schedule s i t = signal (s\<lparr>h := h2\<rparr>) \<and> sched_ok (s\<lparr>h := h2\<rparr>)
     \<and> pending (s\<lparr>h := h2\<rparr>) = (pending s)(i \<mapsto> t)"
proof -
  obtain k where k: "k < length (slots (h s))" "slots (h s) ! k = e" "heapIndex (mem (h s) e) = int k"
    by (rule indexed_slot [OF ok e])
  define h1 where "h1 = (h s)\<lparr>mem := (mem (h s))(e := (mem (h s) e)\<lparr>nextRefillTime := t\<rparr>)\<rparr>"
  have hs: "heap_ok (h s)" by (rule sched_okD(2) [OF ok])
  have ix: "indexed h1" using hs by (auto simp: heap_ok_def indexed_def h1_def)
  have "slots (h s) ! m \<noteq> e" if "m < length (slots (h s))" "m \<noteq> k" for m
    using heap_ok_distinct [OF hs] k that by (metis nth_eq_iff_index_eq)
  then have "heap_but (due h1) (length (slots h1)) k"
    using hs by (intro heap_but_changed [of "due (h s)"]) (auto simp: heap_ok_def due_def h1_def)
  then obtain h2 where h2: "Heap_Fix h1 (int k) = Ret h2" "heap_ok h2" "reordered h1 h2"
    using ix k(1) by (auto simp: h1_def elim: Heap_Fix_correct)
  have S: "Schedule s i t = signal (s\<lparr>h := h2\<rparr>)"
    using e k(3) h2(1) by (simp add: Schedule_def h1_def [symmetric] Let_def) (simp add: h1_def)
  have m2: "entryId (mem h2 q) = entryId (mem (h s) q)"
    "nextRefillTime (mem h2 q) = (if q = e then t else nextRefillTime (mem (h s) q))" for q
    using h2(3) by (simp_all add: reordered_def h1_def)
  have set2: "set (slots h2) = set (slots (h s))" using reordered_set [OF h2(3)] by (simp add: h1_def)
  have ok2: "sched_ok (s\<lparr>h := h2\<rparr>)"
    using ok h2(2) by (simp add: sched_ok_def m2 set2)
  have "j = i" if "gm_lookup (entries s) j = Some e" for j
    using sched_okD(5) [OF ok, of j e] sched_okD(5) [OF ok, of i e] that e by simp
  then have "pending (s\<lparr>h := h2\<rparr>) j = ((pending s)(i \<mapsto> t)) j" for j
    by (cases "gm_lookup (entries s) j") (auto simp: pending_def m2 e)
  then have "pending (s\<lparr>h := h2\<rparr>) = (pending s)(i \<mapsto> t)" by (rule ext)
  with S ok2 show ?thesis by blast
qed

text \<open>Inserting a fresh entry.\<close>

lemma Schedule_new:
  assumes ok: "sched_ok s" and e: "gm_lookup (entries s) i = None"
  shows "\<exists>s'. Schedule s i t = signal s' \<and> sched_ok s' \<and> pending s' = (pending s)(i \<mapsto> t)"
proof -
  define h1 where "h1 = (h s)\<lparr>mem := (mem (h s))(nextPtr s :=
      \<lparr>entryId = i, nextRefillTime = t, heapIndex = 0\<rparr>)\<rparr>"
  define s' where "s' = s\<lparr>h := Heap_Push h1 (nextPtr s),
      entries := gm_set i (nextPtr s) (entries s), nextPtr := nextPtr s + 1\<rparr>"
  have fresh: "nextPtr s \<notin> set (slots (h s))" using sched_okD(4) [OF ok] by blast
  then have nth: "slots (h s) ! k \<noteq> nextPtr s" if "k < length (slots (h s))" for k
    using nth_mem [OF that] by metis
  have "heap_ok h1"
  proof -
    have "indexed (h s)" using sched_okD(2) [OF ok] by (simp add: heap_ok_def)
    then have "indexed h1" using nth unfolding indexed_def h1_def by simp
    moreover have "heap_upto (due h1) (length (slots h1))"
    proof (rule heap_upto_cong [of "due (h s)"])
      show "heap_upto (due (h s)) (length (slots h1))"
        using sched_okD(2) [OF ok] by (simp add: heap_ok_def h1_def)
      show "due h1 k = due (h s) k" if "k < length (slots h1)" for k
        using that nth [of k] by (simp add: due_def h1_def)
    qed
    ultimately show ?thesis by (simp add: heap_ok_def)
  qed
  with fresh have P: "heap_ok (Heap_Push h1 (nextPtr s))"
    "mset (slots (Heap_Push h1 (nextPtr s))) = add_mset (nextPtr s) (mset (slots (h s)))"
    "same_entries h1 (Heap_Push h1 (nextPtr s))"
    using Heap_Push_correct [of h1 "nextPtr s"] by (simp_all add: h1_def)
  have set2: "set (slots (Heap_Push h1 (nextPtr s))) = insert (nextPtr s) (set (slots (h s)))"
    using P(2) by (metis set_mset_add_mset_insert set_mset_mset)
  have m2: "entryId (mem (Heap_Push h1 (nextPtr s)) q) = (if q = nextPtr s then i else entryId (mem (h s) q))"
    "nextRefillTime (mem (Heap_Push h1 (nextPtr s)) q) = (if q = nextPtr s then t else nextRefillTime (mem (h s) q))" for q
    unfolding same_entriesD [OF P(3)] by (simp_all add: h1_def)
  have none: "entryId (mem (h s) q) \<noteq> i" if "q \<in> set (slots (h s))" for q
    using sched_okD(5) [OF ok, of i q] that e by auto
  have ok': "sched_ok s'"
    unfolding sched_ok_def
  proof (intro conjI allI ballI)
    fix j q
    have old: "gm_lookup (entries s) j = Some q \<longleftrightarrow> q \<in> set (slots (h s)) \<and> entryId (mem (h s) q) = j"
      by (rule sched_okD(5) [OF ok])
    show "gm_lookup (entries s') j = Some q \<longleftrightarrow> q \<in> set (slots (h s')) \<and> entryId (mem (h s') q) = j"
    proof (cases "q = nextPtr s")
      case True
      with old fresh show ?thesis by (simp add: s'_def gm_lookup_set set2 m2)
    next
      case False
      with old none [of q] show ?thesis by (auto simp: s'_def gm_lookup_set set2 m2)
    qed
  next
    fix p assume "p \<in> set (slots (h s'))"
    then have "p = nextPtr s \<or> p \<in> set (slots (h s))" by (simp add: s'_def set2)
    then show "p < nextPtr s'" using sched_okD(4) [OF ok, of p] by (auto simp: s'_def)
  next
    show "\<not> dead s'" "gm_ok (entries s')" using sched_okD(1,3) [OF ok] by (simp_all add: s'_def)
    show "heap_ok (h s')" using P(1) by (simp add: s'_def)
  qed
  have "pending s' = (pending s)(i \<mapsto> t)"
  proof (rule ext)
    fix j
    have "p \<noteq> nextPtr s" if "gm_lookup (entries s) j = Some p" for p
      using that sched_okD(5) [OF ok, of j p] fresh by auto
    then show "pending s' j = ((pending s)(i \<mapsto> t)) j"
      by (cases "gm_lookup (entries s) j") (auto simp: pending_def s'_def gm_lookup_set m2)
  qed
  moreover have "Schedule s i t = signal s'"
    using e by (simp add: Schedule_def s'_def h1_def Let_def)
  ultimately show ?thesis using ok' by blast
qed

lemma Schedule_correct:
  assumes "sched_ok s"
  shows "sched_ok (Schedule s i t)" "pending (Schedule s i t) = (pending s)(i \<mapsto> t)"
    "wakeup (Schedule s i t)"
proof -
  obtain s' where "Schedule s i t = signal s'" "sched_ok s'" "pending s' = (pending s)(i \<mapsto> t)"
    using Schedule_known [OF assms] Schedule_new [OF assms] by (cases "gm_lookup (entries s) i") blast+
  then show "sched_ok (Schedule s i t)" "pending (Schedule s i t) = (pending s)(i \<mapsto> t)"
    "wakeup (Schedule s i t)" by simp_all (simp add: signal_def)
qed

lemma sched_New_ok: "sched_ok sched_New" "pending sched_New = Map.empty"
  by (auto simp: sched_ok_def sched_New_def heap_ok_def indexed_def heap_upto_def pending_def)

section \<open>The contract of a scheduler\<close>

text \<open>
  What the store needs from a scheduler (the \<^verbatim>\<open>Scheduler\<close> interface of
  \<^verbatim>\<open>internal/store/store.go\<close>): it is a table from ids to due times.
\<close>

locale schedule_table =
  fixes insert_entry :: "'t \<Rightarrow> string \<Rightarrow> gotime \<Rightarrow> 't"
    and remove_entry :: "'t \<Rightarrow> string \<Rightarrow> 't"
    and table :: "'t \<Rightarrow> string \<rightharpoonup> gotime"
    and ok :: "'t \<Rightarrow> bool"
  assumes insert_ok: "ok s \<Longrightarrow> ok (insert_entry s i t)"
    and insert_table: "ok s \<Longrightarrow> table (insert_entry s i t) = (table s)(i \<mapsto> t)"
    and remove_ok: "ok s \<Longrightarrow> ok (remove_entry s i)"
    and remove_table: "ok s \<Longrightarrow> table (remove_entry s i) = (table s)(i := None)"
begin

definition remove_all :: "'t \<Rightarrow> string list \<Rightarrow> 't" where
  "remove_all s is = fold (\<lambda>i s. remove_entry s i) is s"

lemma remove_all_correct:
  "ok s \<Longrightarrow> ok (remove_all s is) \<and> table (remove_all s is) = (\<lambda>i. if i \<in> set is then None else table s i)"
  unfolding remove_all_def
proof (induction "is" arbitrary: s)
  case (Cons i "is")
  then show ?case by (auto simp: remove_ok remove_table fun_eq_iff)
qed simp

text \<open>Removing and inserting again, as a reconfiguration does, leaves exactly one entry.\<close>

lemma replace_table:
  "ok s \<Longrightarrow> table (insert_entry (remove_entry s i) i t) = (table s)(i \<mapsto> t)"
  by (simp add: insert_table remove_ok remove_table)

end

interpretation st: schedule_table Schedule sched_Remove pending sched_ok
  by unfold_locales (simp_all add: Schedule_correct sched_Remove_correct)

section \<open>What a pass over the due entries does\<close>

definition not_due :: "gotime \<Rightarrow> (string \<rightharpoonup> gotime) \<Rightarrow> (string \<rightharpoonup> gotime)" where
  "not_due now m i = (case m i of Some t \<Rightarrow> if t \<le> now then None else Some t | None \<Rightarrow> None)"

lemma not_due_Some: "not_due now m i = Some t \<longleftrightarrow> m i = Some t \<and> now < t"
  by (auto simp: not_due_def split: option.splits)

lemma not_due_all: "(\<And>i t. m i = Some t \<Longrightarrow> now < t) \<Longrightarrow> not_due now m = m"
  by (rule ext) (auto simp: not_due_def split: option.splits dest!: leD)

lemma not_due_drop: "m i = Some t \<Longrightarrow> t \<le> now \<Longrightarrow> not_due now (m(i := None)) = not_due now m"
  by (rule ext) (simp add: not_due_def)

lemma sched_top:
  assumes "sched_ok s" "Len (h s) > 0"
  shows "pending s (entryId (mem (h s) (slots (h s) ! 0))) = Some (due (h s) 0)"
proof -
  have "slots (h s) ! 0 \<in> set (slots (h s))" using assms(2) by (simp add: Len_def)
  with assms(1) show ?thesis by (auto simp: pending_iff due_def)
qed

lemma sched_top_least:
  assumes "sched_ok s" "pending s i = Some t"
  shows "Len (h s) > 0" "due (h s) 0 \<le> t"
proof -
  from assms obtain p where p: "p \<in> set (slots (h s))" "nextRefillTime (mem (h s) p) = t"
    by (auto simp: pending_iff)
  then obtain k where k: "k < length (slots (h s))" "slots (h s) ! k = p" by (auto simp: in_set_conv_nth)
  then show "Len (h s) > 0" by (auto simp: Len_def)
  show "due (h s) 0 \<le> t"
    using heap_upto_root [of "due (h s)" "length (slots (h s))" k] sched_okD(2) [OF assms(1)] k p(2)
    by (simp add: heap_ok_def due_def)
qed

lemma popDue_refillsTotal: "popDue s now = (s', es) \<Longrightarrow> refillsTotal s' = refillsTotal s"
proof (induction s now arbitrary: s' es rule: popDue.induct)
  case (1 s now)
  have IH: "refillsTotal s2 = refillsTotal s"
    if "Len (h s) > 0" "\<not> After (due (h s) 0) now" "Heap_Pop (h s) = Ret (h2, e)"
      "popDue (s\<lparr>h := h2, entries := gm_delete (entryId (mem h2 e)) (entries s)\<rparr>) now = (s2, es2)"
    for h2 e s2 es2
    using "1.IH" [OF conjI [OF that(1,2)] that(3) refl refl that(4)] by simp
  show ?case
    using "1.prems" by (subst (asm) popDue.simps)
      (auto simp: Let_def split: if_splits go.splits prod.splits intro: IH)
qed

definition popped_ok :: "Scheduler \<Rightarrow> gotime \<Rightarrow> Scheduler \<Rightarrow> refillEntry list \<Rightarrow> bool" where
  "popped_ok s now s' es \<longleftrightarrow> sched_ok s' \<and> pending s' = not_due now (pending s) \<and> wakeup s' = wakeup s
     \<and> sorted (map nextRefillTime es) \<and> distinct (map entryId es)
     \<and> (\<forall>i t. (\<exists>e\<in>set es. entryId e = i \<and> nextRefillTime e = t) \<longleftrightarrow> pending s i = Some t \<and> t \<le> now)"

lemma popped_ok_Nil:
  assumes "sched_ok s" "\<And>i t. pending s i = Some t \<Longrightarrow> now < t"
  shows "popped_ok s now s []"
  using assms by (auto simp: popped_ok_def not_due_all dest!: leD)

lemma popped_ok_Cons:
  assumes "popped_ok s1 now s' es" and p: "pending s1 = (pending s)(i := None)" "wakeup s1 = wakeup s"
    and i: "pending s i = Some t" "t \<le> now" "\<And>j u. pending s j = Some u \<Longrightarrow> t \<le> u"
    and e: "entryId e = i" "nextRefillTime e = t"
  shows "popped_ok s now s' (e # es)"
proof -
  have mem: "(\<exists>e\<in>set es. entryId e = j \<and> nextRefillTime e = u) \<longleftrightarrow> pending s j = Some u \<and> u \<le> now \<and> j \<noteq> i" for j u
    using assms(1) p(1) by (auto simp: popped_ok_def)
  have *: "t \<le> nextRefillTime x \<and> entryId x \<noteq> i" if "x \<in> set es" for x
    using mem [of "entryId x" "nextRefillTime x"] that i(3) by blast
  have set: "(\<exists>x\<in>set (e # es). entryId x = j \<and> nextRefillTime x = u) \<longleftrightarrow> pending s j = Some u \<and> u \<le> now" for j u
    using mem [of j u] i(1,2) e by auto
  have "i \<notin> entryId ` set es" "\<forall>x\<in>set es. t \<le> nextRefillTime x" using * by blast+
  then have "sorted (map nextRefillTime (e # es))" "distinct (map entryId (e # es))"
    using assms(1) e by (simp_all add: popped_ok_def)
  with set assms(1) p i(1,2) show ?thesis
    unfolding popped_ok_def by (auto simp: not_due_drop)
qed

lemma popDue_correct:
  "sched_ok s \<Longrightarrow> popDue s now = (s', es) \<Longrightarrow> popped_ok s now s' es"
proof (induction s now arbitrary: s' es rule: popDue.induct)
  case (1 s now)
  show ?case
  proof (cases "Len (h s) > 0 \<and> \<not> After (due (h s) 0) now")
    case False
    then have "s' = s" "es = []" using "1.prems"(2) by (auto simp: popDue.simps [of s now])
    moreover have "now < t" if "pending s i = Some t" for i t
      using sched_top_least [OF "1.prems"(1) that] False by (auto simp: After_def)
    ultimately show ?thesis using "1.prems"(1) by (simp add: popped_ok_Nil)
  next
    case True
    let ?p = "slots (h s) ! 0"
    have ne: "slots (h s) \<noteq> []" and p: "?p \<in> set (slots (h s))" using True by (auto simp: Len_def)
    obtain h2 where h2: "Heap_Pop (h s) = Ret (h2, ?p)" "heap_ok h2"
      "mset (slots h2) = mset (slots (h s)) - {#?p#}" "same_entries (h s) h2"
      by (rule Heap_Pop_correct [OF sched_okD(2) [OF "1.prems"(1)] ne])
    let ?i = "entryId (mem h2 ?p)"
    define s1 where "s1 = s\<lparr>h := h2, entries := gm_delete ?i (entries s)\<rparr>"
    have ok1: "sched_ok s1" "pending s1 = (pending s)(?i := None)"
      using sched_ok_taken [OF "1.prems"(1) p refl h2(2-4)] same_entriesD [OF h2(4)]
      by (simp_all add: s1_def)
    obtain s2 es2 where r: "popDue s1 now = (s2, es2)" by (cases "popDue s1 now")
    have eq: "s' = s2" "es = mem h2 ?p # es2"
      using "1.prems"(2) True h2(1) r by (simp_all add: popDue.simps [of s now] s1_def Let_def)
    have rec: "popped_ok s1 now s2 es2" using "1.IH" [OF True h2(1) refl] ok1(1) r
      by (simp add: s1_def)
    show ?thesis
      unfolding eq
    proof (rule popped_ok_Cons [OF rec ok1(2)])
      show "pending s ?i = Some (due (h s) 0)"
        using sched_top [OF "1.prems"(1)] True same_entriesD(1) [OF h2(4)] by simp
      show "due (h s) 0 \<le> now" using True by (simp add: After_def)
      show "due (h s) 0 \<le> u" if "pending s j = Some u" for j u
        by (rule sched_top_least(2) [OF "1.prems"(1) that])
      show "nextRefillTime (mem h2 ?p) = due (h s) 0" by (simp add: same_entriesD(2) [OF h2(4)] due_def)
    qed (simp_all add: s1_def)
  qed
qed

text \<open>
  The callbacks of a pass only touch the ids that were due: each is put back with the time
  its callback returned, or forgotten.
\<close>

fun results :: "'s RefillFunc \<Rightarrow> gotime \<Rightarrow> refillEntry list \<Rightarrow> 's \<Rightarrow> (string \<times> gotime option) list \<times> 's" where
  "results onDue now [] env = ([], env)"
| "results onDue now (e # es) env =
     (let (env1, next, ok) = onDue env (entryId e) now; (rs, env2) = results onDue now es env1
      in ((entryId e, if ok then Some next else None) # rs, env2))"

lemma fst_results: "map fst (fst (results onDue now es env)) = map entryId es"
  by (induction es arbitrary: env) (simp_all add: case_prod_beta Let_def)

lemma runDue_fold:
  assumes "sched_ok s" "distinct (map entryId es)" "\<forall>e\<in>set es. pending s (entryId e) = None"
    "fold (runDue onDue now) es (s, env) = (s', env')"
  shows "sched_ok s' \<and> env' = snd (results onDue now es env)
    \<and> pending s' = (\<lambda>i. case map_of (fst (results onDue now es env)) i of Some r \<Rightarrow> r | None \<Rightarrow> pending s i)
    \<and> refillsTotal s' = (if es = [] then refillsTotal s else i64 (refillsTotal s + int (length es)))"
  using assms
proof (induction es arbitrary: s env)
  case (Cons e es)
  obtain env1 nx ok where c: "onDue env (entryId e) now = (env1, nx, ok)"
    by (cases "onDue env (entryId e) now")
  define s0 where "s0 = s\<lparr>refillsTotal := i64 (refillsTotal s + 1)\<rparr>"
  define s1 where "s1 = (if ok then Schedule s0 (entryId e) nx else s0)"
  have s0: "sched_ok s0" "pending s0 = pending s"
    using Cons.prems(1) by (simp_all add: s0_def sched_ok_def pending_def fun_eq_iff)
  have s1: "sched_ok s1" "pending s1 = (pending s)(entryId e := if ok then Some nx else None)"
    using s0 Schedule_correct [OF s0(1)] Cons.prems(3) by (auto simp: s1_def fun_eq_iff)
  have t1: "refillsTotal s1 = i64 (refillsTotal s + 1)"
    by (auto simp: s1_def s0_def Schedule_def signal_def Let_def split: option.splits go.splits)
  have run: "fold (runDue onDue now) es (s1, env1) = (s', env')"
  proof -
    have "runDue onDue now e (s, env) = (s1, env1)" by (simp add: runDue_def s1_def s0_def c)
    with Cons.prems(4) show ?thesis by simp
  qed
  have "sched_ok s' \<and> env' = snd (results onDue now es env1)
    \<and> pending s' = (\<lambda>i. case map_of (fst (results onDue now es env1)) i of Some r \<Rightarrow> r | None \<Rightarrow> pending s1 i)
    \<and> refillsTotal s' = (if es = [] then refillsTotal s1 else i64 (refillsTotal s1 + int (length es)))"
  proof (intro Cons.IH s1(1) run)
    have "entryId x \<noteq> entryId e" if "x \<in> set es" for x using Cons.prems(2) that by (auto simp: image_iff)
    then show "\<forall>x\<in>set es. pending s1 (entryId x) = None" using Cons.prems(3) by (simp add: s1(2))
  qed (use Cons.prems(2) in simp)
  moreover have "i64 (i64 (refillsTotal s + 1) + int (length es)) = i64 (refillsTotal s + int (length (e # es)))"
    by (simp add: i64_add_left add.assoc)
  moreover have "map_of (fst (results onDue now es env1)) (entryId e) = None"
    using Cons.prems(2) fst_results [of onDue now es env1]
    by (metis distinct.simps(2) list.map(2) list.set_map map_of_eq_None_iff)
  ultimately show ?case
    using t1 by (auto simp: c s1(2) Let_def case_prod_beta fun_eq_iff split: option.splits)
qed (auto simp: fun_eq_iff)

text \<open>
  C15. One pass of \<^verbatim>\<open>processDue\<close> over a consistent scheduler: entries that are not due
  keep their time; every due entry was handed to the callback exactly once, in order of due
  times, and afterwards is pending at the time the callback returned, or gone; the heap and
  the index still agree; the counter grows by the number of due entries.
\<close>

theorem processDue_correct:
  assumes "sched_ok s" "processDue onDue now (s, env) = (s', env')"
  shows "\<exists>es. sorted (map nextRefillTime es) \<and> distinct (map entryId es)
    \<and> (\<forall>i t. (\<exists>e\<in>set es. entryId e = i \<and> nextRefillTime e = t) \<longleftrightarrow> pending s i = Some t \<and> t \<le> now)
    \<and> sched_ok s' \<and> env' = snd (results onDue now es env)
    \<and> pending s' = (\<lambda>i. case map_of (fst (results onDue now es env)) i of
         Some r \<Rightarrow> r | None \<Rightarrow> pending s i)
    \<and> (is_i64 (refillsTotal s + int (length es)) \<longrightarrow> refillsTotal s' = refillsTotal s + int (length es))"
proof -
  obtain s1 es where p: "popDue s now = (s1, es)" by (cases "popDue s now")
  from popDue_correct [OF assms(1) p] have P: "popped_ok s now s1 es" .
  then have ok1: "sched_ok s1" "distinct (map entryId es)" "pending s1 = not_due now (pending s)"
    by (simp_all add: popped_ok_def)
  have mem: "(\<exists>e\<in>set es. entryId e = i \<and> nextRefillTime e = t) \<longleftrightarrow> pending s i = Some t \<and> t \<le> now" for i t
    using P by (simp add: popped_ok_def)
  have gone: "\<forall>e\<in>set es. pending s1 (entryId e) = None"
  proof
    fix e assume "e \<in> set es"
    then have "pending s (entryId e) = Some (nextRefillTime e) \<and> nextRefillTime e \<le> now"
      using mem by blast
    then show "pending s1 (entryId e) = None" by (simp add: ok1(3) not_due_def)
  qed
  have "fold (runDue onDue now) es (s1, env) = (s', env')" using assms(2) p by (simp add: processDue_def)
  note R = runDue_fold [OF ok1(1,2) gone this]
  have kept: "pending s1 i = pending s i" if "map_of (fst (results onDue now es env)) i = None" for i
  proof -
    have "i \<notin> entryId ` set es"
      using that fst_results [of onDue now es env] by (metis list.set_map map_of_eq_None_iff)
    then have "now < t" if "pending s i = Some t" for t using mem [of i t] that by fastforce
    then show ?thesis by (cases "pending s i") (auto simp: ok1(3) not_due_def dest!: leD)
  qed
  have "refillsTotal s1 = refillsTotal s" by (rule popDue_refillsTotal [OF p])
  with R kept P show ?thesis
    by (intro exI [of _ es]) (auto simp: popped_ok_def fun_eq_iff i64_id split: option.splits)
qed

definition example_sched :: Scheduler where
  "example_sched = Schedule (Schedule sched_New ''b'' 20) ''a'' 5"

lemma example_sched_ok: "sched_ok example_sched" "pending example_sched = [''b'' \<mapsto> 20, ''a'' \<mapsto> 5]"
  by (simp_all add: example_sched_def Schedule_correct sched_New_ok)

theorem processDue_correct_witness:
  "\<exists>s'. processDue (\<lambda>env i now. (Suc env, now + 100, True)) 10 (example_sched, 0) = (s', 1)
     \<and> sched_ok s' \<and> pending s' ''a'' = Some 110 \<and> pending s' ''b'' = Some 20"
proof -
  let ?f = "\<lambda>env i now. (Suc env, now + 100, True)"
  obtain s' env' where r: "processDue ?f 10 (example_sched, 0) = (s', env')"
    by (cases "processDue ?f 10 (example_sched, 0)")
  obtain es where es: "distinct (map entryId es)"
    "\<And>i t. (\<exists>e\<in>set es. entryId e = i \<and> nextRefillTime e = t) \<longleftrightarrow> pending example_sched i = Some t \<and> t \<le> 10"
    "sched_ok s'" "env' = snd (results ?f 10 es 0)"
    "pending s' = (\<lambda>i. case map_of (fst (results ?f 10 es 0)) i of Some r \<Rightarrow> r | None \<Rightarrow> pending example_sched i)"
    using processDue_correct [OF example_sched_ok(1) r] by auto
  have a: "entryId e = ''a''" if "e \<in> set es" for e
    using es(2) [of "entryId e" "nextRefillTime e"] that
    by (auto simp: example_sched_ok split: if_splits)
  have "\<exists>e\<in>set es. entryId e = ''a''" using es(2) [of "''a''" 5] by (auto simp: example_sched_ok)
  then obtain e es2 where c: "es = e # es2" by (cases es) auto
  have "x \<notin> set es2" for x
  proof
    assume "x \<in> set es2"
    then have "entryId x = entryId e" using a [of x] a [of e] unfolding c by simp
    with \<open>x \<in> set es2\<close> es(1) show False unfolding c by (auto simp: image_iff)
  qed
  then have "es2 = []" by (cases es2) auto
  then have "es = [e]" "entryId e = ''a''" using c a by simp_all
  with r es(3,4,5) show ?thesis by (auto simp: example_sched_ok)
qed

section \<open>How long the loop sleeps\<close>

lemma nextWait_bounds:
  assumes "sched_ok s"
  shows "0 \<le> nextWait s now" "pending s i = Some t \<Longrightarrow> now + nextWait s now \<le> max t now"
    "pending s = Map.empty \<Longrightarrow> nextWait s now = Hour"
proof -
  show "0 \<le> nextWait s now" by (simp add: nextWait_def Hour_def Let_def)
  show "now + nextWait s now \<le> max t now" if "pending s i = Some t"
  proof -
    let ?u = "due (h s) 0"
    have "now + (if timeSub ?u now < 0 then 0 else timeSub ?u now) \<le> max ?u now"
      by (simp add: timeSub_def is_i64_def max_i64_def min_i64_def)
    also have "\<dots> \<le> max t now" using sched_top_least(2) [OF assms that] by simp
    finally show ?thesis using sched_top_least(1) [OF assms that] by (simp add: nextWait_def Let_def)
  qed
  show "nextWait s now = Hour" if "pending s = Map.empty"
    using sched_top [OF assms] that by (force simp: nextWait_def)
qed

end
