(* ===== verification/Store.thy ===== *)
theory Store
  imports MultiBucket Scheduler
begin

text \<open>
  The bucket store (\<^verbatim>\<open>internal/store/store.go\<close>): every client's buckets, the global
  bucket, the per-IP buckets, least-recently-used eviction, and the callback of the refill
  scheduler.  The scheduler is the one of theory \<open>Scheduler\<close>, absent until it is
  attached.  A call of the store runs to completion before the next one starts; the
  interleaving of callers inside one bucket is the subject of \<open>BucketRace\<close>.

  \<open>rng\<close> is the order in which \<^verbatim>\<open>range\<close> visits a map and \<open>wall\<close> what
  \<^verbatim>\<open>time.Now\<close> returns.
\<close>

section \<open>Scheduler ids\<close>

definition globalBucketID :: string where
  "globalBucketID = ''__global__''"

definition ipIDPrefix :: string where
  "ipIDPrefix = ''__ip__|''"

definition encodeID :: "string \<Rightarrow> string \<Rightarrow> string" where
  "encodeID key tier = key @ ''|'' @ tier"

text \<open>\<^verbatim>\<open>strings.Cut\<close> with a one-character separator.\<close>

fun cut :: "char \<Rightarrow> string \<Rightarrow> (string \<times> string) option" where
  "cut sep [] = None"
| "cut sep (c # cs) =
     (if c = sep then Some ([], cs) else map_option (\<lambda>(a, b). (c # a, b)) (cut sep cs))"

definition decodeID :: "string \<Rightarrow> (string \<times> string) option" where
  "decodeID i = cut CHR ''|'' i"

definition HasPrefix :: "string \<Rightarrow> string \<Rightarrow> bool" where
  "HasPrefix s pre \<longleftrightarrow> take (length pre) s = pre"

definition TrimPrefix :: "string \<Rightarrow> string \<Rightarrow> string" where
  "TrimPrefix s pre = (if HasPrefix s pre then drop (length pre) s else s)"

section \<open>Data\<close>

record AllowRequest =
  ClientKey :: string
  SourceIP :: string
  Tier :: string
  Now :: gotime

record AllowResult =
  Allowed :: bool
  RemainingTokens :: int64
  RetryAfter :: duration
  Reason :: string

record TierStatus =
  tsTokensRemaining :: int64
  tsMaxTokens :: int64
  tsRefillRate :: int64
  tsRefillIntervalMs :: int64

record ClientStatus =
  csClientKey :: string
  csBlocked :: bool
  csTiers :: "(string, TierStatus) gomap"

record Options =
  optMaxClients :: int
  optTierDefaults :: "(string, bucket_Config) gomap"

record BucketStore =
  clients :: "(string, ClientBuckets) gomap"
  maxClients :: int
  tierDefaults :: "(string, bucket_Config) gomap"
  scheduler :: "Scheduler option"
  globalBucket :: "Bucket option"
  evictions :: int64
  ipBuckets :: "(string, Bucket) gomap"
  ipBucketCap :: int
  ipLimitEnabled :: bool
  ipConfigPtr :: "bucket_Config option"

section \<open>Construction\<close>

definition builtin_default :: bucket_Config where
  "builtin_default = \<lparr>MaxTokens = 100, RefillRate = 10, RefillInterval = Second,
     TokensPerRequest = 1, SlidingWindowCfg = None\<rparr>"

definition builtin_ip_default :: bucket_Config where
  "builtin_ip_default = \<lparr>MaxTokens = 1000, RefillRate = 1000, RefillInterval = Second,
     TokensPerRequest = 0, SlidingWindowCfg = None\<rparr>"

definition store_New :: "Options \<Rightarrow> BucketStore" where
  "store_New opts =
     (let td = optTierDefaults opts;
          td = (if gm_lookup td DefaultTier = None then gm_set DefaultTier builtin_default td else td);
          ipCap = i64 (optMaxClients opts * 4);
          ipCap = (if ipCap \<le> 0 then 200000 else ipCap)
      in \<lparr>clients = [], maxClients = optMaxClients opts, tierDefaults = td, scheduler = None,
          globalBucket = None, evictions = 0, ipBuckets = [], ipBucketCap = ipCap,
          ipLimitEnabled = False, ipConfigPtr = None\<rparr>)"

definition AttachScheduler :: "BucketStore \<Rightarrow> Scheduler \<Rightarrow> BucketStore" where
  "AttachScheduler s sc = s\<lparr>scheduler := Some sc\<rparr>"

text \<open>The two calls of the \<^verbatim>\<open>Scheduler\<close> interface, guarded by the test for nil.\<close>

definition schedule_id :: "BucketStore \<Rightarrow> string \<Rightarrow> gotime \<Rightarrow> BucketStore" where
  "schedule_id s i t = s\<lparr>scheduler := map_option (\<lambda>sc. Schedule sc i t) (scheduler s)\<rparr>"

definition unschedule_id :: "BucketStore \<Rightarrow> string \<Rightarrow> BucketStore" where
  "unschedule_id s i = s\<lparr>scheduler := map_option (\<lambda>sc. sched_Remove sc i) (scheduler s)\<rparr>"

section \<open>Eviction\<close>

text \<open>The scan of both eviction loops: the key with the smallest access time, the first one
  visited among equals; the empty string when there is nothing to visit.\<close>

definition scan_oldest :: "(string \<Rightarrow> gotime) \<Rightarrow> string \<Rightarrow> string \<times> gotime \<times> bool \<Rightarrow> string \<times> gotime \<times> bool" where
  "scan_oldest la k = (\<lambda>(oldestKey, oldestTime, first).
     if first \<or> Before (la k) oldestTime then (k, la k, False) else (oldestKey, oldestTime, first))"

definition oldest :: "(string \<Rightarrow> gotime) \<Rightarrow> string list \<Rightarrow> string" where
  "oldest la ks = fst (fold (scan_oldest la) ks ([], zeroTime, True))"

definition client_access :: "BucketStore \<Rightarrow> string \<Rightarrow> gotime" where
  "client_access s k = (case gm_lookup (clients s) k of Some cb \<Rightarrow> mb_LastAccess cb | None \<Rightarrow> zeroTime)"

definition evictLRULocked :: "string range_order \<Rightarrow> BucketStore \<Rightarrow> BucketStore" where
  "evictLRULocked rng s =
     (if gm_len (clients s) = 0 then s
      else let oldestKey = oldest (client_access s) (rng (gm_keys (clients s))) in
           if oldestKey = [] then s
           else case gm_lookup (clients s) oldestKey of
                  None \<Rightarrow> s
                | Some cb \<Rightarrow>
                    let s1 = s\<lparr>clients := gm_delete oldestKey (clients s), evictions := i64 (evictions s + 1)\<rparr>
                    in fold (\<lambda>tier s. unschedule_id s (encodeID oldestKey tier)) (Tiers rng cb) s1)"

definition ip_access :: "BucketStore \<Rightarrow> string \<Rightarrow> gotime" where
  "ip_access s ip = (case gm_lookup (ipBuckets s) ip of Some b \<Rightarrow> bucket_LastAccess b | None \<Rightarrow> zeroTime)"

definition evictOldestIPLocked :: "string range_order \<Rightarrow> BucketStore \<Rightarrow> BucketStore" where
  "evictOldestIPLocked rng s =
     (if gm_len (ipBuckets s) = 0 then s
      else let oldestIP = oldest (ip_access s) (rng (gm_keys (ipBuckets s))) in
           if oldestIP = [] then s
           else unschedule_id (s\<lparr>ipBuckets := gm_delete oldestIP (ipBuckets s)\<rparr>) (ipIDPrefix @ oldestIP))"

section \<open>Finding or creating buckets\<close>

definition default_config :: "BucketStore \<Rightarrow> string \<Rightarrow> bucket_Config" where
  "default_config s tier = (case gm_lookup (tierDefaults s) tier of Some c \<Rightarrow> c
     | None \<Rightarrow> \<lparr>MaxTokens = 0, RefillRate = 0, RefillInterval = 0, TokensPerRequest = 0,
                SlidingWindowCfg = None\<rparr>)"

text \<open>\<^verbatim>\<open>if s.scheduler != nil && cfg.RefillInterval > 0 { ... Schedule(id, b.NextRefillTime()) }\<close>\<close>

definition schedule_bucket :: "BucketStore \<Rightarrow> string \<Rightarrow> bucket_Config \<Rightarrow> Bucket option \<Rightarrow> BucketStore" where
  "schedule_bucket s i cfg ob =
     (if RefillInterval cfg > 0
      then (case ob of Some b \<Rightarrow> schedule_id s i (NextRefillTime b) | None \<Rightarrow> s) else s)"

definition getOrCreateClient :: "string range_order \<Rightarrow> BucketStore \<Rightarrow> string \<Rightarrow> gotime
    \<Rightarrow> BucketStore \<times> ClientBuckets \<times> bool" where
  "getOrCreateClient rng s key now =
     (case gm_lookup (clients s) key of
        Some cb \<Rightarrow> (s, cb, False)
      | None \<Rightarrow>
          let s1 = (if maxClients s > 0 \<and> gm_len (clients s) \<ge> maxClients s
                    then evictLRULocked rng s else s);
              defaultCfg = default_config s1 DefaultTier;
              cb = Configure (mb_New key) DefaultTier defaultCfg now;
              s2 = s1\<lparr>clients := gm_set key cb (clients s1)\<rparr>
          in (schedule_bucket s2 (encodeID key DefaultTier) defaultCfg (mb_Bucket cb DefaultTier), cb, True))"

definition put_client :: "BucketStore \<Rightarrow> string \<Rightarrow> ClientBuckets \<Rightarrow> BucketStore" where
  "put_client s key cb = s\<lparr>clients := gm_set key cb (clients s)\<rparr>"

definition ensureTier :: "BucketStore \<Rightarrow> ClientBuckets \<Rightarrow> string \<Rightarrow> gotime \<Rightarrow> BucketStore \<times> ClientBuckets" where
  "ensureTier s cb tier now =
     (if tier = [] \<or> tier = DefaultTier then (s, cb)
      else if mb_Bucket cb tier \<noteq> None then (s, cb)
      else case gm_lookup (tierDefaults s) tier of
             None \<Rightarrow> (s, cb)
           | Some cfg \<Rightarrow>
               let cb1 = Configure cb tier cfg now;
                   s1 = put_client s (mb_Key cb) cb1
               in (schedule_bucket s1 (encodeID (mb_Key cb) tier) cfg (mb_Bucket cb1 tier), cb1))"

definition getOrCreateIPBucket :: "string range_order \<Rightarrow> BucketStore \<Rightarrow> string \<Rightarrow> gotime
    \<Rightarrow> BucketStore \<times> Bucket" where
  "getOrCreateIPBucket rng s ip now =
     (case gm_lookup (ipBuckets s) ip of
        Some b \<Rightarrow> (s, b)
      | None \<Rightarrow>
          let cfg = (case ipConfigPtr s of Some c \<Rightarrow> c | None \<Rightarrow> builtin_ip_default);
              s1 = (if gm_len (ipBuckets s) \<ge> ipBucketCap s then evictOldestIPLocked rng s else s);
              b = bucket_New cfg now;
              s2 = s1\<lparr>ipBuckets := gm_set ip b (ipBuckets s1)\<rparr>
          in (schedule_bucket s2 (ipIDPrefix @ ip) cfg (Some b), b))"

section \<open>The decision\<close>

text \<open>The three gates of \<^verbatim>\<open>Allow\<close>; a gate that does not apply lets the request pass.\<close>

definition global_gate :: "BucketStore \<Rightarrow> gotime \<Rightarrow> BucketStore \<times> bool \<times> duration" where
  "global_gate s now =
     (case globalBucket s of
        None \<Rightarrow> (s, True, 0)
      | Some gb \<Rightarrow> let (gb', allowed, retryAfter) = bucket_Allow gb now
                   in (s\<lparr>globalBucket := Some gb'\<rparr>, allowed, retryAfter))"

definition ip_gate :: "string range_order \<Rightarrow> BucketStore \<Rightarrow> string \<Rightarrow> gotime \<Rightarrow> BucketStore \<times> bool \<times> duration" where
  "ip_gate rng s ip now =
     (if ipLimitEnabled s \<and> ip \<noteq> []
      then let (s1, b) = getOrCreateIPBucket rng s ip now;
               (b', allowed, retryAfter) = bucket_Allow b now
           in (s1\<lparr>ipBuckets := gm_set ip b' (ipBuckets s1)\<rparr>, allowed, retryAfter)
      else (s, True, 0))"

definition remaining_tokens :: "ClientBuckets \<Rightarrow> string \<Rightarrow> int64" where
  "remaining_tokens cb tier =
     (case mb_Bucket cb tier of
        Some b \<Rightarrow> TokensRemaining b
      | None \<Rightarrow> (case mb_Bucket cb DefaultTier of Some b \<Rightarrow> TokensRemaining b | None \<Rightarrow> 0))"

definition client_gate :: "string range_order \<Rightarrow> BucketStore \<Rightarrow> string \<Rightarrow> string \<Rightarrow> gotime \<Rightarrow> BucketStore \<times> AllowResult" where
  "client_gate rng s key tier now =
     (let (s1, cb, _) = getOrCreateClient rng s key now in
      if mb_IsBlocked cb
      then (s1, \<lparr>Allowed = False, RemainingTokens = 0, RetryAfter = Second, Reason = ''blocked''\<rparr>)
      else let (s2, cb2) = ensureTier s1 cb tier now;
               (cb3, allowed, retryAfter) = mb_Allow cb2 tier now;
               s3 = put_client s2 key cb3
           in if \<not> allowed
              then (s3, \<lparr>Allowed = False, RemainingTokens = 0, RetryAfter = retryAfter, Reason = ''client_limit''\<rparr>)
              else (s3, \<lparr>Allowed = True, RemainingTokens = remaining_tokens cb3 tier, RetryAfter = 0, Reason = ''ok''\<rparr>))"

definition store_Allow :: "string range_order \<Rightarrow> gotime \<Rightarrow> BucketStore \<Rightarrow> AllowRequest \<Rightarrow> BucketStore \<times> AllowResult" where
  "store_Allow rng wall s req =
     (let now = (if IsZero (Now req) then wall else Now req);
          (s1, allowed1, retry1) = global_gate s now
      in if \<not> allowed1
         then (s1, \<lparr>Allowed = False, RemainingTokens = 0, RetryAfter = retry1, Reason = ''global_limit''\<rparr>)
         else let (s2, allowed2, retry2) = ip_gate rng s1 (SourceIP req) now
              in if \<not> allowed2
                 then (s2, \<lparr>Allowed = False, RemainingTokens = 0, RetryAfter = retry2, Reason = ''ip_limit''\<rparr>)
                 else client_gate rng s2 (ClientKey req) (Tier req) now)"

section \<open>The scheduler's callback\<close>

definition OnDue :: "BucketStore RefillFunc" where
  "OnDue s i now =
     (if i = globalBucketID then
        (case globalBucket s of
           None \<Rightarrow> (s, zeroTime, False)
         | Some gb \<Rightarrow> let gb' = ScheduledRefill gb now
                      in (s\<lparr>globalBucket := Some gb'\<rparr>, NextRefillTime gb', True))
      else if HasPrefix i ipIDPrefix then
        (let ip = TrimPrefix i ipIDPrefix in
         case gm_lookup (ipBuckets s) ip of
           None \<Rightarrow> (s, zeroTime, False)
         | Some b \<Rightarrow> let b' = ScheduledRefill b now
                     in (s\<lparr>ipBuckets := gm_set ip b' (ipBuckets s)\<rparr>, NextRefillTime b', True))
      else
        (case decodeID i of
           None \<Rightarrow> (s, zeroTime, False)
         | Some (key, tier) \<Rightarrow>
             (case gm_lookup (clients s) key of
                None \<Rightarrow> (s, zeroTime, False)
              | Some cb \<Rightarrow>
                  (case mb_Bucket cb tier of
                     None \<Rightarrow> (s, zeroTime, False)
                   | Some b \<Rightarrow>
                       let b' = ScheduledRefill b now;
                           cb' = cb\<lparr>buckets := gm_set (tier_name tier) b' (buckets cb)\<rparr>
                       in (put_client s key cb', NextRefillTime b', True)))))"

text \<open>A pass of the attached scheduler over its due entries.\<close>

definition store_tick :: "BucketStore \<Rightarrow> gotime \<Rightarrow> BucketStore" where
  "store_tick s now =
     (case scheduler s of
        None \<Rightarrow> s
      | Some sc \<Rightarrow> let (sc', s') = processDue OnDue now (sc, s) in s'\<lparr>scheduler := Some sc'\<rparr>)"

section \<open>Administration\<close>

definition EnsureClient :: "string range_order \<Rightarrow> BucketStore \<Rightarrow> string \<Rightarrow> gotime \<Rightarrow> BucketStore \<times> ClientBuckets" where
  "EnsureClient rng s key now = (let (s1, cb, _) = getOrCreateClient rng s key now in (s1, cb))"

definition UpdateClientConfig :: "string range_order \<Rightarrow> BucketStore \<Rightarrow> string \<Rightarrow> string \<Rightarrow> bucket_Config \<Rightarrow> gotime \<Rightarrow> BucketStore" where
  "UpdateClientConfig rng s key tier0 cfg now =
     (let tier = (if tier0 = [] then DefaultTier else tier0);
          (s1, cb) = EnsureClient rng s key now;
          cb1 = Configure cb tier cfg now;
          s2 = unschedule_id (put_client s1 key cb1) (encodeID key tier)
      in schedule_bucket s2 (encodeID key tier) cfg (mb_Bucket cb1 tier))"

definition TierConfig :: "BucketStore \<Rightarrow> string \<Rightarrow> string \<Rightarrow> bucket_Config" where
  "TierConfig s key tier0 =
     (let tier = (if tier0 = [] then DefaultTier else tier0) in
      case Option.bind (gm_lookup (clients s) key) (\<lambda>cb. mb_Bucket cb tier) of
        Some b \<Rightarrow> bucket_config b
      | None \<Rightarrow> (case gm_lookup (tierDefaults s) tier of
                   Some cfg \<Rightarrow> cfg
                 | None \<Rightarrow> default_config s DefaultTier))"

definition store_Block :: "string range_order \<Rightarrow> BucketStore \<Rightarrow> string \<Rightarrow> gotime \<Rightarrow> BucketStore" where
  "store_Block rng s key now = (let (s1, cb) = EnsureClient rng s key now in put_client s1 key (BlockAll cb))"

definition store_Unblock :: "BucketStore \<Rightarrow> string \<Rightarrow> BucketStore" where
  "store_Unblock s key =
     (case gm_lookup (clients s) key of None \<Rightarrow> s | Some cb \<Rightarrow> put_client s key (UnblockAll cb))"

definition tier_status :: "Bucket \<Rightarrow> TierStatus" where
  "tier_status b = (let cfg = bucket_config b in
     \<lparr>tsTokensRemaining = TokensRemaining b, tsMaxTokens = MaxTokens cfg,
      tsRefillRate = RefillRate cfg, tsRefillIntervalMs = Milliseconds (RefillInterval cfg)\<rparr>)"

definition buildStatus :: "string range_order \<Rightarrow> string \<Rightarrow> ClientBuckets \<Rightarrow> ClientStatus" where
  "buildStatus rng key cb =
     \<lparr>csClientKey = key, csBlocked = mb_IsBlocked cb,
      csTiers = fold (\<lambda>t m. case mb_Bucket cb t of Some b \<Rightarrow> gm_set t (tier_status b) m | None \<Rightarrow> m)
                  (Tiers rng cb) []\<rparr>"

definition store_Status :: "string range_order \<Rightarrow> BucketStore \<Rightarrow> string \<Rightarrow> ClientStatus option" where
  "store_Status rng s key = map_option (buildStatus rng key) (gm_lookup (clients s) key)"

definition ListClients :: "string range_order \<Rightarrow> BucketStore \<Rightarrow> ClientStatus list" where
  "ListClients rng s =
     concat (map (\<lambda>k. case gm_lookup (clients s) k of Some cb \<Rightarrow> [buildStatus rng k cb] | None \<Rightarrow> [])
       (rng (gm_keys (clients s))))"

definition ActiveClients :: "BucketStore \<Rightarrow> int" where
  "ActiveClients s = gm_len (clients s)"

definition Evictions :: "BucketStore \<Rightarrow> int64" where
  "Evictions s = evictions s"

definition SetGlobalConfig :: "BucketStore \<Rightarrow> bucket_Config \<Rightarrow> gotime \<Rightarrow> BucketStore" where
  "SetGlobalConfig s cfg now =
     (let gb = bucket_New cfg now;
          s1 = unschedule_id (s\<lparr>globalBucket := Some gb\<rparr>) globalBucketID
      in schedule_bucket s1 globalBucketID cfg (Some gb))"

definition DisableGlobal :: "BucketStore \<Rightarrow> BucketStore" where
  "DisableGlobal s = unschedule_id (s\<lparr>globalBucket := None\<rparr>) globalBucketID"

definition clear_ip :: "string \<Rightarrow> BucketStore \<Rightarrow> BucketStore" where
  "clear_ip ip s = (let s' = unschedule_id s (ipIDPrefix @ ip) in s'\<lparr>ipBuckets := gm_delete ip (ipBuckets s')\<rparr>)"

definition SetIPLimit :: "string range_order \<Rightarrow> BucketStore \<Rightarrow> bool \<Rightarrow> bucket_Config \<Rightarrow> BucketStore" where
  "SetIPLimit rng s enabled cfg =
     (let s1 = s\<lparr>ipLimitEnabled := enabled, ipConfigPtr := Some cfg\<rparr> in
      if enabled then s1
      else fold clear_ip (rng (gm_keys (ipBuckets s1))) s1)"

end
