(* ===== verification/StoreInvariant.thy ===== *)
theory StoreInvariant
  imports Store
begin

text \<open>
  The invariant of the bucket store and its preservation by every operation.

  \<open>bucket_at\<close> is the store seen the way the scheduler sees it, as one map from scheduler ids
  to buckets.  The central part of the invariant, \<open>synced\<close>, relates that map to the
  scheduler's table: an id is pending exactly when its bucket refills, and never later than
  the bucket's next refill.
\<close>

section \<open>Ids\<close>

text \<open>Client keys the id encoding is injective on: no separator, and not the name that the
  per-IP ids start with.\<close>

definition key_ok :: "string \<Rightarrow> bool" where
  "key_ok k \<longleftrightarrow> k \<noteq> [] \<and> CHR ''|'' \<notin> set k \<and> k \<noteq> ''__ip__''"

lemma cut_append: "c \<notin> set a \<Longrightarrow> cut c (a @ c # b) = Some (a, b)"
  by (induction a) auto

lemma cut_Some: "cut c s = Some (a, b) \<Longrightarrow> s = a @ c # b \<and> c \<notin> set a"
  by (induction s arbitrary: a) (auto split: if_splits)

lemma decode_encode: "CHR ''|'' \<notin> set k \<Longrightarrow> decodeID (encodeID k t) = Some (k, t)"
  by (simp add: decodeID_def encodeID_def cut_append)

lemma decode_Some: "decodeID i = Some (k, t) \<Longrightarrow> i = encodeID k t"
  by (auto simp: decodeID_def encodeID_def dest: cut_Some)

lemma encodeID_inject: "key_ok k \<Longrightarrow> key_ok k' \<Longrightarrow> encodeID k t = encodeID k' t' \<longleftrightarrow> k = k' \<and> t = t'"
  by (metis decode_encode key_ok_def option.inject prod.inject)

lemma HasPrefix_append [simp]: "HasPrefix (p @ s) p" "TrimPrefix (p @ s) p = s"
  by (simp_all add: HasPrefix_def TrimPrefix_def)

lemma HasPrefixD: "HasPrefix s p \<Longrightarrow> s = p @ TrimPrefix s p"
  by (simp add: HasPrefix_def TrimPrefix_def) (metis append_take_drop_id)

lemma encode_no_ip: "key_ok k \<Longrightarrow> \<not> HasPrefix (encodeID k t) ipIDPrefix"
proof
  assume k: "key_ok k" and "HasPrefix (encodeID k t) ipIDPrefix"
  then obtain u where "encodeID k t = encodeID ''__ip__'' u"
    by (auto simp: ipIDPrefix_def encodeID_def dest!: HasPrefixD)
  moreover have "decodeID (encodeID ''__ip__'' u) = Some (''__ip__'', u)" by (simp add: decode_encode)
  moreover have "decodeID (encodeID k t) = Some (k, t)" using k by (simp add: decode_encode key_ok_def)
  ultimately have "k = ''__ip__''" by simp
  with k show False by (simp add: key_ok_def)
qed

lemma encode_not_global [simp]: "encodeID k t \<noteq> globalBucketID"
proof
  assume "encodeID k t = globalBucketID"
  moreover have "CHR ''|'' \<in> set (encodeID k t)" by (simp add: encodeID_def)
  ultimately have "CHR ''|'' \<in> set globalBucketID" by simp
  then show False by (simp add: globalBucketID_def)
qed

lemma ip_not_global [simp]: "ipIDPrefix @ ip \<noteq> globalBucketID" "globalBucketID \<noteq> ipIDPrefix @ ip"
  by (simp_all add: ipIDPrefix_def globalBucketID_def)

lemma global_no_ip [simp]: "\<not> HasPrefix globalBucketID ipIDPrefix"
  by (simp add: HasPrefix_def globalBucketID_def ipIDPrefix_def)

lemma global_no_bar [simp]: "decodeID globalBucketID = None"
  by (simp add: decodeID_def globalBucketID_def)

section \<open>The store as one map\<close>

definition client_bucket :: "BucketStore \<Rightarrow> string \<Rightarrow> string \<Rightarrow> Bucket option" where
  "client_bucket s k t = Option.bind (gm_lookup (clients s) k) (\<lambda>cb. gm_lookup (buckets cb) t)"

lemma client_bucket_cong: "clients s' = clients s \<Longrightarrow> client_bucket s' = client_bucket s"
  by (intro ext) (simp add: client_bucket_def)

lemma client_bucket_other [simp]:
  "client_bucket (s\<lparr>globalBucket := ob\<rparr>) = client_bucket s"
  "client_bucket (s\<lparr>ipBuckets := m\<rparr>) = client_bucket s"
  "client_bucket (s\<lparr>scheduler := x\<rparr>) = client_bucket s"
  "client_bucket (s\<lparr>evictions := n\<rparr>) = client_bucket s"
  "client_bucket (s\<lparr>ipLimitEnabled := e, ipConfigPtr := c\<rparr>) = client_bucket s"
  by (rule client_bucket_cong, simp)+

definition bucket_at :: "BucketStore \<Rightarrow> string \<rightharpoonup> Bucket" where
  "bucket_at s i =
     (if i = globalBucketID then globalBucket s
      else if HasPrefix i ipIDPrefix then gm_lookup (ipBuckets s) (TrimPrefix i ipIDPrefix)
      else Option.bind (decodeID i) (\<lambda>(k, t). client_bucket s k t))"

lemma bucket_at_global [simp]: "bucket_at s globalBucketID = globalBucket s"
  by (simp add: bucket_at_def)

lemma bucket_at_ip [simp]: "bucket_at s (ipIDPrefix @ ip) = gm_lookup (ipBuckets s) ip"
  by (simp add: bucket_at_def)

lemma bucket_at_client: "key_ok k \<Longrightarrow> bucket_at s (encodeID k t) = client_bucket s k t"
  by (simp add: bucket_at_def encode_no_ip decode_encode key_ok_def)

text \<open>How the map changes with the store's fields.\<close>

lemma bucket_at_set_global: "bucket_at (s\<lparr>globalBucket := ob\<rparr>) = (bucket_at s)(globalBucketID := ob)"
  by (rule ext) (simp add: bucket_at_def)

lemma bucket_at_set_ip:
  "bucket_at (s\<lparr>ipBuckets := gm_set ip b (ipBuckets s)\<rparr>) = (bucket_at s)(ipIDPrefix @ ip \<mapsto> b)"
proof (rule ext)
  fix i
  show "bucket_at (s\<lparr>ipBuckets := gm_set ip b (ipBuckets s)\<rparr>) i = ((bucket_at s)(ipIDPrefix @ ip \<mapsto> b)) i"
    using HasPrefixD [of i ipIDPrefix]
    by (auto simp: bucket_at_def gm_lookup_set)
qed

lemma bucket_at_del_ip:
  "bucket_at (s\<lparr>ipBuckets := gm_delete ip (ipBuckets s)\<rparr>) = (bucket_at s)(ipIDPrefix @ ip := None)"
proof (rule ext)
  fix i
  show "bucket_at (s\<lparr>ipBuckets := gm_delete ip (ipBuckets s)\<rparr>) i = ((bucket_at s)(ipIDPrefix @ ip := None)) i"
    using HasPrefixD [of i ipIDPrefix]
    by (auto simp: bucket_at_def gm_lookup_delete)
qed

lemma bucket_at_other [simp]:
  "bucket_at (s\<lparr>scheduler := x\<rparr>) = bucket_at s" "bucket_at (s\<lparr>evictions := n\<rparr>) = bucket_at s"
  "bucket_at (s\<lparr>ipLimitEnabled := e, ipConfigPtr := c\<rparr>) = bucket_at s"
  by (simp_all add: bucket_at_def fun_eq_iff)

text \<open>Replacing a client changes the ids of that client only.\<close>

lemma bucket_at_clients:
  assumes k: "key_ok k" and eq: "\<And>k'. k' \<noteq> k \<Longrightarrow> gm_lookup m k' = gm_lookup (clients s) k'"
  shows "bucket_at (s\<lparr>clients := m\<rparr>) i =
    (case decodeID i of
       Some (k', t) \<Rightarrow> if k' = k then Option.bind (gm_lookup m k) (\<lambda>cb. gm_lookup (buckets cb) t)
                       else bucket_at s i
     | None \<Rightarrow> bucket_at s i)"
proof (cases "decodeID i")
  case None
  then show ?thesis by (simp add: bucket_at_def client_bucket_def)
next
  case (Some p)
  then obtain k' t where p: "decodeID i = Some (k', t)" by (cases p) simp
  then have i: "i = encodeID k' t" by (rule decode_Some)
  show ?thesis
  proof (cases "k' = k")
    case True
    with k i p show ?thesis by (simp add: bucket_at_client client_bucket_def)
  next
    case False
    with p i eq [OF False] show ?thesis by (simp add: bucket_at_def client_bucket_def)
  qed
qed

lemma bucket_at_put_tier:
  assumes "key_ok k" "gm_lookup (clients s) k = Some cb"
  shows "bucket_at (put_client s k (cb\<lparr>buckets := gm_set t b (buckets cb)\<rparr>)) = (bucket_at s)(encodeID k t \<mapsto> b)"
proof (rule ext)
  fix i
  show "bucket_at (put_client s k (cb\<lparr>buckets := gm_set t b (buckets cb)\<rparr>)) i = ((bucket_at s)(encodeID k t \<mapsto> b)) i"
  proof (cases "decodeID i")
    case None
    then have "i \<noteq> encodeID k t" using decode_encode [of k t] assms(1) by (auto simp: key_ok_def)
    with None assms(1) show ?thesis
      by (simp add: put_client_def bucket_at_clients gm_lookup_set)
  next
    case (Some p)
    then obtain k' t' where p: "decodeID i = Some (k', t')" by (cases p) simp
    then have i: "i = encodeID k' t'" by (rule decode_Some)
    have "i = encodeID k t \<longleftrightarrow> k' = k \<and> t' = t"
      using p i decode_encode [of k t] assms(1) unfolding key_ok_def by (metis option.inject prod.inject)
    moreover have "bucket_at s i = gm_lookup (buckets cb) t'" if "k' = k"
      using that i assms by (simp add: bucket_at_client client_bucket_def)
    ultimately show ?thesis using p assms(1)
      by (auto simp: put_client_def bucket_at_clients gm_lookup_set)
  qed
qed

lemma bucket_at_put_map:
  assumes "key_ok k" "gm_lookup (clients s) k = Some cb"
  shows "bucket_at (put_client s k (cb\<lparr>buckets := gm_map f (buckets cb)\<rparr>)) i =
    (if \<exists>t. i = encodeID k t then map_option f (bucket_at s i) else bucket_at s i)"
proof (cases "\<exists>t. i = encodeID k t")
  case True
  then obtain t where i: "i = encodeID k t" ..
  with assms show ?thesis
    by (auto simp: bucket_at_client client_bucket_def put_client_def gm_lookup_set gm_lookup_map)
next
  case False
  then have "case decodeID i of Some (k', t) \<Rightarrow> k' \<noteq> k | None \<Rightarrow> True"
    by (auto split: option.split dest: decode_Some)
  with False assms(1) show ?thesis
    by (auto simp: put_client_def bucket_at_clients gm_lookup_set split: option.splits)
qed

lemma bucket_at_new_client:
  assumes "key_ok k" "gm_lookup (clients s) k = None"
  shows "bucket_at (put_client s k (Configure (mb_New k) DefaultTier cfg now)) =
    (bucket_at s)(encodeID k DefaultTier \<mapsto> bucket_New cfg now)"
proof (rule ext)
  fix i
  show "bucket_at (put_client s k (Configure (mb_New k) DefaultTier cfg now)) i =
    ((bucket_at s)(encodeID k DefaultTier \<mapsto> bucket_New cfg now)) i"
  proof (cases "\<exists>t. i = encodeID k t")
    case True
    then obtain t where i: "i = encodeID k t" ..
    have "encodeID k t = encodeID k DefaultTier \<longleftrightarrow> t = DefaultTier"
      using assms(1) by (simp add: encodeID_inject)
    with i assms show ?thesis
      by (simp add: bucket_at_client client_bucket_def put_client_def gm_lookup_set mb_New_def)
  next
    case False
    then have "case decodeID i of Some (k', t) \<Rightarrow> k' \<noteq> k | None \<Rightarrow> True"
      by (auto split: option.split dest: decode_Some)
    with False assms(1) show ?thesis
      by (auto simp: put_client_def bucket_at_clients gm_lookup_set split: option.splits)
  qed
qed

lemma bucket_at_drop_client:
  assumes "key_ok k"
  shows "bucket_at (s\<lparr>clients := gm_delete k (clients s), evictions := n\<rparr>) i =
    (if \<exists>t. i = encodeID k t then None else bucket_at s i)"
proof (cases "\<exists>t. i = encodeID k t")
  case True
  then obtain t where i: "i = encodeID k t" ..
  with assms show ?thesis by (auto simp: bucket_at_client client_bucket_def gm_lookup_delete)
next
  case False
  then have "case decodeID i of Some (k', t) \<Rightarrow> k' \<noteq> k | None \<Rightarrow> True"
    by (auto split: option.split dest: decode_Some)
  with False have "bucket_at (s\<lparr>clients := gm_delete k (clients s)\<rparr>) i = bucket_at s i"
    using assms by (auto simp: bucket_at_clients gm_lookup_delete split: option.splits)
  with False show ?thesis by simp
qed

section \<open>Buckets and schedule in step\<close>

definition refills :: "Bucket \<Rightarrow> bool" where
  "refills b \<longleftrightarrow> 0 < RefillInterval (configPtr b)"

fun synced1 :: "Bucket option \<Rightarrow> gotime option \<Rightarrow> bool" where
  "synced1 None x = (x = None)"
| "synced1 (Some b) x = (if refills b then \<exists>t. x = Some t \<and> t \<le> NextRefillTime b else x = None)"

definition synced :: "(string \<rightharpoonup> Bucket) \<Rightarrow> (string \<rightharpoonup> gotime) \<Rightarrow> bool" where
  "synced m p \<longleftrightarrow> (\<forall>i. synced1 (m i) (p i))"

definition sync_ok :: "BucketStore \<Rightarrow> bool" where
  "sync_ok s \<longleftrightarrow> (\<forall>sc. scheduler s = Some sc \<longrightarrow> sched_ok sc \<and> synced (bucket_at s) (pending sc))"

text \<open>A bucket replaced by one with the same configuration that is due no earlier.\<close>

definition later :: "Bucket \<Rightarrow> Bucket \<Rightarrow> bool" where
  "later b b' \<longleftrightarrow> configPtr b' = configPtr b \<and> lastRefillTime b \<le> lastRefillTime b'"

lemma later_refl [simp]: "later b b"
  by (simp add: later_def)

lemma synced1_later: "synced1 (Some b) x \<Longrightarrow> later b b' \<Longrightarrow> synced1 (Some b') x"
  by (auto simp: later_def refills_def NextRefillTime_def Let_def timeAdd_def timeUnix_def split: if_splits)

lemma later_Allow:
  assumes "bucket_ok b" "valid_time now"
  shows "later b (fst (bucket_Allow b now))"
proof -
  from assms have "lastRefillTime (fst (bucket_Allow b now)) \<in> {lastRefillTime b, lastRefillTime (refilled b now)}"
    by (cases rule: bucket_Allow_cases) simp_all
  with refilled_clock(1) [OF assms] show ?thesis by (auto simp: later_def)
qed

lemma later_Block [simp]: "later b (bucket_Block b)" "later b (bucket_Unblock b)"
  by (simp_all add: later_def bucket_Block_def bucket_Unblock_def)

lemma synced_upd: "synced m p \<Longrightarrow> synced1 x y \<Longrightarrow> synced (m(i := x)) (p(i := y))"
  by (simp add: synced_def)

lemma synced_later: "synced m p \<Longrightarrow> m i = Some b \<Longrightarrow> later b b' \<Longrightarrow> synced (m(i \<mapsto> b')) p"
  unfolding synced_def by (metis fun_upd_other fun_upd_same synced1_later)

text \<open>The three ways the store touches its scheduler.\<close>

lemma sync_keep:
  assumes "sync_ok s" "scheduler s' = scheduler s"
    and "bucket_at s' = (bucket_at s)(i \<mapsto> b')" "bucket_at s i = Some b" "later b b'"
  shows "sync_ok s'"
  using assms by (auto simp: sync_ok_def intro: synced_later)

lemma sync_unschedule:
  assumes "sync_ok s" "scheduler s' = scheduler s" "bucket_at s' = (bucket_at s)(i := None)"
  shows "sync_ok (unschedule_id s' i)"
  using assms by (auto simp: sync_ok_def unschedule_id_def sched_Remove_correct synced_upd)

lemma bucket_New_refills: "refills (bucket_New cfg now) \<longleftrightarrow> 0 < RefillInterval cfg"
  by (simp add: refills_def bucket_New_def Let_def)

text \<open>A new bucket under an id that is not scheduled.\<close>

lemma sync_new:
  assumes s: "sync_ok s" "scheduler s' = scheduler s" "bucket_at s' = (bucket_at s)(i \<mapsto> bucket_New cfg now)"
    and i: "bucket_at s i = None"
  shows "sync_ok (schedule_bucket s' i cfg (Some (bucket_New cfg now)))"
proof -
  have none: "pending sc i = None" if "scheduler s = Some sc" for sc
    using s(1) that i unfolding sync_ok_def synced_def by (metis synced1.simps(1))
  show ?thesis
  proof (cases "0 < RefillInterval cfg")
    case True
    then have "synced1 (Some (bucket_New cfg now)) (Some (NextRefillTime (bucket_New cfg now)))"
      by (simp add: bucket_New_refills)
    with s True show ?thesis
      by (auto simp: sync_ok_def schedule_bucket_def schedule_id_def Schedule_correct synced_upd)
  next
    case False
    have "synced (bucket_at s') (pending sc)" if "scheduler s = Some sc" for sc
    proof -
      have "synced ((bucket_at s)(i \<mapsto> bucket_New cfg now)) ((pending sc)(i := None))"
        using s(1) that False by (intro synced_upd) (auto simp: sync_ok_def bucket_New_refills)
      with none [OF that] s(3) show ?thesis by (simp add: fun_upd_idem)
    qed
    with s False show ?thesis by (auto simp: sync_ok_def schedule_bucket_def)
  qed
qed

text \<open>A bucket replaced by a new one: the old entry is removed first.\<close>

lemma sync_replace:
  assumes s: "sync_ok s" "scheduler s' = scheduler s" "bucket_at s' = (bucket_at s)(i \<mapsto> bucket_New cfg now)"
  shows "sync_ok (schedule_bucket (unschedule_id s' i) i cfg (Some (bucket_New cfg now)))"
proof -
  define sc' where "sc' = (\<lambda>sc. if 0 < RefillInterval cfg
      then Schedule (sched_Remove sc i) i (NextRefillTime (bucket_New cfg now)) else sched_Remove sc i)"
  have "sched_ok (sc' sc) \<and> synced (bucket_at s') (pending (sc' sc))" if "scheduler s = Some sc" for sc
  proof -
    from s(1) that have sc: "sched_ok sc" "synced (bucket_at s) (pending sc)" by (auto simp: sync_ok_def)
    show ?thesis
    proof (cases "0 < RefillInterval cfg")
      case True
      then have "synced1 (Some (bucket_New cfg now)) (Some (NextRefillTime (bucket_New cfg now)))"
        by (simp add: bucket_New_refills)
      then have "synced (bucket_at s') ((pending sc)(i \<mapsto> NextRefillTime (bucket_New cfg now)))"
        unfolding s(3) by (rule synced_upd [OF sc(2)])
      with True sc(1) show ?thesis
        by (simp add: sc'_def st.replace_table Schedule_correct sched_Remove_correct)
    next
      case False
      then have "synced (bucket_at s') ((pending sc)(i := None))"
        unfolding s(3) by (intro synced_upd [OF sc(2)]) (simp add: bucket_New_refills)
      with False sc(1) show ?thesis by (simp add: sc'_def sched_Remove_correct)
    qed
  qed
  then show ?thesis
    using s(2) by (auto simp: sync_ok_def schedule_bucket_def schedule_id_def unschedule_id_def sc'_def
        split: if_splits)
qed

section \<open>The invariant\<close>

definition good_client :: "string \<Rightarrow> ClientBuckets \<Rightarrow> bool" where
  "good_client k cb \<longleftrightarrow> key_ok k \<and> client_ok cb \<and> clientKey cb = k \<and> gm_lookup (buckets cb) [] = None"

definition ips_ok :: "BucketStore \<Rightarrow> bool" where
  "ips_ok s \<longleftrightarrow> gm_ok (ipBuckets s) \<and> gm_len (ipBuckets s) \<le> ipBucketCap s \<and> 0 < ipBucketCap s
     \<and> gm_lookup (ipBuckets s) [] = None \<and> (\<forall>ip b. gm_lookup (ipBuckets s) ip = Some b \<longrightarrow> bucket_ok b)
     \<and> (\<forall>c. ipConfigPtr s = Some c \<longrightarrow> cfg_safe c)"

definition clients_ok :: "BucketStore \<Rightarrow> bool" where
  "clients_ok s \<longleftrightarrow> gm_ok (clients s) \<and> (\<forall>k cb. gm_lookup (clients s) k = Some cb \<longrightarrow> good_client k cb)
     \<and> (maxClients s > 0 \<longrightarrow> gm_len (clients s) \<le> maxClients s)"

definition defaults_ok :: "BucketStore \<Rightarrow> bool" where
  "defaults_ok s \<longleftrightarrow> gm_lookup (tierDefaults s) DefaultTier \<noteq> None
     \<and> (\<forall>t c. gm_lookup (tierDefaults s) t = Some c \<longrightarrow> cfg_safe c)"

definition global_ok :: "BucketStore \<Rightarrow> bool" where
  "global_ok s \<longleftrightarrow> (\<forall>b. globalBucket s = Some b \<longrightarrow> bucket_ok b)"

definition store_ok :: "BucketStore \<Rightarrow> bool" where
  "store_ok s \<longleftrightarrow> clients_ok s \<and> ips_ok s \<and> global_ok s \<and> defaults_ok s \<and> sync_ok s"

lemma store_okD:
  assumes "store_ok s"
  shows "clients_ok s" "ips_ok s" "global_ok s" "defaults_ok s" "sync_ok s"
  using assms by (simp_all add: store_ok_def)

lemma clients_okD:
  assumes "clients_ok s" "gm_lookup (clients s) k = Some cb"
  shows "key_ok k" "client_ok cb" "clientKey cb = k" "gm_lookup (buckets cb) [] = None" "good_client k cb"
  using assms by (auto simp: clients_ok_def good_client_def)

lemma default_config_safe: "defaults_ok s \<Longrightarrow> cfg_safe (default_config s DefaultTier)"
  by (auto simp: defaults_ok_def default_config_def split: option.splits)

text \<open>The parts of the invariant only read the fields they are about.\<close>

lemma store_okI:
  assumes "store_ok s" "sync_ok s'" "tierDefaults s' = tierDefaults s"
    "clients s' = clients s \<and> maxClients s' = maxClients s \<or> clients_ok s'"
    "ipBuckets s' = ipBuckets s \<and> ipBucketCap s' = ipBucketCap s \<and> ipConfigPtr s' = ipConfigPtr s \<or> ips_ok s'"
    "globalBucket s' = globalBucket s \<or> global_ok s'"
  shows "store_ok s'"
proof -
  have "clients_ok s'" using assms(1,4) by (auto simp: store_ok_def clients_ok_def)
  moreover have "ips_ok s'" using assms(1,5) by (auto simp: store_ok_def ips_ok_def)
  moreover have "global_ok s'" using assms(1,6) by (auto simp: store_ok_def global_ok_def)
  moreover have "defaults_ok s'" using assms(1,3) by (simp add: store_ok_def defaults_ok_def)
  ultimately show ?thesis using assms(2) by (simp add: store_ok_def)
qed

lemma schedule_id_fields [simp]:
  "clients (schedule_id s i t) = clients s" "maxClients (schedule_id s i t) = maxClients s"
  "ipBuckets (schedule_id s i t) = ipBuckets s" "ipBucketCap (schedule_id s i t) = ipBucketCap s"
  "ipConfigPtr (schedule_id s i t) = ipConfigPtr s" "tierDefaults (schedule_id s i t) = tierDefaults s"
  "globalBucket (schedule_id s i t) = globalBucket s" "ipLimitEnabled (schedule_id s i t) = ipLimitEnabled s"
  "evictions (schedule_id s i t) = evictions s"
  by (simp_all add: schedule_id_def)

lemma unschedule_id_fields [simp]:
  "clients (unschedule_id s i) = clients s" "maxClients (unschedule_id s i) = maxClients s"
  "ipBuckets (unschedule_id s i) = ipBuckets s" "ipBucketCap (unschedule_id s i) = ipBucketCap s"
  "ipConfigPtr (unschedule_id s i) = ipConfigPtr s" "tierDefaults (unschedule_id s i) = tierDefaults s"
  "globalBucket (unschedule_id s i) = globalBucket s" "ipLimitEnabled (unschedule_id s i) = ipLimitEnabled s"
  "evictions (unschedule_id s i) = evictions s"
  by (simp_all add: unschedule_id_def)

lemma schedule_bucket_fields [simp]:
  "clients (schedule_bucket s i c ob) = clients s" "maxClients (schedule_bucket s i c ob) = maxClients s"
  "ipBuckets (schedule_bucket s i c ob) = ipBuckets s" "ipBucketCap (schedule_bucket s i c ob) = ipBucketCap s"
  "ipConfigPtr (schedule_bucket s i c ob) = ipConfigPtr s" "tierDefaults (schedule_bucket s i c ob) = tierDefaults s"
  "globalBucket (schedule_bucket s i c ob) = globalBucket s" "ipLimitEnabled (schedule_bucket s i c ob) = ipLimitEnabled s"
  "evictions (schedule_bucket s i c ob) = evictions s"
  by (simp_all add: schedule_bucket_def split: option.split)

lemma put_client_fields [simp]:
  "clients (put_client s k cb) = gm_set k cb (clients s)" "maxClients (put_client s k cb) = maxClients s"
  "ipBuckets (put_client s k cb) = ipBuckets s" "ipBucketCap (put_client s k cb) = ipBucketCap s"
  "ipConfigPtr (put_client s k cb) = ipConfigPtr s" "tierDefaults (put_client s k cb) = tierDefaults s"
  "globalBucket (put_client s k cb) = globalBucket s" "scheduler (put_client s k cb) = scheduler s"
  "ipLimitEnabled (put_client s k cb) = ipLimitEnabled s" "evictions (put_client s k cb) = evictions s"
  by (simp_all add: put_client_def)

lemma put_known_client:
  assumes "clients_ok s" "gm_lookup (clients s) k = Some cb0" "good_client k cb"
  shows "clients_ok (put_client s k cb)"
  using assms by (auto simp: clients_ok_def gm_lookup_set gm.len_upd)

lemma put_new_client:
  assumes "clients_ok s" "gm_lookup (clients s) k = None" "good_client k cb"
    "maxClients s > 0 \<Longrightarrow> gm_len (clients s) < maxClients s"
  shows "clients_ok (put_client s k cb)"
  using assms by (auto simp: clients_ok_def gm_lookup_set gm.len_upd)

section \<open>Eviction\<close>

lemma oldest_least:
  assumes "ks \<noteq> []"
  shows "oldest la ks \<in> set ks \<and> (\<forall>k\<in>set ks. la (oldest la ks) \<le> la k)"
proof -
  have scan: "\<exists>k0\<in>insert k1 (set ks). fold (scan_oldest la) ks (k1, la k1, False) = (k0, la k0, False)
     \<and> (\<forall>k\<in>insert k1 (set ks). la k0 \<le> la k)" for k1 ks
  proof (induction ks arbitrary: k1)
    case (Cons k ks)
    let ?k = "if la k < la k1 then k else k1"
    have "fold (scan_oldest la) (k # ks) (k1, la k1, False) = fold (scan_oldest la) ks (?k, la ?k, False)"
      by (simp add: scan_oldest_def Before_def)
    moreover obtain k0 where "k0 \<in> insert ?k (set ks)"
      "fold (scan_oldest la) ks (?k, la ?k, False) = (k0, la k0, False)"
      "\<forall>k\<in>insert ?k (set ks). la k0 \<le> la k" using Cons by blast
    ultimately show ?case by (intro bexI [of _ k0]) (auto split: if_splits)
  qed simp
  from assms obtain k ks' where ks: "ks = k # ks'" by (cases ks) auto
  have "fold (scan_oldest la) ks ([], zeroTime, True) = fold (scan_oldest la) ks' (k, la k, False)"
    by (simp add: ks scan_oldest_def)
  with scan [of k ks'] ks show ?thesis unfolding oldest_def by auto
qed

lemma gm_len_0 [simp]: "gm_len m = 0 \<longleftrightarrow> m = []"
  by (simp add: gm_len_def)

lemma oldest_in_map:
  assumes "is_range rng" "m \<noteq> []"
  shows "\<exists>v. gm_lookup m (oldest la (rng (gm_keys m))) = Some v"
    "gm_lookup m k = Some w \<Longrightarrow> la (oldest la (rng (gm_keys m))) \<le> la k"
proof -
  have ne: "rng (gm_keys m) \<noteq> []"
    using is_range_set [OF assms(1), of "gm_keys m"] assms(2) by (auto simp: gm_keys_def)
  note o = oldest_least [OF ne, of la]
  show "\<exists>v. gm_lookup m (oldest la (rng (gm_keys m))) = Some v"
    using o is_range_set [OF assms(1), of "gm_keys m"] gm_keys_lookup [of _ m] by auto
  show "la (oldest la (rng (gm_keys m))) \<le> la k" if "gm_lookup m k = Some w"
    using o is_range_set [OF assms(1), of "gm_keys m"] gm_keys_lookup [of k m] that by auto
qed

lemma unschedule_fold:
  "fold (\<lambda>tier s. unschedule_id s (f tier)) ts s =
   s\<lparr>scheduler := map_option (\<lambda>sc. st.remove_all sc (map f ts)) (scheduler s)\<rparr>"
  by (induction ts arbitrary: s)
    (simp_all add: unschedule_id_def st.remove_all_def option.map_comp comp_def option.map_ident)

lemma sync_drop_client:
  assumes sync: "sync_ok s" and k: "key_ok k" "gm_lookup (clients s) k = Some cb"
    and ts: "set ts = set (gm_keys (buckets cb))"
  shows "sync_ok (s\<lparr>clients := gm_delete k (clients s), evictions := n,
    scheduler := map_option (\<lambda>sc. st.remove_all sc (map (encodeID k) ts)) (scheduler s)\<rparr>)"
  unfolding sync_ok_def
proof (intro allI impI)
  let ?s = "s\<lparr>clients := gm_delete k (clients s), evictions := n,
    scheduler := map_option (\<lambda>sc. st.remove_all sc (map (encodeID k) ts)) (scheduler s)\<rparr>"
  fix sc' assume "scheduler ?s = Some sc'"
  then obtain sc where sc: "scheduler s = Some sc" "sc' = st.remove_all sc (map (encodeID k) ts)" by auto
  from sync sc(1) have ok: "sched_ok sc" "synced (bucket_at s) (pending sc)" by (auto simp: sync_ok_def)
  have P: "sched_ok sc'" "pending sc' i = (if i \<in> set (map (encodeID k) ts) then None else pending sc i)" for i
    using st.remove_all_correct [OF ok(1), of "map (encodeID k) ts"] by (simp_all add: sc(2))
  have "synced1 (bucket_at ?s i) (pending sc' i)" for i
  proof (cases "\<exists>t. i = encodeID k t")
    case True
    then obtain t where i: "i = encodeID k t" ..
    have "bucket_at ?s i = None" using bucket_at_drop_client [where s = s and n = n and i = i, OF k(1)] True by auto
    moreover have "pending sc' i = None"
    proof (cases "t \<in> set ts")
      case True
      with i show ?thesis by (simp add: P(2))
    next
      case False
      then have "bucket_at s i = None"
        using i k ts gm_lookup_None [of "buckets cb" t] by (simp add: bucket_at_client client_bucket_def)
      then have "pending sc i = None" using ok(2) unfolding synced_def by (metis synced1.simps(1))
      then show ?thesis by (simp add: P(2))
    qed
    ultimately show ?thesis by simp
  next
    case False
    then have "bucket_at ?s i = bucket_at s i" "pending sc' i = pending sc i"
      using bucket_at_drop_client [where s = s and n = n and i = i, OF k(1)] by (auto simp: P(2))
    with ok(2) show ?thesis by (simp add: synced_def)
  qed
  with P(1) show "sched_ok sc' \<and> synced (bucket_at ?s) (pending sc')" by (simp add: synced_def)
qed

lemma evictLRU_effect:
  assumes ok: "store_ok s" and rng: "is_range rng" and ne: "clients s \<noteq> []"
  obtains k cb sc where "gm_lookup (clients s) k = Some cb"
    "\<forall>k' cb'. gm_lookup (clients s) k' = Some cb' \<longrightarrow> mb_LastAccess cb \<le> mb_LastAccess cb'"
    "evictLRULocked rng s = s\<lparr>clients := gm_delete k (clients s), evictions := i64 (evictions s + 1), scheduler := sc\<rparr>"
    "sync_ok (evictLRULocked rng s)"
proof -
  let ?k = "oldest (client_access s) (rng (gm_keys (clients s)))"
  obtain cb where cb: "gm_lookup (clients s) ?k = Some cb"
    using oldest_in_map(1) [OF rng ne] by blast
  note ck = clients_okD [OF store_okD(1) [OF ok] cb]
  have least: "mb_LastAccess cb \<le> mb_LastAccess cb'" if "gm_lookup (clients s) k' = Some cb'" for k' cb'
    using oldest_in_map(2) [OF rng ne that, of "client_access s"] cb that by (simp add: client_access_def)
  let ?s = "s\<lparr>clients := gm_delete ?k (clients s), evictions := i64 (evictions s + 1)\<rparr>"
  have "?k \<noteq> []" using ck(1) by (auto simp: key_ok_def)
  with ne cb have E: "evictLRULocked rng s = s\<lparr>clients := gm_delete ?k (clients s), evictions := i64 (evictions s + 1),
      scheduler := map_option (\<lambda>sc. st.remove_all sc (map (encodeID ?k) (Tiers rng cb))) (scheduler s)\<rparr>"
    unfolding evictLRULocked_def Let_def unschedule_fold by simp
  moreover have "sync_ok (evictLRULocked rng s)"
    unfolding E using is_range_set [OF rng] by (intro sync_drop_client [OF store_okD(5) [OF ok] ck(1) cb])
      (simp add: Tiers_def)
  ultimately show thesis using that cb least by blast
qed

lemma evictLRU_ok:
  assumes ok: "store_ok s" and rng: "is_range rng" and ne: "clients s \<noteq> []"
  shows "store_ok (evictLRULocked rng s)" "gm_len (clients (evictLRULocked rng s)) = gm_len (clients s) - 1"
    "maxClients (evictLRULocked rng s) = maxClients s"
    "gm_lookup (clients s) key = None \<Longrightarrow> gm_lookup (clients (evictLRULocked rng s)) key = None"
    "tierDefaults (evictLRULocked rng s) = tierDefaults s"
proof -
  obtain k cb sc where E: "gm_lookup (clients s) k = Some cb"
    "evictLRULocked rng s = s\<lparr>clients := gm_delete k (clients s), evictions := i64 (evictions s + 1), scheduler := sc\<rparr>"
    "sync_ok (evictLRULocked rng s)"
    by (rule evictLRU_effect [OF ok rng ne])
  have g: "gm_ok (clients s)" using store_okD(1) [OF ok] by (simp add: clients_ok_def)
  have len: "gm_len (gm_delete k (clients s)) = gm_len (clients s) - 1" by (rule gm_len_delete_old [OF g E(1)])
  have "clients_ok (evictLRULocked rng s)"
    using store_okD(1) [OF ok] len by (auto simp: E(2) clients_ok_def gm_lookup_delete)
  then show "store_ok (evictLRULocked rng s)"
    by (intro store_okI [OF ok E(3)]) (simp_all add: E(2))
  show "gm_len (clients (evictLRULocked rng s)) = gm_len (clients s) - 1"
    "maxClients (evictLRULocked rng s) = maxClients s"
    "gm_lookup (clients s) key = None \<Longrightarrow> gm_lookup (clients (evictLRULocked rng s)) key = None"
    "tierDefaults (evictLRULocked rng s) = tierDefaults s"
    by (simp_all add: E(2) len gm_lookup_delete)
qed

lemma evictIP_ok:
  assumes ok: "store_ok s" and rng: "is_range rng" and ne: "ipBuckets s \<noteq> []"
  shows "store_ok (evictOldestIPLocked rng s)"
    "gm_len (ipBuckets (evictOldestIPLocked rng s)) = gm_len (ipBuckets s) - 1"
    "ipBucketCap (evictOldestIPLocked rng s) = ipBucketCap s"
    "gm_lookup (ipBuckets s) ip = None \<Longrightarrow> gm_lookup (ipBuckets (evictOldestIPLocked rng s)) ip = None"
    "globalBucket (evictOldestIPLocked rng s) = globalBucket s"
proof -
  let ?k = "oldest (ip_access s) (rng (gm_keys (ipBuckets s)))"
  obtain b where b: "gm_lookup (ipBuckets s) ?k = Some b" using oldest_in_map(1) [OF rng ne] by blast
  have "?k \<noteq> []" using b store_okD(2) [OF ok] by (auto simp: ips_ok_def)
  with ne have E: "evictOldestIPLocked rng s =
      unschedule_id (s\<lparr>ipBuckets := gm_delete ?k (ipBuckets s)\<rparr>) (ipIDPrefix @ ?k)"
    by (simp add: evictOldestIPLocked_def Let_def)
  have g: "gm_ok (ipBuckets s)" using store_okD(2) [OF ok] by (simp add: ips_ok_def)
  have len: "gm_len (gm_delete ?k (ipBuckets s)) = gm_len (ipBuckets s) - 1" by (rule gm_len_delete_old [OF g b])
  have "sync_ok (evictOldestIPLocked rng s)"
    unfolding E by (rule sync_unschedule [OF store_okD(5) [OF ok]]) (simp_all add: bucket_at_del_ip)
  moreover have "ips_ok (evictOldestIPLocked rng s)"
    using store_okD(2) [OF ok] len by (auto simp: E ips_ok_def gm_lookup_delete)
  ultimately show "store_ok (evictOldestIPLocked rng s)"
    by (intro store_okI [OF ok]) (simp_all add: E)
  show "gm_len (ipBuckets (evictOldestIPLocked rng s)) = gm_len (ipBuckets s) - 1"
    "ipBucketCap (evictOldestIPLocked rng s) = ipBucketCap s"
    "gm_lookup (ipBuckets s) ip = None \<Longrightarrow> gm_lookup (ipBuckets (evictOldestIPLocked rng s)) ip = None"
    "globalBucket (evictOldestIPLocked rng s) = globalBucket s"
    by (simp_all add: E len gm_lookup_delete)
qed

section \<open>Finding or creating buckets\<close>

lemma mb_Bucket_Configure [simp]: "mb_Bucket (Configure cb t cfg now) t = Some (bucket_New cfg now)"
  by (simp add: mb_Bucket_def)

lemma good_client_New:
  "key_ok k \<Longrightarrow> cfg_safe cfg \<Longrightarrow> valid_time now \<Longrightarrow> good_client k (Configure (mb_New k) DefaultTier cfg now)"
  by (simp add: good_client_def Configure_New_ok) (simp add: mb_New_def DefaultTier_def)

lemma tier_name_nonempty [simp]: "tier_name t \<noteq> []"
  by (simp add: tier_name_def DefaultTier_def)

lemma good_client_Configure:
  "good_client k cb \<Longrightarrow> cfg_safe cfg \<Longrightarrow> valid_time now \<Longrightarrow> good_client k (Configure cb t cfg now)"
  by (simp add: good_client_def Configure_ok tier_name_nonempty [symmetric])

text \<open>The room made before a client is added.\<close>

definition room_for :: "string range_order \<Rightarrow> BucketStore \<Rightarrow> BucketStore" where
  "room_for rng s = (if maxClients s > 0 \<and> gm_len (clients s) \<ge> maxClients s then evictLRULocked rng s else s)"

lemma room_for_ok:
  assumes "store_ok s" "is_range rng"
  shows "store_ok (room_for rng s)"
    "maxClients (room_for rng s) > 0 \<Longrightarrow> gm_len (clients (room_for rng s)) < maxClients (room_for rng s)"
    "gm_lookup (clients s) k = None \<Longrightarrow> gm_lookup (clients (room_for rng s)) k = None"
    "globalBucket (room_for rng s) = globalBucket s" "tierDefaults (room_for rng s) = tierDefaults s"
proof -
  have ne: "clients s \<noteq> []" if "maxClients s > 0" "gm_len (clients s) \<ge> maxClients s"
    using that gm_len_0 [of "clients s"] by fastforce
  have le: "gm_len (clients s) \<le> maxClients s" if "maxClients s > 0"
    using store_okD(1) [OF assms(1)] that by (simp add: clients_ok_def)
  show "store_ok (room_for rng s)"
    "maxClients (room_for rng s) > 0 \<Longrightarrow> gm_len (clients (room_for rng s)) < maxClients (room_for rng s)"
    "gm_lookup (clients s) k = None \<Longrightarrow> gm_lookup (clients (room_for rng s)) k = None"
    "tierDefaults (room_for rng s) = tierDefaults s"
    using evictLRU_ok [OF assms ne] le assms(1) unfolding room_for_def by (auto split: if_splits)
  show "globalBucket (room_for rng s) = globalBucket s"
    using evictLRU_effect [OF assms ne] unfolding room_for_def by (force split: if_splits)
qed

lemma getOrCreateClient_new:
  assumes "gm_lookup (clients s) key = None"
  shows "getOrCreateClient rng s key now =
    (let s1 = room_for rng s; cfg = default_config s1 DefaultTier; cb = Configure (mb_New key) DefaultTier cfg now
     in (schedule_bucket (put_client s1 key cb) (encodeID key DefaultTier) cfg (Some (bucket_New cfg now)), cb, True))"
  using assms unfolding getOrCreateClient_def room_for_def put_client_def Let_def by simp

lemma getOrCreateClient_ok:
  assumes "store_ok s" "is_range rng" "key_ok key" "valid_time now"
    and r: "getOrCreateClient rng s key now = (s', cb, new)"
  shows "store_ok s' \<and> gm_lookup (clients s') key = Some cb \<and> good_client key cb
    \<and> globalBucket s' = globalBucket s \<and> new = (gm_lookup (clients s) key = None)
    \<and> (\<not> new \<longrightarrow> s' = s)"
proof (cases "gm_lookup (clients s) key")
  case (Some cb0)
  then show ?thesis using r assms(1) clients_okD(5) [OF store_okD(1) [OF assms(1)] Some]
    by (auto simp: getOrCreateClient_def)
next
  case None
  let ?s1 = "room_for rng s"
  let ?cfg = "default_config ?s1 DefaultTier"
  let ?cb = "Configure (mb_New key) DefaultTier ?cfg now"
  note room = room_for_ok [OF assms(1,2)]
  note fresh = room(3) [OF None]
  have cfg: "cfg_safe ?cfg" by (rule default_config_safe [OF store_okD(4) [OF room(1)]])
  have good: "good_client key ?cb" by (rule good_client_New [OF assms(3) cfg assms(4)])
  have eq: "s' = schedule_bucket (put_client ?s1 key ?cb) (encodeID key DefaultTier) ?cfg (Some (bucket_New ?cfg now))"
    "cb = ?cb" "new"
    using r None by (auto simp: getOrCreateClient_new Let_def)
  have "sync_ok s'" unfolding eq(1)
    by (rule sync_new [OF store_okD(5) [OF room(1)] _ bucket_at_new_client [OF assms(3) fresh]])
      (simp_all add: bucket_at_client assms(3) client_bucket_def fresh)
  moreover have "clients_ok s'"
  proof -
    have "clients_ok (put_client ?s1 key ?cb)"
      by (rule put_new_client [OF store_okD(1) [OF room(1)] fresh good room(2)])
    then show ?thesis by (simp add: eq(1) clients_ok_def)
  qed
  ultimately have "store_ok s'" by (intro store_okI [OF room(1)]) (simp_all add: eq(1))
  with good show ?thesis by (simp add: eq room(4) None gm_lookup_set)
qed

lemma sync_new_tier:
  assumes "sync_ok s" "key_ok k" "gm_lookup (clients s) k = Some cb" "gm_lookup (buckets cb) (tier_name t) = None"
  shows "sync_ok (schedule_bucket (put_client s k (Configure cb t cfg now)) (encodeID k (tier_name t)) cfg
    (Some (bucket_New cfg now)))"
  by (rule sync_new [OF assms(1)])
    (simp_all add: Configure_def bucket_at_put_tier assms bucket_at_client client_bucket_def)

lemma ensureTier_ok:
  assumes "store_ok s" "gm_lookup (clients s) key = Some cb" "valid_time now"
    and r: "ensureTier s cb tier now = (s', cb')"
  shows "store_ok s' \<and> gm_lookup (clients s') key = Some cb' \<and> globalBucket s' = globalBucket s
    \<and> (mb_IsBlocked cb' = mb_IsBlocked cb)"
proof (cases "s' = s \<and> cb' = cb")
  case False
  note c = clients_okD [OF store_okD(1) [OF assms(1)] assms(2)]
  from False r obtain cfg where t: "tier \<noteq> []" "mb_Bucket cb tier = None" "gm_lookup (tierDefaults s) tier = Some cfg"
    by (auto simp: ensureTier_def split: if_splits option.splits)
  let ?cb = "Configure cb tier cfg now"
  from False r t c(3) have eq: "cb' = ?cb"
    "s' = schedule_bucket (put_client s key ?cb) (encodeID key (tier_name tier)) cfg (Some (bucket_New cfg now))"
    by (auto simp: ensureTier_def Let_def mb_Key_def tier_name_id split: if_splits)
  have cfg: "cfg_safe cfg" using store_okD(4) [OF assms(1)] t(3) by (auto simp: defaults_ok_def)
  have "sync_ok s'" unfolding eq(2)
    by (rule sync_new_tier [OF store_okD(5) [OF assms(1)] c(1) assms(2)]) (use t in \<open>simp add: mb_Bucket_def\<close>)
  moreover have "clients_ok s'"
  proof -
    have "clients_ok (put_client s key ?cb)"
      by (rule put_known_client [OF store_okD(1) [OF assms(1)] assms(2) good_client_Configure [OF c(5) cfg assms(3)]])
    then show ?thesis by (simp add: eq(2) clients_ok_def)
  qed
  ultimately have "store_ok s'" by (intro store_okI [OF assms(1)]) (simp_all add: eq(2))
  moreover have "mb_IsBlocked ?cb = mb_IsBlocked cb"
  proof -
    have "gm_ok (buckets cb)" "gm_ok (buckets ?cb)" using c(2) by (simp_all add: client_ok_def Configure_def)
    moreover have "\<not> blocked (bucket_New cfg now)" by (simp add: bucket_New_def Let_def)
    ultimately show ?thesis using t(1,2)
      by (auto simp: mb_IsBlocked_iff mb_Bucket_def tier_name_id) (metis option.distinct(1))
  qed
  ultimately show ?thesis by (simp add: eq gm_lookup_set)
qed (use assms in auto)

lemma builtin_safe [simp]: "cfg_safe builtin_ip_default" "cfg_safe builtin_default"
  by (simp_all add: cfg_safe_def builtin_ip_default_def builtin_default_def max_i64_def is_i64_def Second_def)

definition ip_room_for :: "string range_order \<Rightarrow> BucketStore \<Rightarrow> BucketStore" where
  "ip_room_for rng s = (if gm_len (ipBuckets s) \<ge> ipBucketCap s then evictOldestIPLocked rng s else s)"

definition ip_config :: "BucketStore \<Rightarrow> bucket_Config" where
  "ip_config s = (case ipConfigPtr s of Some c \<Rightarrow> c | None \<Rightarrow> builtin_ip_default)"

lemma ip_room_for_ok:
  assumes "store_ok s" "is_range rng"
  shows "store_ok (ip_room_for rng s)" "gm_len (ipBuckets (ip_room_for rng s)) < ipBucketCap (ip_room_for rng s)"
    "gm_lookup (ipBuckets s) ip = None \<Longrightarrow> gm_lookup (ipBuckets (ip_room_for rng s)) ip = None"
    "globalBucket (ip_room_for rng s) = globalBucket s"
proof -
  have cap: "0 < ipBucketCap s" "gm_len (ipBuckets s) \<le> ipBucketCap s"
    using store_okD(2) [OF assms(1)] by (simp_all add: ips_ok_def)
  then have ne: "ipBuckets s \<noteq> []" if "ipBucketCap s \<le> gm_len (ipBuckets s)"
    using that gm_len_0 [of "ipBuckets s"] by fastforce
  show "store_ok (ip_room_for rng s)" "gm_len (ipBuckets (ip_room_for rng s)) < ipBucketCap (ip_room_for rng s)"
    "gm_lookup (ipBuckets s) ip = None \<Longrightarrow> gm_lookup (ipBuckets (ip_room_for rng s)) ip = None"
    "globalBucket (ip_room_for rng s) = globalBucket s"
    using evictIP_ok [OF assms ne] cap assms(1) unfolding ip_room_for_def by (auto split: if_splits)
qed

lemma put_new_ip:
  assumes "ips_ok s" "ip \<noteq> []" "bucket_ok b"
    "gm_lookup (ipBuckets s) ip = None \<Longrightarrow> gm_len (ipBuckets s) < ipBucketCap s"
  shows "ips_ok (s\<lparr>ipBuckets := gm_set ip b (ipBuckets s)\<rparr>)"
  using assms by (auto simp: ips_ok_def gm_lookup_set gm.len_upd)

lemma getOrCreateIPBucket_ok:
  assumes "store_ok s" "is_range rng" "ip \<noteq> []" "valid_time now"
    and r: "getOrCreateIPBucket rng s ip now = (s', b)"
  shows "store_ok s' \<and> gm_lookup (ipBuckets s') ip = Some b \<and> bucket_ok b \<and> globalBucket s' = globalBucket s"
proof (cases "gm_lookup (ipBuckets s) ip")
  case (Some b0)
  with r assms(1) show ?thesis by (auto simp: getOrCreateIPBucket_def store_ok_def ips_ok_def)
next
  case None
  let ?s1 = "ip_room_for rng s" and ?c = "ip_config s"
  note room = ip_room_for_ok [OF assms(1,2)]
  let ?s2 = "?s1\<lparr>ipBuckets := gm_set ip (bucket_New ?c now) (ipBuckets ?s1)\<rparr>"
  have eq: "b = bucket_New ?c now" "s' = schedule_bucket ?s2 (ipIDPrefix @ ip) ?c (Some (bucket_New ?c now))"
    using r None by (auto simp: getOrCreateIPBucket_def ip_room_for_def ip_config_def Let_def)
  have "cfg_safe ?c" using store_okD(2) [OF assms(1)] by (auto simp: ips_ok_def ip_config_def split: option.split)
  then have bok: "bucket_ok (bucket_New ?c now)" using assms(4) by (rule bucket_New_ok)
  have "sync_ok s'" unfolding eq(2)
    by (rule sync_new [OF store_okD(5) [OF room(1)] _ bucket_at_set_ip]) (simp_all add: room(3) [OF None])
  moreover have "ips_ok s'"
    using put_new_ip [OF store_okD(2) [OF room(1)] assms(3) bok] room(2) by (simp add: eq(2) ips_ok_def)
  ultimately have "store_ok s'" by (intro store_okI [OF room(1)]) (simp_all add: eq(2))
  with bok show ?thesis by (simp add: eq room(4) gm_lookup_set)
qed

section \<open>The gates\<close>

lemma global_gate_ok:
  assumes "store_ok s" "valid_time now"
  shows "store_ok (fst (global_gate s now))"
    "globalBucket (fst (global_gate s now)) = map_option (\<lambda>b. fst (bucket_Allow b now)) (globalBucket s)"
proof -
  show g: "globalBucket (fst (global_gate s now)) = map_option (\<lambda>b. fst (bucket_Allow b now)) (globalBucket s)"
    by (simp add: global_gate_def case_prod_beta Let_def split: option.split)
  show "store_ok (fst (global_gate s now))"
  proof (cases "globalBucket s")
    case (Some gb)
    with assms(1) have gb: "bucket_ok gb" by (auto simp: store_ok_def global_ok_def)
    have E: "fst (global_gate s now) = s\<lparr>globalBucket := Some (fst (bucket_Allow gb now))\<rparr>"
      using Some by (simp add: global_gate_def case_prod_beta Let_def)
    have "sync_ok (fst (global_gate s now))"
      by (rule sync_keep [where i = globalBucketID, OF store_okD(5) [OF assms(1)] _ _ _ later_Allow [OF gb assms(2)]])
        (simp_all add: E bucket_at_set_global Some)
    then show ?thesis
      by (rule store_okI [OF assms(1)]) (simp_all add: E global_ok_def bucket_Allow_ok gb assms(2))
  qed (use assms in \<open>simp add: global_gate_def\<close>)
qed

lemma ip_gate_ok:
  assumes "store_ok s" "is_range rng" "valid_time now"
  shows "store_ok (fst (ip_gate rng s ip now))" "globalBucket (fst (ip_gate rng s ip now)) = globalBucket s"
proof -
  have "store_ok (fst (ip_gate rng s ip now)) \<and> globalBucket (fst (ip_gate rng s ip now)) = globalBucket s"
  proof (cases "ipLimitEnabled s \<and> ip \<noteq> []")
    case True
    obtain s1 b where r: "getOrCreateIPBucket rng s ip now = (s1, b)" by (cases "getOrCreateIPBucket rng s ip now")
    with True assms have G: "store_ok s1" "gm_lookup (ipBuckets s1) ip = Some b" "bucket_ok b" "globalBucket s1 = globalBucket s"
      using getOrCreateIPBucket_ok [of s rng ip now s1 b] by auto
    let ?b = "fst (bucket_Allow b now)"
    have E: "fst (ip_gate rng s ip now) = s1\<lparr>ipBuckets := gm_set ip ?b (ipBuckets s1)\<rparr>"
      using True r by (simp add: ip_gate_def case_prod_beta Let_def)
    have "sync_ok (fst (ip_gate rng s ip now))" unfolding E
      by (rule sync_keep [OF store_okD(5) [OF G(1)] _ bucket_at_set_ip _ later_Allow [OF G(3) assms(3)]])
        (simp_all add: G(2))
    moreover have "ips_ok (fst (ip_gate rng s ip now))" unfolding E
      by (rule put_new_ip [OF store_okD(2) [OF G(1)]]) (use True G bucket_Allow_ok [OF G(3) assms(3)] in simp_all)
    ultimately have "store_ok (fst (ip_gate rng s ip now))"
      by (intro store_okI [OF G(1)]) (simp_all add: E)
    with G(4) show ?thesis by (simp add: E)
  next
    case False
    then have "fst (ip_gate rng s ip now) = s" unfolding ip_gate_def by (subst if_not_P) simp_all
    with assms(1) show ?thesis by simp
  qed
  then show "store_ok (fst (ip_gate rng s ip now))" "globalBucket (fst (ip_gate rng s ip now)) = globalBucket s"
    by auto
qed

lemma put_charged:
  assumes "store_ok s" "gm_lookup (clients s) key = Some cb" "valid_time now"
  shows "store_ok (put_client s key (fst (mb_Allow cb tier now)))"
proof -
  note c = clients_okD [OF store_okD(1) [OF assms(1)] assms(2)]
  let ?t = "charged_tier cb tier"
  obtain b where b: "gm_lookup (buckets cb) ?t = Some b" "bucket_ok b" by (rule charged_bucket [OF c(2)])
  have E: "fst (mb_Allow cb tier now) = cb\<lparr>buckets := gm_set ?t (fst (bucket_Allow b now)) (buckets cb)\<rparr>"
    by (simp add: mb_Allow_found [OF b(1)])
  have "sync_ok (put_client s key (fst (mb_Allow cb tier now)))" unfolding E
    by (rule sync_keep [OF store_okD(5) [OF assms(1)] _ bucket_at_put_tier [OF c(1) assms(2)] _
          later_Allow [OF b(2) assms(3)]])
      (simp_all add: bucket_at_client [OF c(1)] client_bucket_def assms(2) b(1))
  moreover have "?t \<noteq> []" by (simp add: charged_tier_def) (simp add: DefaultTier_def)
  then have "good_client key (fst (mb_Allow cb tier now))"
    using c mb_Allow_ok [OF c(2) assms(3), of tier] by (simp add: good_client_def E gm_lookup_set)
  then have "clients_ok (put_client s key (fst (mb_Allow cb tier now)))"
    by (rule put_known_client [OF store_okD(1) [OF assms(1)] assms(2)])
  ultimately show ?thesis by (intro store_okI [OF assms(1)]) simp_all
qed

lemma client_gate_ok:
  assumes "store_ok s" "is_range rng" "key_ok key" "valid_time now"
  shows "store_ok (fst (client_gate rng s key tier now))"
    "globalBucket (fst (client_gate rng s key tier now)) = globalBucket s"
proof -
  obtain s1 cb new where r: "getOrCreateClient rng s key now = (s1, cb, new)" by (cases "getOrCreateClient rng s key now")
  note G = getOrCreateClient_ok [OF assms r]
  obtain s2 cb2 where e: "ensureTier s1 cb tier now = (s2, cb2)" by (cases "ensureTier s1 cb tier now")
  have E: "store_ok s2 \<and> gm_lookup (clients s2) key = Some cb2 \<and> globalBucket s2 = globalBucket s1"
    using ensureTier_ok [OF _ _ assms(4) e] G by blast
  have P: "store_ok (put_client s2 key (fst (mb_Allow cb2 tier now)))"
    using E put_charged [of s2 key cb2 now tier] assms(4) by blast
  have "fst (client_gate rng s key tier now) \<in> {s1, put_client s2 key (fst (mb_Allow cb2 tier now))}"
    by (simp add: client_gate_def r e case_prod_beta Let_def)
  with G E P show "store_ok (fst (client_gate rng s key tier now))"
    "globalBucket (fst (client_gate rng s key tier now)) = globalBucket s" by auto
qed

definition req_time :: "gotime \<Rightarrow> AllowRequest \<Rightarrow> gotime" where
  "req_time wall req = (if IsZero (Now req) then wall else Now req)"

text \<open>A request is decided by the first gate that turns it away, or by the last one.\<close>

lemma store_Allow_gates:
  "store_Allow rng wall s req =
    (let now = req_time wall req; (s1, a1, r1) = global_gate s now; (s2, a2, r2) = ip_gate rng s1 (SourceIP req) now
     in if \<not> a1 then (s1, \<lparr>Allowed = False, RemainingTokens = 0, RetryAfter = r1, Reason = ''global_limit''\<rparr>)
        else if \<not> a2 then (s2, \<lparr>Allowed = False, RemainingTokens = 0, RetryAfter = r2, Reason = ''ip_limit''\<rparr>)
        else client_gate rng s2 (ClientKey req) (Tier req) now)"
  by (simp add: store_Allow_def req_time_def Let_def case_prod_beta)

lemma store_Allow_ok:
  assumes "store_ok s" "is_range rng" "key_ok (ClientKey req)" "valid_time (req_time wall req)"
  shows "store_ok (fst (store_Allow rng wall s req))"
    "globalBucket (fst (store_Allow rng wall s req)) =
       map_option (\<lambda>b. fst (bucket_Allow b (req_time wall req))) (globalBucket s)"
proof -
  let ?now = "req_time wall req"
  let ?s1 = "fst (global_gate s ?now)" let ?s2 = "fst (ip_gate rng ?s1 (SourceIP req) ?now)"
  note g = global_gate_ok [OF assms(1,4)]
  note i = ip_gate_ok [OF g(1) assms(2,4), of "SourceIP req"]
  note c = client_gate_ok [OF i(1) assms(2,3,4), of "Tier req"]
  have "fst (store_Allow rng wall s req) \<in> {?s1, ?s2, fst (client_gate rng ?s2 (ClientKey req) (Tier req) ?now)}"
    by (simp add: store_Allow_gates Let_def case_prod_beta)
  with g i c show "store_ok (fst (store_Allow rng wall s req))"
    "globalBucket (fst (store_Allow rng wall s req)) = map_option (\<lambda>b. fst (bucket_Allow b ?now)) (globalBucket s)"
    by auto
qed

section \<open>The callback and a pass of the scheduler\<close>

lemma later_Refill: "bucket_ok b \<Longrightarrow> valid_time now \<Longrightarrow> later b (ScheduledRefill b now)"
  by (simp add: later_def ScheduledRefill_exact refilled_clock(1))

lemma NextRefillTime_after:
  assumes "bucket_ok b" "valid_time now" "refills b"
  shows "now < NextRefillTime (ScheduledRefill b now)"
  using refilled_clock(3) [OF assms(1,2)] assms
  by (simp add: refills_def NextRefillTime_def ScheduledRefill_exact timeAdd_def timeUnix_def Let_def)

text \<open>Everything of the invariant but the agreement with the schedule.\<close>

definition shape_ok :: "BucketStore \<Rightarrow> bool" where
  "shape_ok s \<longleftrightarrow> clients_ok s \<and> ips_ok s \<and> global_ok s \<and> defaults_ok s"

lemma store_ok_shape: "store_ok s \<longleftrightarrow> shape_ok s \<and> sync_ok s"
  by (auto simp: store_ok_def shape_ok_def)

lemma bucket_at_ok:
  assumes "shape_ok s" "bucket_at s i = Some b"
  shows "bucket_ok b"
  using assms
  by (auto simp: bucket_at_def shape_ok_def global_ok_def ips_ok_def client_bucket_def Option.bind_eq_Some_conv
      clients_ok_def good_client_def client_ok_def split: if_splits)

lemma OnDue_bucket:
  assumes "shape_ok s" "bucket_at s i = Some b" "valid_time now"
  obtains s' where "OnDue s i now = (s', NextRefillTime (ScheduledRefill b now), True)"
    "bucket_at s' = (bucket_at s)(i \<mapsto> ScheduledRefill b now)" "shape_ok s'" "scheduler s' = scheduler s"
proof -
  have bok: "bucket_ok (ScheduledRefill b now)"
    by (rule ScheduledRefill_ok [OF bucket_at_ok [OF assms(1,2)] assms(3)])
  consider (global) "i = globalBucketID" "globalBucket s = Some b"
    | (ip) ip where "i = ipIDPrefix @ ip" "gm_lookup (ipBuckets s) ip = Some b"
    | (client) k t cb where "\<not> HasPrefix i ipIDPrefix" "decodeID i = Some (k, t)" "gm_lookup (clients s) k = Some cb"
        "gm_lookup (buckets cb) t = Some b"
    using assms(2) HasPrefixD [of i ipIDPrefix]
    by (auto simp: bucket_at_def client_bucket_def Option.bind_eq_Some_conv split: if_splits)
  then show thesis
  proof cases
    case global
    show thesis
      by (rule that [of "s\<lparr>globalBucket := Some (ScheduledRefill b now)\<rparr>"])
        (use global assms(1) bok in \<open>simp_all add: OnDue_def bucket_at_set_global shape_ok_def global_ok_def
          clients_ok_def ips_ok_def defaults_ok_def Let_def\<close>)
  next
    case ip
    from assms(1) ip(2) have "ip \<noteq> []" by (auto simp: shape_ok_def ips_ok_def)
    then have "ips_ok (s\<lparr>ipBuckets := gm_set ip (ScheduledRefill b now) (ipBuckets s)\<rparr>)"
      using assms(1) bok ip(2) by (intro put_new_ip) (auto simp: shape_ok_def)
    then show thesis
      by (intro that [of "s\<lparr>ipBuckets := gm_set ip (ScheduledRefill b now) (ipBuckets s)\<rparr>"])
        (use ip assms(1) in \<open>simp_all add: OnDue_def bucket_at_set_ip shape_ok_def global_ok_def
          clients_ok_def defaults_ok_def Let_def\<close>)
  next
    case client
    from assms(1) have "clients_ok s" by (simp add: shape_ok_def)
    note c = clients_okD [OF this client(3)]
    have i: "i = encodeID k t" by (rule decode_Some [OF client(2)])
    have t: "t \<noteq> []" using c(4) client(4) by auto
    let ?cb = "cb\<lparr>buckets := gm_set t (ScheduledRefill b now) (buckets cb)\<rparr>"
    have "good_client k ?cb" using c t bok by (simp add: good_client_def client_ok_set gm_lookup_set)
    then have "clients_ok (put_client s k ?cb)" by (rule put_known_client [OF \<open>clients_ok s\<close> client(3)])
    then show thesis
      by (intro that [of "put_client s k ?cb"])
        (use client i t assms(1) in \<open>simp_all add: OnDue_def mb_Bucket_def tier_name_id bucket_at_put_tier c(1)
          shape_ok_def global_ok_def ips_ok_def defaults_ok_def Let_def\<close>)
  qed
qed

text \<open>While a pass runs, the ids it has popped are out of the table; every other id agrees
  with its bucket, and everything rescheduled so far is due later than the pass.\<close>

definition mid_pass :: "gotime \<Rightarrow> string set \<Rightarrow> Scheduler \<times> BucketStore \<Rightarrow> bool" where
  "mid_pass now I = (\<lambda>(sc, s). shape_ok s \<and> sched_ok sc
     \<and> (\<forall>i\<in>I. pending sc i = None \<and> (\<exists>b. bucket_at s i = Some b \<and> refills b))
     \<and> (\<forall>i. i \<notin> I \<longrightarrow> synced1 (bucket_at s i) (pending sc i))
     \<and> (\<forall>i t. pending sc i = Some t \<longrightarrow> now < t))"

lemma refills_Refill [simp]: "refills (ScheduledRefill b now) = refills b"
  by (simp add: refills_def)

lemma sched_ok_count [simp]: "sched_ok (s\<lparr>refillsTotal := n\<rparr>) = sched_ok s" "pending (s\<lparr>refillsTotal := n\<rparr>) = pending s"
  by (simp_all add: sched_ok_def pending_def fun_eq_iff)

lemma mid_pass_step:
  assumes m: "mid_pass now (insert (entryId e) I) (sc, s)" and e: "entryId e \<notin> I" and t: "valid_time now"
  shows "mid_pass now I (runDue OnDue now e (sc, s))
    \<and> bucket_at (snd (runDue OnDue now e (sc, s))) =
        (bucket_at s)(entryId e := map_option (\<lambda>b. ScheduledRefill b now) (bucket_at s (entryId e)))
    \<and> scheduler (snd (runDue OnDue now e (sc, s))) = scheduler s"
proof -
  let ?i = "entryId e"
  from m obtain b where b: "bucket_at s ?i = Some b" "refills b" and s: "shape_ok s" "sched_ok sc"
    by (auto simp: mid_pass_def)
  obtain s' where s': "OnDue s ?i now = (s', NextRefillTime (ScheduledRefill b now), True)"
    "bucket_at s' = (bucket_at s)(?i \<mapsto> ScheduledRefill b now)" "shape_ok s'" "scheduler s' = scheduler s"
    by (rule OnDue_bucket [OF s(1) b(1) t])
  let ?sc = "sc\<lparr>refillsTotal := i64 (refillsTotal sc + 1)\<rparr>"
  have r: "runDue OnDue now e (sc, s) = (Schedule ?sc ?i (NextRefillTime (ScheduledRefill b now)), s')"
    by (simp add: runDue_def s'(1))
  have S: "sched_ok (Schedule ?sc ?i (NextRefillTime (ScheduledRefill b now)))"
    "pending (Schedule ?sc ?i (NextRefillTime (ScheduledRefill b now))) =
      (pending sc)(?i \<mapsto> NextRefillTime (ScheduledRefill b now))"
    using s(2) by (simp_all add: Schedule_correct)
  have "now < NextRefillTime (ScheduledRefill b now)"
    by (rule NextRefillTime_after [OF bucket_at_ok [OF s(1) b(1)] t b(2)])
  with m e b(2) have "mid_pass now I (runDue OnDue now e (sc, s))"
    unfolding r mid_pass_def by (auto simp: S s'(2,3))
  with s'(2,4) b(1) show ?thesis by (simp add: r)
qed

lemma mid_pass_fold:
  "mid_pass now (entryId ` set es) (sc, s) \<Longrightarrow> distinct (map entryId es) \<Longrightarrow> valid_time now \<Longrightarrow>
   mid_pass now {} (fold (runDue OnDue now) es (sc, s))
   \<and> bucket_at (snd (fold (runDue OnDue now) es (sc, s))) =
       (\<lambda>i. if i \<in> entryId ` set es then map_option (\<lambda>b. ScheduledRefill b now) (bucket_at s i) else bucket_at s i)
   \<and> scheduler (snd (fold (runDue OnDue now) es (sc, s))) = scheduler s"
proof (induction es arbitrary: sc s)
  case (Cons e es)
  obtain sc1 s1 where r: "runDue OnDue now e (sc, s) = (sc1, s1)" by (cases "runDue OnDue now e (sc, s)")
  have M: "mid_pass now (entryId ` set es) (sc1, s1)"
    "bucket_at s1 = (bucket_at s)(entryId e := map_option (\<lambda>b. ScheduledRefill b now) (bucket_at s (entryId e)))"
    "scheduler s1 = scheduler s"
    using mid_pass_step [of now e "entryId ` set es" sc s] Cons.prems r by simp_all
  have "distinct (map entryId es)" "entryId e \<notin> entryId ` set es" using Cons.prems(2) by simp_all
  with Cons.IH [OF M(1) _ Cons.prems(3)] show ?case
    by (auto simp: r M(2,3) fun_eq_iff)
qed simp

lemma store_tick_effect:
  assumes ok: "store_ok s" and t: "valid_time now" and sc: "scheduler s = Some sc"
  shows "store_ok (store_tick s now)
    \<and> bucket_at (store_tick s now) = (\<lambda>i. case pending sc i of
        Some u \<Rightarrow> if u \<le> now then map_option (\<lambda>b. ScheduledRefill b now) (bucket_at s i) else bucket_at s i
      | None \<Rightarrow> bucket_at s i)
    \<and> (\<exists>sc'. scheduler (store_tick s now) = Some sc' \<and> (\<forall>i u. pending sc' i = Some u \<longrightarrow> now < u))"
proof -
  from store_okD(5) [OF ok] sc have scok: "sched_ok sc" "synced (bucket_at s) (pending sc)"
    by (auto simp: sync_ok_def)
  obtain sc1 es where p: "popDue sc now = (sc1, es)" by (cases "popDue sc now")
  have P: "popped_ok sc now sc1 es" by (rule popDue_correct [OF scok(1) p])
  then have P': "sched_ok sc1" "pending sc1 = not_due now (pending sc)" "distinct (map entryId es)"
    by (simp_all add: popped_ok_def)
  have ids: "i \<in> entryId ` set es \<longleftrightarrow> (\<exists>u. pending sc i = Some u \<and> u \<le> now)" for i
    using P unfolding popped_ok_def by (metis (no_types, lifting) image_iff)
  have m: "mid_pass now (entryId ` set es) (sc1, s)"
    unfolding mid_pass_def
  proof (simp, intro conjI)
    show "shape_ok s" using ok by (simp add: store_ok_shape)
    show "sched_ok sc1" by (rule P'(1))
    have "pending sc1 i = None \<and> (\<exists>b. bucket_at s i = Some b \<and> refills b)" if "i \<in> entryId ` set es" for i
    proof -
      from that ids obtain u where u: "pending sc i = Some u" "u \<le> now" by blast
      have "synced1 (bucket_at s i) (Some u)" using scok(2) u(1) unfolding synced_def by metis
      with u show ?thesis by (cases "bucket_at s i") (auto simp: P'(2) not_due_def split: if_splits)
    qed
    then show "\<forall>e\<in>set es. pending sc1 (entryId e) = None \<and> (\<exists>b. bucket_at s (entryId e) = Some b \<and> refills b)" by blast
    have "pending sc1 i = pending sc i" if "i \<notin> entryId ` set es" for i
      using that ids [of i] by (auto simp: P'(2) not_due_def split: option.splits)
    then show "\<forall>i. i \<notin> entryId ` set es \<longrightarrow> synced1 (bucket_at s i) (pending sc1 i)"
      using scok(2) by (simp add: synced_def)
    show "\<forall>i t. pending sc1 i = Some t \<longrightarrow> now < t" by (simp add: P'(2) not_due_Some)
  qed
  obtain sc' s' where f: "fold (runDue OnDue now) es (sc1, s) = (sc', s')" by fastforce
  have F: "mid_pass now {} (sc', s')"
    "bucket_at s' = (\<lambda>i. if i \<in> entryId ` set es then map_option (\<lambda>b. ScheduledRefill b now) (bucket_at s i) else bucket_at s i)"
    using mid_pass_fold [OF m P'(3) t] by (simp_all add: f)
  have T: "store_tick s now = s'\<lparr>scheduler := Some sc'\<rparr>"
    by (simp add: store_tick_def sc processDue_def p f)
  have "store_ok (store_tick s now)"
    using F(1) by (auto simp: T store_ok_shape mid_pass_def sync_ok_def synced_def shape_ok_def clients_ok_def
        ips_ok_def global_ok_def defaults_ok_def)
  moreover have "bucket_at (store_tick s now) = (\<lambda>i. case pending sc i of
        Some u \<Rightarrow> if u \<le> now then map_option (\<lambda>b. ScheduledRefill b now) (bucket_at s i) else bucket_at s i
      | None \<Rightarrow> bucket_at s i)"
    using ids by (auto simp: T F(2) fun_eq_iff split: option.split)
  ultimately show ?thesis using F(1) by (simp add: T mid_pass_def)
qed

section \<open>Administration\<close>

lemma UpdateClientConfig_ok:
  assumes "store_ok s" "is_range rng" "key_ok key" "valid_time now" "cfg_safe cfg"
  shows "store_ok (UpdateClientConfig rng s key tier cfg now)"
    "globalBucket (UpdateClientConfig rng s key tier cfg now) = globalBucket s"
proof -
  let ?t = "tier_name tier"
  obtain s1 cb new where r: "getOrCreateClient rng s key now = (s1, cb, new)" by (cases "getOrCreateClient rng s key now")
  have G: "store_ok s1" "gm_lookup (clients s1) key = Some cb" "good_client key cb" "globalBucket s1 = globalBucket s"
    using getOrCreateClient_ok [OF assms(1-4) r] by blast+
  let ?s2 = "put_client s1 key (Configure cb ?t cfg now)"
  let ?s3 = "schedule_bucket (unschedule_id ?s2 (encodeID key ?t)) (encodeID key ?t) cfg (Some (bucket_New cfg now))"
  have E: "UpdateClientConfig rng s key tier cfg now = ?s3"
    by (simp add: UpdateClientConfig_def EnsureClient_def r Let_def flip: tier_name_def)
  have "sync_ok ?s3"
    by (rule sync_replace [OF store_okD(5) [OF G(1)]])
      (simp_all add: Configure_def bucket_at_put_tier [OF assms(3) G(2)])
  moreover have "clients_ok ?s3"
    using put_known_client [OF store_okD(1) [OF G(1)] G(2) good_client_Configure [OF G(3) assms(5,4), of ?t]]
    by (simp add: clients_ok_def)
  ultimately show "store_ok (UpdateClientConfig rng s key tier cfg now)"
    unfolding E by (intro store_okI [OF G(1)]) simp_all
  show "globalBucket (UpdateClientConfig rng s key tier cfg now) = globalBucket s" by (simp add: E G(4))
qed

lemma put_mapped:
  assumes "store_ok s" "gm_lookup (clients s) k = Some cb"
    and f: "\<And>b. bucket_ok b \<Longrightarrow> bucket_ok (f b)" "\<And>b. later b (f b)"
  shows "store_ok (put_client s k (cb\<lparr>buckets := gm_map f (buckets cb)\<rparr>))"
proof -
  note c = clients_okD [OF store_okD(1) [OF assms(1)] assms(2)]
  let ?s = "put_client s k (cb\<lparr>buckets := gm_map f (buckets cb)\<rparr>)"
  have "sync_ok ?s" unfolding sync_ok_def
  proof (intro allI impI)
    fix sc assume "scheduler ?s = Some sc"
    then have sc: "sched_ok sc" "synced (bucket_at s) (pending sc)"
      using store_okD(5) [OF assms(1)] by (auto simp: sync_ok_def)
    have "synced1 (bucket_at ?s i) (pending sc i)" for i
    proof -
      have "synced1 (bucket_at s i) (pending sc i)" using sc(2) by (simp add: synced_def)
      then show ?thesis using synced1_later [OF _ f(2)]
        unfolding bucket_at_put_map [OF c(1) assms(2)] by (cases "bucket_at s i") auto
    qed
    with sc(1) show "sched_ok sc \<and> synced (bucket_at ?s) (pending sc)" by (simp add: synced_def)
  qed
  moreover have "good_client k (cb\<lparr>buckets := gm_map f (buckets cb)\<rparr>)"
    using c f(1) by (simp add: good_client_def client_ok_map gm_lookup_map)
  then have "clients_ok ?s" by (rule put_known_client [OF store_okD(1) [OF assms(1)] assms(2)])
  ultimately show ?thesis by (intro store_okI [OF assms(1)]) simp_all
qed

lemma store_Block_ok:
  assumes "store_ok s" "is_range rng" "key_ok key" "valid_time now"
  shows "store_ok (store_Block rng s key now)" "globalBucket (store_Block rng s key now) = globalBucket s"
    "\<exists>cb. gm_lookup (clients (store_Block rng s key now)) key = Some cb \<and> mb_IsBlocked cb"
proof -
  obtain s1 cb new where r: "getOrCreateClient rng s key now = (s1, cb, new)" by (cases "getOrCreateClient rng s key now")
  have G: "store_ok s1" "gm_lookup (clients s1) key = Some cb" "good_client key cb" "globalBucket s1 = globalBucket s"
    using getOrCreateClient_ok [OF assms r] by blast+
  have E: "store_Block rng s key now = put_client s1 key (BlockAll cb)"
    by (simp add: store_Block_def EnsureClient_def r)
  show "store_ok (store_Block rng s key now)"
    unfolding E BlockAll_def by (rule put_mapped [OF G(1,2)]) simp_all
  show "globalBucket (store_Block rng s key now) = globalBucket s" by (simp add: E G(4))
  show "\<exists>cb. gm_lookup (clients (store_Block rng s key now)) key = Some cb \<and> mb_IsBlocked cb"
    using G(3) by (simp add: E gm_lookup_set BlockAll_blocks good_client_def)
qed

lemma store_Unblock_ok:
  assumes "store_ok s"
  shows "store_ok (store_Unblock s key)" "globalBucket (store_Unblock s key) = globalBucket s"
  using assms put_mapped [OF assms, of key _ bucket_Unblock]
  by (simp_all add: store_Unblock_def UnblockAll_def split: option.split)

lemma SetGlobalConfig_ok:
  assumes "store_ok s" "valid_time now" "cfg_safe cfg"
  shows "store_ok (SetGlobalConfig s cfg now)"
proof -
  let ?s = "schedule_bucket (unschedule_id (s\<lparr>globalBucket := Some (bucket_New cfg now)\<rparr>) globalBucketID)
    globalBucketID cfg (Some (bucket_New cfg now))"
  have "sync_ok ?s" by (rule sync_replace [OF store_okD(5) [OF assms(1)]]) (simp_all add: bucket_at_set_global)
  then have "store_ok ?s"
    by (rule store_okI [OF assms(1)]) (simp_all add: global_ok_def bucket_New_ok assms)
  then show ?thesis by (simp add: SetGlobalConfig_def Let_def)
qed

lemma DisableGlobal_ok: "store_ok s \<Longrightarrow> store_ok (DisableGlobal s)"
  unfolding DisableGlobal_def
  by (rule store_okI) (auto intro: sync_unschedule store_okD simp: bucket_at_set_global global_ok_def)

lemma clear_ips_ok:
  assumes "store_ok s"
  shows "store_ok (fold clear_ip ips s)"
  using assms
proof (induction ips arbitrary: s)
  case (Cons ip ips)
  let ?s = "unschedule_id (s\<lparr>ipBuckets := gm_delete ip (ipBuckets s)\<rparr>) (ipIDPrefix @ ip)"
  have "sync_ok ?s" by (rule sync_unschedule [OF store_okD(5) [OF Cons.prems]]) (simp_all add: bucket_at_del_ip)
  moreover have "ips_ok ?s"
  proof -
    have "gm_len (gm_delete ip (ipBuckets s)) \<le> gm_len (ipBuckets s)"
      using length_delete_le [of ip "ipBuckets s"] by (simp add: gm_len_def gm_delete_def)
    with store_okD(2) [OF Cons.prems] show ?thesis by (auto simp: ips_ok_def gm_lookup_delete)
  qed
  ultimately have "store_ok ?s" by (intro store_okI [OF Cons.prems]) simp_all
  moreover have "clear_ip ip s = ?s" by (simp add: clear_ip_def unschedule_id_def Let_def)
  ultimately show ?case using Cons.IH by simp
qed simp

lemma SetIPLimit_ok:
  assumes "store_ok s" "cfg_safe cfg"
  shows "store_ok (SetIPLimit rng s enabled cfg)"
proof -
  have "sync_ok (s\<lparr>ipLimitEnabled := enabled, ipConfigPtr := Some cfg\<rparr>)"
    using store_okD(5) [OF assms(1)] by (simp add: sync_ok_def)
  then have "store_ok (s\<lparr>ipLimitEnabled := enabled, ipConfigPtr := Some cfg\<rparr>)"
    using store_okD(2) [OF assms(1)] assms(2) by (intro store_okI [OF assms(1)]) (simp_all add: ips_ok_def)
  then show ?thesis unfolding SetIPLimit_def Let_def by (auto intro: clear_ips_ok)
qed

section \<open>A new store\<close>

definition opts_ok :: "Options \<Rightarrow> bool" where
  "opts_ok opts \<longleftrightarrow> (\<forall>t c. gm_lookup (optTierDefaults opts) t = Some c \<longrightarrow> cfg_safe c)"

lemma store_New_ok:
  assumes "opts_ok opts"
  shows "store_ok (AttachScheduler (store_New opts) sched_New)"
proof -
  let ?s = "AttachScheduler (store_New opts) sched_New"
  have "bucket_at ?s = Map.empty"
    by (rule ext) (simp add: bucket_at_def client_bucket_def AttachScheduler_def store_New_def Let_def
        Option.bind_eq_None_conv case_prod_beta)
  then have "sync_ok ?s" by (auto simp: sync_ok_def AttachScheduler_def sched_New_ok synced_def)
  then show ?thesis
    using assms
    by (auto simp: store_ok_def clients_ok_def ips_ok_def global_ok_def defaults_ok_def opts_ok_def
        AttachScheduler_def store_New_def Let_def gm_lookup_set gm_len_def split: if_splits)
qed

end
