(* ===== verification/StoreProps.thy ===== *)
theory StoreProps
  imports StoreInvariant
begin

text \<open>
  What the bucket store promises: its capacity bounds, the agreement of buckets and refill
  schedule, exact refills, eviction of the least recently used client, fail-fast decisions,
  blocking, and the global rate limit over whole runs.
\<close>

section \<open>Runs of the store\<close>

datatype store_op =
    SAllow gotime AllowRequest
  | STick gotime
  | SUpdate string string bucket_Config gotime
  | SBlock string gotime
  | SUnblock string
  | SSetGlobal bucket_Config gotime
  | SDisableGlobal
  | SSetIP bool bucket_Config

text \<open>Each step comes with the order in which maps are iterated during it.\<close>

type_synonym store_event = "string range_order \<times> store_op"

fun store_step :: "BucketStore \<Rightarrow> store_event \<Rightarrow> BucketStore" where
  "store_step s (rng, SAllow wall req) = fst (store_Allow rng wall s req)"
| "store_step s (rng, STick now) = store_tick s now"
| "store_step s (rng, SUpdate key tier cfg now) = UpdateClientConfig rng s key tier cfg now"
| "store_step s (rng, SBlock key now) = store_Block rng s key now"
| "store_step s (rng, SUnblock key) = store_Unblock s key"
| "store_step s (rng, SSetGlobal cfg now) = SetGlobalConfig s cfg now"
| "store_step s (rng, SDisableGlobal) = DisableGlobal s"
| "store_step s (rng, SSetIP enabled cfg) = SetIPLimit rng s enabled cfg"

fun op_ok :: "store_op \<Rightarrow> bool" where
  "op_ok (SAllow wall req) = (key_ok (ClientKey req) \<and> valid_time (req_time wall req))"
| "op_ok (STick now) = valid_time now"
| "op_ok (SUpdate key tier cfg now) = (key_ok key \<and> cfg_safe cfg \<and> valid_time now)"
| "op_ok (SBlock key now) = (key_ok key \<and> valid_time now)"
| "op_ok (SUnblock key) = True"
| "op_ok (SSetGlobal cfg now) = (cfg_safe cfg \<and> valid_time now)"
| "op_ok SDisableGlobal = True"
| "op_ok (SSetIP enabled cfg) = cfg_safe cfg"

definition event_ok :: "store_event \<Rightarrow> bool" where
  "event_ok e \<longleftrightarrow> is_range (fst e) \<and> op_ok (snd e)"

fun store_run :: "BucketStore \<Rightarrow> store_event list \<Rightarrow> BucketStore" where
  "store_run s [] = s"
| "store_run s (e # es) = store_run (store_step s e) es"

lemma store_tick_ok: "store_ok s \<Longrightarrow> valid_time now \<Longrightarrow> store_ok (store_tick s now)"
  using store_tick_effect [of s now] by (cases "scheduler s") (auto simp: store_tick_def)

lemma store_step_ok: "store_ok s \<Longrightarrow> event_ok e \<Longrightarrow> store_ok (store_step s e)"
proof -
  assume s: "store_ok s" and e: "event_ok e"
  obtain rng x where [simp]: "e = (rng, x)" by (cases e)
  from s e show "store_ok (store_step s e)"
    by (cases x) (auto simp: event_ok_def intro: store_Allow_ok store_tick_ok UpdateClientConfig_ok store_Block_ok
        store_Unblock_ok SetGlobalConfig_ok DisableGlobal_ok SetIPLimit_ok)
qed

section \<open>Systems that keep an invariant\<close>

text \<open>The contract of a component that is only used through its operations: what holds at
  the start and is kept by every operation holds after every run.  A second property that no
  operation changes, such as a capacity fixed at construction, is carried along.\<close>

locale safe_system =
  fixes step :: "'s \<Rightarrow> 'e \<Rightarrow> 's"
    and ok :: "'s \<Rightarrow> bool"
    and good :: "'e \<Rightarrow> bool"
    and param :: "'s \<Rightarrow> 'p"
  assumes keeps: "ok s \<Longrightarrow> good e \<Longrightarrow> ok (step s e)"
    and fixed: "ok s \<Longrightarrow> good e \<Longrightarrow> param (step s e) = param s"
begin

primrec run :: "'s \<Rightarrow> 'e list \<Rightarrow> 's" where
  "run s [] = s"
| "run s (e # es) = run (step s e) es"

lemma run_keeps: "ok s \<Longrightarrow> list_all good es \<Longrightarrow> ok (run s es) \<and> param (run s es) = param s"
  by (induction es arbitrary: s) (simp_all add: keeps fixed)

end

definition capacities :: "BucketStore \<Rightarrow> int \<times> int \<times> bool" where
  "capacities s = (maxClients s, ipBucketCap s, scheduler s \<noteq> None)"

lemma capacities_simps [simp]:
  "capacities (schedule_id s i t) = capacities s" "capacities (unschedule_id s i) = capacities s"
  "capacities (schedule_bucket s i c ob) = capacities s" "capacities (put_client s k cb) = capacities s"
  "capacities (s\<lparr>clients := m\<rparr>) = capacities s" "capacities (s\<lparr>ipBuckets := ips\<rparr>) = capacities s"
  "capacities (s\<lparr>globalBucket := g\<rparr>) = capacities s" "capacities (s\<lparr>evictions := n\<rparr>) = capacities s"
  "capacities (s\<lparr>ipLimitEnabled := b, ipConfigPtr := p\<rparr>) = capacities s"
  by (auto simp: capacities_def schedule_id_def unschedule_id_def schedule_bucket_def put_client_def split: option.split)

lemma capacities_fold:
  assumes "\<And>x s. capacities (f x s) = capacities s"
  shows "capacities (fold f xs s) = capacities s"
  by (induction xs arbitrary: s) (simp_all add: assms)

lemma capacities_evict [simp]:
  "capacities (evictLRULocked rng s) = capacities s" "capacities (evictOldestIPLocked rng s) = capacities s"
  by (simp_all add: evictLRULocked_def evictOldestIPLocked_def capacities_fold Let_def split: option.split)

lemma capacities_create [simp]:
  "capacities (fst (getOrCreateClient rng s key now)) = capacities s"
  "capacities (fst (getOrCreateIPBucket rng s ip now)) = capacities s"
  "capacities (fst (ensureTier s cb tier now)) = capacities s"
  by (simp_all add: getOrCreateClient_def getOrCreateIPBucket_def ensureTier_def Let_def split: option.split)

lemma capacities_gates [simp]:
  "capacities (fst (global_gate s now)) = capacities s"
  "capacities (fst (ip_gate rng s ip now)) = capacities s"
  "capacities (fst (client_gate rng s key tier now)) = capacities s"
  "capacities (fst (store_Allow rng wall s req)) = capacities s"
proof -
  show g: "capacities (fst (global_gate s now)) = capacities s" for s now
    by (simp add: global_gate_def case_prod_beta Let_def split: option.split)
  show i: "capacities (fst (ip_gate rng s ip now)) = capacities s" for s ip now
    by (simp add: ip_gate_def case_prod_beta Let_def)
  show c: "capacities (fst (client_gate rng s key tier now)) = capacities s" for s key tier now
    by (simp add: client_gate_def case_prod_beta Let_def)
  show "capacities (fst (store_Allow rng wall s req)) = capacities s"
    by (simp add: store_Allow_gates case_prod_beta Let_def g i c)
qed

lemma capacities_admin [simp]:
  "capacities (UpdateClientConfig rng s key tier cfg now) = capacities s"
  "capacities (store_Block rng s key now) = capacities s" "capacities (store_Unblock s key) = capacities s"
  "capacities (SetGlobalConfig s cfg now) = capacities s" "capacities (DisableGlobal s) = capacities s"
  "capacities (SetIPLimit rng s enabled cfg) = capacities s"
  by (simp_all add: UpdateClientConfig_def EnsureClient_def store_Block_def store_Unblock_def SetGlobalConfig_def
      DisableGlobal_def SetIPLimit_def clear_ip_def capacities_fold case_prod_beta Let_def split: option.split)

lemma capacities_OnDue [simp]: "capacities (fst (OnDue s i now)) = capacities s"
  by (simp add: OnDue_def Let_def split: option.split prod.split)

lemma capacities_tick [simp]: "capacities (store_tick s now) = capacities s"
proof (cases "scheduler s")
  case (Some sc)
  have f: "capacities (snd (fold (runDue OnDue now) es (sc0, s0))) = capacities s0" for es sc0 s0
  proof (induction es arbitrary: sc0 s0)
    case (Cons e es)
    have "snd (runDue OnDue now e (sc0, s0)) = fst (OnDue s0 (entryId e) now)"
      by (simp add: runDue_def case_prod_beta Let_def)
    then obtain sc1 where "runDue OnDue now e (sc0, s0) = (sc1, fst (OnDue s0 (entryId e) now))"
      by (metis prod.collapse)
    with Cons [of sc1 "fst (OnDue s0 (entryId e) now)"] show ?case by simp
  qed simp
  have "\<exists>sc' s'. store_tick s now = s'\<lparr>scheduler := Some sc'\<rparr> \<and> capacities s' = capacities s"
    using f by (simp add: store_tick_def Some processDue_def case_prod_beta Let_def) blast
  with Some show ?thesis by (auto simp: capacities_def)
qed (simp add: store_tick_def)

interpretation ss: safe_system store_step store_ok event_ok capacities
proof
  fix s e assume "store_ok s" "event_ok e"
  then show "store_ok (store_step s e)" by (rule store_step_ok)
  obtain rng x where "e = (rng, x)" by (cases e)
  then show "capacities (store_step s e) = capacities s" by (cases x) simp_all
qed

lemma store_run_is_run: "store_run s es = ss.run s es"
  by (induction es arbitrary: s) simp_all

definition fresh_store :: "Options \<Rightarrow> BucketStore" where
  "fresh_store opts = AttachScheduler (store_New opts) sched_New"

lemma store_run_ok:
  assumes "opts_ok opts" "list_all event_ok es"
  shows "store_ok (store_run (fresh_store opts) es)"
    "capacities (store_run (fresh_store opts) es) = capacities (fresh_store opts)"
  using ss.run_keeps [OF store_New_ok [OF assms(1)] assms(2)]
  by (simp_all add: store_run_is_run fresh_store_def)

section \<open>Bounds and agreement\<close>

text \<open>
  Capacity.  However the store is used, the number of clients it tracks never exceeds
  \<^verbatim>\<open>MaxClients\<close> when that is positive, and the number of per-IP buckets never exceeds the
  cap derived from it: four times as many, or 200000 when that product is not a positive
  64-bit number.
\<close>

theorem store_capacity:
  assumes "opts_ok opts" "list_all event_ok es"
  shows "(optMaxClients opts > 0 \<longrightarrow> ActiveClients (store_run (fresh_store opts) es) \<le> optMaxClients opts)
    \<and> gm_len (ipBuckets (store_run (fresh_store opts) es)) \<le>
        (if i64 (optMaxClients opts * 4) \<le> 0 then 200000 else i64 (optMaxClients opts * 4))"
proof -
  let ?s = "store_run (fresh_store opts) es"
  have "capacities ?s = capacities (fresh_store opts)" by (rule store_run_ok(2) [OF assms])
  then have "maxClients ?s = optMaxClients opts"
    "ipBucketCap ?s = (if i64 (optMaxClients opts * 4) \<le> 0 then 200000 else i64 (optMaxClients opts * 4))"
    by (simp_all add: capacities_def fresh_store_def AttachScheduler_def store_New_def Let_def)
  with store_run_ok(1) [OF assms] show ?thesis
    by (simp add: ActiveClients_def store_ok_def clients_ok_def ips_ok_def)
qed

definition example_opts :: Options where
  "example_opts = \<lparr>optMaxClients = 1, optTierDefaults = [(DefaultTier, example_cfg)]\<rparr>"

definition request :: "string \<Rightarrow> gotime \<Rightarrow> AllowRequest" where
  "request key now = \<lparr>ClientKey = key, SourceIP = ''10.0.0.1'', Tier = [], Now = now\<rparr>"

definition example_events :: "store_event list" where
  "example_events = map (Pair (\<lambda>ks. ks))
     [SSetIP True example_cfg, SSetGlobal example_cfg 5, SAllow 0 (request ''alice'' 10),
      SBlock ''bob'' 20, STick 300, SAllow 0 (request ''alice'' 310)]"

lemma example_opts_ok: "opts_ok example_opts"
  by (simp add: opts_ok_def example_opts_def gm_lookup_def)

lemma example_events_ok: "list_all event_ok example_events"
  by (simp add: example_events_def event_ok_def is_range_id key_ok_def valid_time_def request_def
      req_time_def IsZero_def zeroTime_def)

theorem store_capacity_witness:
  "ActiveClients (store_run (fresh_store example_opts) example_events) \<le> 1"
  using store_capacity [OF example_opts_ok example_events_ok] by (simp add: example_opts_def)

text \<open>
  C18. Buckets and schedule agree.  After any run, the scheduler has not failed, an id is
  pending if and only if it names a bucket that refills (the global bucket, a per-IP bucket,
  or a client's tier), and it is pending no later than that bucket's next refill: no bucket
  is ever forgotten and no entry outlives its bucket.
\<close>

theorem schedule_agrees:
  assumes "opts_ok opts" "list_all event_ok es"
  shows "\<exists>sc. scheduler (store_run (fresh_store opts) es) = Some sc \<and> \<not> dead sc
    \<and> (\<forall>i. (\<exists>t. pending sc i = Some t) \<longleftrightarrow>
           (\<exists>b. bucket_at (store_run (fresh_store opts) es) i = Some b \<and> 0 < RefillInterval (bucket_config b)))
    \<and> (\<forall>i t b. pending sc i = Some t \<longrightarrow> bucket_at (store_run (fresh_store opts) es) i = Some b
           \<longrightarrow> t \<le> NextRefillTime b)"
proof -
  let ?s = "store_run (fresh_store opts) es"
  have "capacities ?s = capacities (fresh_store opts)" by (rule store_run_ok(2) [OF assms])
  then obtain sc where sc: "scheduler ?s = Some sc"
    by (auto simp: capacities_def fresh_store_def AttachScheduler_def)
  with store_run_ok(1) [OF assms] have "sched_ok sc" and sync: "synced1 (bucket_at ?s i) (pending sc i)" for i
    by (auto simp: store_ok_def sync_ok_def synced_def)
  have "(\<exists>t. pending sc i = Some t) \<longleftrightarrow> (\<exists>b. bucket_at ?s i = Some b \<and> refills b)" for i
    using sync [of i] by (cases "bucket_at ?s i") (auto split: if_splits)
  moreover have "t \<le> NextRefillTime b" if "pending sc i = Some t" "bucket_at ?s i = Some b" for i t b
    using sync [of i] that by (auto split: if_splits)
  ultimately show ?thesis
    using sc sched_okD(1) [OF \<open>sched_ok sc\<close>] by (intro exI [of _ sc]) (auto simp: refills_def bucket_config_def)
qed

theorem schedule_agrees_witness:
  "\<exists>sc. scheduler (store_run (fresh_store example_opts) example_events) = Some sc \<and> \<not> dead sc"
  using schedule_agrees [OF example_opts_ok example_events_ok] by blast

section \<open>A pass of the scheduler\<close>

lemma refilled_not_due:
  assumes "bucket_ok b" "valid_time now" "refills b \<Longrightarrow> now < NextRefillTime b"
  shows "refilled b now = b"
proof (cases "refills b")
  case True
  then have I: "0 < RefillInterval (configPtr b)" by (simp add: refills_def)
  have "now < lastRefillTime b + RefillInterval (configPtr b)"
    using assms(3) [OF True] I by (simp add: NextRefillTime_def timeAdd_def timeUnix_def Let_def)
  then have "now - lastRefillTime b < RefillInterval (configPtr b)" by simp
  then have "ticks b now = 0"
    using I pos_imp_zdiv_neg_iff [of "RefillInterval (configPtr b)" "now - lastRefillTime b"]
    by (cases "now < lastRefillTime b") (auto simp: ticks_def div_pos_pos_trivial)
  with assms(1) I show ?thesis by (simp add: refilled_def bucket_ok_def)
qed (simp add: refilled_def refills_def)

text \<open>
  C17. A pass of the scheduler is a refill of the whole store.  In any state the store can
  reach, popping what is due and calling back brings every bucket, due or not, exactly up to
  date, changes nothing else that a decision depends on, and leaves nothing due behind.
\<close>

theorem tick_refills_everything:
  assumes "store_ok s" "valid_time now" "scheduler s \<noteq> None"
  shows "bucket_at (store_tick s now) = (\<lambda>i. map_option (\<lambda>b. refilled b now) (bucket_at s i))
    \<and> store_ok (store_tick s now)
    \<and> (\<exists>sc. scheduler (store_tick s now) = Some sc \<and> nextWait sc now > 0)"
proof -
  from assms(3) obtain sc where sc: "scheduler s = Some sc" by auto
  note T = store_tick_effect [OF assms(1,2) sc]
  have ok: "bucket_ok b" if "bucket_at s i = Some b" for i b
    using bucket_at_ok [OF _ that] assms(1) by (simp add: store_ok_shape)
  have sync: "synced1 (bucket_at s i) (pending sc i)" for i
    using assms(1) sc by (simp add: store_ok_def sync_ok_def synced_def)
  have "bucket_at (store_tick s now) i = map_option (\<lambda>b. refilled b now) (bucket_at s i)" for i
  proof (cases "bucket_at s i")
    case None
    with T show ?thesis by (simp split: option.split)
  next
    case (Some b)
    show ?thesis
    proof (cases "\<exists>u. pending sc i = Some u \<and> u \<le> now")
      case True
      with T Some show ?thesis by (auto simp: ScheduledRefill_exact ok [OF Some] assms(2))
    next
      case False
      then have "refills b \<Longrightarrow> now < NextRefillTime b" using sync [of i] Some by auto
      then have "refilled b now = b" by (rule refilled_not_due [OF ok [OF Some] assms(2)])
      moreover have "bucket_at (store_tick s now) i = bucket_at s i"
        using T False by (auto split: option.split)
      ultimately show ?thesis using Some by simp
    qed
  qed
  moreover obtain sc' where sc': "scheduler (store_tick s now) = Some sc'" "\<And>i u. pending sc' i = Some u \<Longrightarrow> now < u"
    using T by blast
  moreover have "sched_ok sc'" using T sc'(1) by (auto simp: store_ok_def sync_ok_def)
  then have "nextWait sc' now > 0"
    using sc'(2) sched_top [of sc'] by (force simp: nextWait_def Hour_def Let_def timeSub_def is_i64_def max_i64_def)
  ultimately show ?thesis using T by (intro conjI ext exI [of _ sc']) auto
qed

theorem tick_refills_everything_witness:
  "bucket_at (store_tick (store_run (fresh_store example_opts) example_events) 900) globalBucketID =
   map_option (\<lambda>b. refilled b 900) (bucket_at (store_run (fresh_store example_opts) example_events) globalBucketID)"
proof -
  let ?s = "store_run (fresh_store example_opts) example_events"
  note ok = store_run_ok [OF example_opts_ok example_events_ok]
  have "scheduler ?s \<noteq> None" using ok(2) by (simp add: capacities_def fresh_store_def AttachScheduler_def)
  from tick_refills_everything [OF ok(1) _ this, of 900] show ?thesis by (simp add: valid_time_def)
qed

section \<open>Eviction\<close>

text \<open>
  C21. Least-recently-used eviction.  A request from a new client when the store is at
  capacity evicts exactly one client, one whose latest access over all its tiers is minimal
  whatever order the map is visited in; every other client keeps its buckets, the newcomer
  starts with a fresh default tier, and the store is full again, not fuller.
\<close>

theorem lru_eviction:
  assumes "store_ok s" "is_range rng" "key_ok key" "valid_time now"
    "gm_lookup (clients s) key = None" "0 < maxClients s" "gm_len (clients s) = maxClients s"
    "getOrCreateClient rng s key now = (s', cb, new)"
  shows "\<exists>old cbo. gm_lookup (clients s) old = Some cbo
    \<and> (\<forall>k c. gm_lookup (clients s) k = Some c \<longrightarrow> mb_LastAccess cbo \<le> mb_LastAccess c)
    \<and> (\<forall>k. gm_lookup (clients s') k =
         (if k = key then Some (Configure (mb_New key) DefaultTier (default_config s DefaultTier) now)
          else if k = old then None else gm_lookup (clients s) k))
    \<and> ActiveClients s' = maxClients s \<and> Evictions s' = i64 (Evictions s + 1)
    \<and> (\<forall>t. bucket_at s' (encodeID old t) = None) \<and> store_ok s'"
proof -
  have ne: "clients s \<noteq> []" using assms(6,7) gm_len_0 [of "clients s"] by linarith
  obtain k c sc where E: "gm_lookup (clients s) k = Some c"
    "\<forall>k' c'. gm_lookup (clients s) k' = Some c' \<longrightarrow> mb_LastAccess c \<le> mb_LastAccess c'"
    "evictLRULocked rng s = s\<lparr>clients := gm_delete k (clients s), evictions := i64 (evictions s + 1), scheduler := sc\<rparr>"
    "sync_ok (evictLRULocked rng s)"
    by (rule evictLRU_effect [OF assms(1,2) ne])
  have kk: "k \<noteq> key" "key_ok k" using E(1) assms(5) clients_okD(1) [OF store_okD(1) [OF assms(1)] E(1)] by auto
  have g: "gm_ok (clients s)" using assms(1) by (simp add: store_ok_def clients_ok_def)
  let ?cb = "Configure (mb_New key) DefaultTier (default_config s DefaultTier) now"
  have room: "room_for rng s = evictLRULocked rng s" using assms(6,7) by (simp add: room_for_def)
  have dc: "default_config (evictLRULocked rng s) DefaultTier = default_config s DefaultTier"
    by (simp add: E(3) default_config_def)
  have C: "clients s' = gm_set key ?cb (gm_delete k (clients s))" "evictions s' = i64 (evictions s + 1)"
    using assms(8) getOrCreateClient_new [OF assms(5), of rng now]
    by (auto simp: room dc Let_def) (simp_all add: E(3))
  have "gm_len (clients s') = gm_len (clients s)"
    unfolding C(1) using g E(1) assms(5) by (intro gm.len_replace) simp_all
  moreover have "store_ok s'" using getOrCreateClient_ok [OF assms(1-4,8)] by blast
  moreover have "gm_lookup (clients s') k = None" using kk(1) by (simp add: C(1) gm_lookup_set gm_lookup_delete)
  then have "bucket_at s' (encodeID k t) = None" for t
    by (simp add: bucket_at_client [OF kk(2)] client_bucket_def)
  ultimately show ?thesis
    using E(1,2) assms(7)
    by (intro exI [of _ k] exI [of _ c])
      (simp add: C gm_lookup_set gm_lookup_delete ActiveClients_def Evictions_def)
qed

definition full_store :: BucketStore where
  "full_store = store_run (fresh_store example_opts) [(\<lambda>ks. ks, SBlock ''bob'' 20)]"

lemma full_store_ok: "store_ok full_store"
  unfolding full_store_def
  by (rule store_run_ok(1) [OF example_opts_ok]) (simp add: event_ok_def is_range_id key_ok_def valid_time_def)

lemma full_store_clients:
  "clients full_store = [(''bob'', BlockAll (Configure (mb_New ''bob'') DefaultTier example_cfg 20))]"
  "maxClients full_store = 1"
  by (simp_all add: full_store_def fresh_store_def store_New_def AttachScheduler_def example_opts_def store_Block_def
      EnsureClient_def getOrCreateClient_def put_client_def schedule_bucket_def schedule_id_def Let_def
      gm_lookup_def gm_set_def gm_len_def default_config_def)

theorem lru_eviction_witness:
  "gm_len (clients full_store) = maxClients full_store
   \<and> (\<exists>s' cb new. getOrCreateClient (\<lambda>ks. ks) full_store ''carol'' 30 = (s', cb, new)
        \<and> gm_lookup (clients s') ''bob'' = None)"
proof -
  obtain s' cb new where r: "getOrCreateClient (\<lambda>ks. ks) full_store ''carol'' 30 = (s', cb, new)"
    by (cases "getOrCreateClient (\<lambda>ks. ks) full_store ''carol'' 30")
  have full: "gm_len (clients full_store) = maxClients full_store" "0 < maxClients full_store"
    "gm_lookup (clients full_store) ''carol'' = None"
    by (simp_all add: full_store_clients gm_len_def gm_lookup_def)
  obtain old cbo where old: "gm_lookup (clients full_store) old = Some cbo"
    "\<And>k. gm_lookup (clients s') k =
         (if k = ''carol'' then Some (Configure (mb_New ''carol'') DefaultTier (default_config full_store DefaultTier) 30)
          else if k = old then None else gm_lookup (clients full_store) k)"
    using lru_eviction [OF full_store_ok is_range_id _ _ full(3,2,1) r] by (auto simp: key_ok_def valid_time_def)
  have "old = ''bob''" using old(1) by (simp add: full_store_clients gm_lookup_def split: if_splits)
  with old(2) [of "''bob''"] r full(1) show ?thesis by auto
qed

section \<open>Decisions\<close>

lemma client_gate_result:
  "Reason (snd (client_gate rng s key tier now)) \<in> {''ok'', ''blocked'', ''client_limit''}"
  "Allowed (snd (client_gate rng s key tier now)) \<longleftrightarrow> Reason (snd (client_gate rng s key tier now)) = ''ok''"
  by (simp_all add: client_gate_def case_prod_beta Let_def)

text \<open>
  C22. The gates fail fast.  A request is allowed exactly when its reason is "ok"; a request
  turned away by the global limit has touched nothing but the global bucket, and one turned
  away by the per-IP limit has touched no client.
\<close>

theorem gates_fail_fast:
  assumes "store_Allow rng wall s req = (s', r)"
  shows "(Allowed r \<longleftrightarrow> Reason r = ''ok'')
    \<and> Reason r \<in> {''ok'', ''blocked'', ''client_limit'', ''ip_limit'', ''global_limit''}
    \<and> (Reason r = ''global_limit'' \<longrightarrow> (\<exists>gb. globalBucket s = Some gb
         \<and> \<not> fst (snd (bucket_Allow gb (req_time wall req)))
         \<and> s' = s\<lparr>globalBucket := Some (fst (bucket_Allow gb (req_time wall req)))\<rparr>))
    \<and> (Reason r = ''ip_limit'' \<longrightarrow> clients s' = clients s \<and> ipLimitEnabled s \<and> SourceIP req \<noteq> [])"
proof -
  let ?now = "req_time wall req"
  obtain s1 a1 r1 where g: "global_gate s ?now = (s1, a1, r1)" by (cases "global_gate s ?now")
  obtain s2 a2 r2 where i: "ip_gate rng s1 (SourceIP req) ?now = (s2, a2, r2)" by (cases "ip_gate rng s1 (SourceIP req) ?now")
  have G: "\<exists>gb. globalBucket s = Some gb \<and> \<not> fst (snd (bucket_Allow gb ?now))
      \<and> s1 = s\<lparr>globalBucket := Some (fst (bucket_Allow gb ?now))\<rparr>" if "\<not> a1"
    using g that by (auto simp: global_gate_def Let_def case_prod_beta split: option.splits)
  have s1: "clients s1 = clients s" "ipLimitEnabled s1 = ipLimitEnabled s"
    using g by (auto simp: global_gate_def Let_def case_prod_beta split: option.splits)
  have I: "clients s2 = clients s1 \<and> ipLimitEnabled s1 \<and> SourceIP req \<noteq> []" if "\<not> a2"
    using i that by (auto simp: ip_gate_def getOrCreateIPBucket_def evictOldestIPLocked_def Let_def case_prod_beta
        split: if_splits option.splits)
  note C = client_gate_result [of rng s2 "ClientKey req" "Tier req" ?now]
  consider "\<not> a1" "s' = s1" "Reason r = ''global_limit''" "\<not> Allowed r"
    | "a1" "\<not> a2" "s' = s2" "Reason r = ''ip_limit''" "\<not> Allowed r"
    | "a1" "a2" "(s', r) = client_gate rng s2 (ClientKey req) (Tier req) ?now"
    using assms g i by (auto simp: store_Allow_gates Let_def split: if_splits)
  then show ?thesis
  proof cases
    case 3
    then have "r = snd (client_gate rng s2 (ClientKey req) (Tier req) ?now)" by (metis snd_conv)
    with C show ?thesis by auto
  qed (use G I s1 in auto)
qed

theorem gates_fail_fast_witness:
  "\<exists>s' r. store_Allow (\<lambda>ks. ks) 0 full_store (request ''bob'' 30) = (s', r) \<and> (Allowed r \<longleftrightarrow> Reason r = ''ok'')"
proof -
  obtain s' r where x: "store_Allow (\<lambda>ks. ks) 0 full_store (request ''bob'' 30) = (s', r)"
    by (cases "store_Allow (\<lambda>ks. ks) 0 full_store (request ''bob'' 30)")
  with gates_fail_fast [OF x] show ?thesis by blast
qed

text \<open>
  C23. A blocked client is always turned away.  While a client is blocked, no request under
  its key is allowed, whatever tier it names, and a request that the other gates let through
  leaves the client blocked and uncharged.
\<close>

theorem blocked_client_rejected:
  assumes "gm_lookup (clients s) (ClientKey req) = Some cb" "mb_IsBlocked cb"
    "store_Allow rng wall s req = (s', r)"
  shows "\<not> Allowed r \<and> Reason r \<in> {''blocked'', ''ip_limit'', ''global_limit''}
    \<and> gm_lookup (clients s') (ClientKey req) = Some cb"
proof -
  let ?now = "req_time wall req"
  obtain s1 a1 r1 where g: "global_gate s ?now = (s1, a1, r1)" by (cases "global_gate s ?now")
  obtain s2 a2 r2 where i: "ip_gate rng s1 (SourceIP req) ?now = (s2, a2, r2)" by (cases "ip_gate rng s1 (SourceIP req) ?now")
  have s1: "clients s1 = clients s" using g by (auto simp: global_gate_def Let_def case_prod_beta split: option.splits)
  have s2: "clients s2 = clients s1"
    using i by (auto simp: ip_gate_def getOrCreateIPBucket_def evictOldestIPLocked_def Let_def case_prod_beta
        split: if_splits option.splits)
  have "client_gate rng s2 (ClientKey req) (Tier req) ?now =
      (s2, \<lparr>Allowed = False, RemainingTokens = 0, RetryAfter = Second, Reason = ''blocked''\<rparr>)"
    using assms(1,2) s1 s2 by (simp add: client_gate_def getOrCreateClient_def)
  with assms(1,3) g i s1 s2 show ?thesis by (auto simp: store_Allow_gates Let_def split: if_splits)
qed

theorem blocked_client_rejected_witness:
  "\<not> Allowed (snd (store_Allow (\<lambda>ks. ks) 0 full_store (request ''bob'' 30)))"
proof -
  let ?cb = "BlockAll (Configure (mb_New ''bob'') DefaultTier example_cfg 20)"
  have "gm_lookup (clients full_store) ''bob'' = Some ?cb" by (simp add: full_store_clients gm_lookup_def)
  moreover have "mb_IsBlocked ?cb"
    by (rule BlockAll_blocks [OF Configure_New_ok]) (simp_all add: valid_time_def)
  ultimately show ?thesis
    using blocked_client_rejected [of full_store "request ''bob'' 30" ?cb "\<lambda>ks. ks" 0
        "fst (store_Allow (\<lambda>ks. ks) 0 full_store (request ''bob'' 30))"
        "snd (store_Allow (\<lambda>ks. ks) 0 full_store (request ''bob'' 30))"]
    by (simp add: request_def)
qed

section \<open>The global rate limit\<close>

fun keeps_global :: "store_event \<Rightarrow> bool" where
  "keeps_global (rng, SSetGlobal cfg now) = False"
| "keeps_global (rng, SDisableGlobal) = False"
| "keeps_global _ = True"

fun event_by :: "gotime \<Rightarrow> store_event \<Rightarrow> bool" where
  "event_by tmax (rng, SAllow wall req) = (req_time wall req \<le> tmax)"
| "event_by tmax (rng, STick now) = (now \<le> tmax)"
| "event_by tmax _ = True"

fun allowed_count :: "BucketStore \<Rightarrow> store_event list \<Rightarrow> nat" where
  "allowed_count s [] = 0"
| "allowed_count s ((rng, SAllow wall req) # es) =
     (if Allowed (snd (store_Allow rng wall s req)) then 1 else 0)
      + allowed_count (store_step s (rng, SAllow wall req)) es"
| "allowed_count s (e # es) = allowed_count (store_step s e) es"

lemma SetIPLimit_global [simp]: "globalBucket (SetIPLimit rng s enabled cfg) = globalBucket s"
proof -
  have "globalBucket (fold clear_ip ips s) = globalBucket s" for ips s
    by (induction ips arbitrary: s) (simp_all add: clear_ip_def Let_def)
  then show ?thesis by (simp add: SetIPLimit_def Let_def)
qed

lemma allowed_by_global:
  assumes "globalBucket s = Some b" "Allowed (snd (store_Allow rng wall s req))"
  shows "fst (snd (bucket_Allow b (req_time wall req)))"
  using assms by (auto simp: store_Allow_gates global_gate_def Let_def case_prod_beta split: if_splits)

text \<open>What one event does to the global bucket is at most one operation of that bucket.\<close>

lemma global_step:
  assumes "store_ok s" "globalBucket s = Some b" "event_ok e" "keeps_global e" "event_by tmax e"
  obtains ops where "globalBucket (store_step s e) = Some (bucket_run b ops)" "list_all (op_time_ok tmax) ops"
    "allowed_count s [e] \<le> admitted b ops"
proof -
  obtain rng x where e: "e = (rng, x)" by (cases e)
  show thesis
  proof (cases x)
    case (SAllow wall req)
    let ?t = "req_time wall req"
    have r: "is_range rng" "key_ok (ClientKey req)" "valid_time ?t" "?t \<le> tmax"
      using assms(3,5) by (simp_all add: e SAllow event_ok_def)
    show thesis
      by (rule that [of "[OpAllow ?t]"])
        (use r assms(2) store_Allow_ok(2) [OF assms(1) r(1-3)] allowed_by_global [OF assms(2)] in
          \<open>auto simp: e SAllow\<close>)
  next
    case (STick now)
    have t: "valid_time now" "now \<le> tmax" using assms(3,5) by (simp_all add: e STick event_ok_def)
    show thesis
    proof (cases "scheduler s")
      case None
      show thesis by (rule that [of "[]"]) (simp_all add: e STick store_tick_def None assms(2))
    next
      case (Some sc)
      have "bucket_at (store_tick s now) globalBucketID \<in> {Some b, Some (ScheduledRefill b now)}"
        using store_tick_effect [OF assms(1) t(1) Some] assms(2) by (auto split: option.split)
      then show thesis using t assms(2) that [of "[]"] that [of "[OpRefill now]"] by (auto simp: e STick)
    qed
  qed (rule that [of "[]"], use assms UpdateClientConfig_ok(2) store_Block_ok(2) store_Unblock_ok(2)
      in \<open>simp_all add: e event_ok_def\<close>)+
qed

lemma bucket_run_append: "bucket_run b (xs @ ys) = bucket_run (bucket_run b xs) ys"
  by (induction xs arbitrary: b) simp_all

lemma admitted_Cons: "admitted b (x # xs) = admitted b [x] + admitted (bucket_step b x) xs"
  by (cases x) simp_all

lemma admitted_append: "admitted b (xs @ ys) = admitted b xs + admitted (bucket_run b xs) ys"
proof (induction xs arbitrary: b)
  case (Cons x xs)
  then show ?case using admitted_Cons [of b x "xs @ ys"] admitted_Cons [of b x xs] by simp
qed simp

lemma allowed_count_Cons: "allowed_count s (e # es) = allowed_count s [e] + allowed_count (store_step s e) es"
proof -
  obtain rng x where "e = (rng, x)" by (cases e)
  then show ?thesis by (cases x) simp_all
qed

lemma global_projection:
  assumes "store_ok s" "globalBucket s = Some b" "list_all event_ok es" "list_all keeps_global es"
    "list_all (event_by tmax) es"
  shows "\<exists>ops. globalBucket (store_run s es) = Some (bucket_run b ops) \<and> list_all (op_time_ok tmax) ops
    \<and> allowed_count s es \<le> admitted b ops"
  using assms
proof (induction es arbitrary: s b)
  case Nil
  then show ?case by (intro exI [of _ "[]"]) simp
next
  case (Cons e es)
  from Cons.prems have e: "event_ok e" "keeps_global e" "event_by tmax e" by simp_all
  obtain ops1 where 1: "globalBucket (store_step s e) = Some (bucket_run b ops1)" "list_all (op_time_ok tmax) ops1"
    "allowed_count s [e] \<le> admitted b ops1"
    by (rule global_step [OF Cons.prems(1,2) e])
  have "store_ok (store_step s e)" by (rule store_step_ok [OF Cons.prems(1) e(1)])
  then obtain ops2 where 2: "globalBucket (store_run (store_step s e) es) = Some (bucket_run (bucket_run b ops1) ops2)"
    "list_all (op_time_ok tmax) ops2" "allowed_count (store_step s e) es \<le> admitted (bucket_run b ops1) ops2"
    using Cons.IH [OF _ 1(1)] Cons.prems(3,4,5) by auto
  show ?case
    using 1 2 by (intro exI [of _ "ops1 @ ops2"])
      (simp add: bucket_run_append admitted_append allowed_count_Cons [of s e es])
qed


definition limited_store :: BucketStore where
  "limited_store = SetGlobalConfig (fresh_store example_opts) example_cfg 1000"

lemma limited_store_ok: "store_ok limited_store"
  unfolding limited_store_def fresh_store_def
  by (intro SetGlobalConfig_ok store_New_ok example_opts_ok) (simp_all add: valid_time_def)

lemma limited_store_global: "globalBucket limited_store = Some example_bucket"
  by (simp add: limited_store_def SetGlobalConfig_def example_bucket_def Let_def)


section \<open>Administration\<close>

lemma update_effect:
  assumes "store_ok s" "is_range rng" "key_ok key" "valid_time now" "cfg_safe cfg" "scheduler s \<noteq> None"
  shows "TierConfig (UpdateClientConfig rng s key tier cfg now) key tier = normalize cfg"
    "bucket_at (UpdateClientConfig rng s key tier cfg now) (encodeID key (tier_name tier)) = Some (bucket_New cfg now)"
    "\<exists>sc. scheduler (UpdateClientConfig rng s key tier cfg now) = Some sc
        \<and> pending sc (encodeID key (tier_name tier)) =
            (if 0 < RefillInterval cfg then Some (now + RefillInterval cfg) else None)"
proof -
  let ?t = "tier_name tier" and ?i = "encodeID key (tier_name tier)"
  obtain s1 cb new where r: "getOrCreateClient rng s key now = (s1, cb, new)" by (cases "getOrCreateClient rng s key now")
  have G: "store_ok s1" "gm_lookup (clients s1) key = Some cb" using getOrCreateClient_ok [OF assms(1-4) r] by blast+
  have "capacities s1 = capacities s" using capacities_create(1) [of rng s key now] r by simp
  with assms(6) obtain sc where sc: "scheduler s1 = Some sc" by (auto simp: capacities_def)
  with G(1) have scok: "sched_ok sc" by (auto simp: store_ok_def sync_ok_def)
  let ?cb = "Configure cb ?t cfg now"
  have E: "UpdateClientConfig rng s key tier cfg now =
      schedule_bucket (unschedule_id (put_client s1 key ?cb) ?i) ?i cfg (Some (bucket_New cfg now))"
    by (simp add: UpdateClientConfig_def EnsureClient_def r Let_def flip: tier_name_def)
  have L: "gm_lookup (clients (UpdateClientConfig rng s key tier cfg now)) key = Some ?cb"
    by (simp add: E gm_lookup_set)
  show "TierConfig (UpdateClientConfig rng s key tier cfg now) key tier = normalize cfg"
    unfolding TierConfig_def tier_name_def [symmetric] Let_def L
    by (simp add: mb_Bucket_def bucket_config_def) (simp add: bucket_New_def Let_def)
  show "bucket_at (UpdateClientConfig rng s key tier cfg now) ?i = Some (bucket_New cfg now)"
    by (simp add: bucket_at_client [OF assms(3)] client_bucket_def L)
  have "NextRefillTime (bucket_New cfg now) = now + RefillInterval cfg" if "0 < RefillInterval cfg"
    using that assms(4) by (simp add: NextRefillTime_def bucket_New_def UnixNano_valid timeAdd_def timeUnix_def Let_def)
  then show "\<exists>sc. scheduler (UpdateClientConfig rng s key tier cfg now) = Some sc
        \<and> pending sc ?i = (if 0 < RefillInterval cfg then Some (now + RefillInterval cfg) else None)"
    using scok by (auto simp: E schedule_bucket_def schedule_id_def unschedule_id_def sc Schedule_correct
        sched_Remove_correct)
qed

text \<open>
  C24. A configuration change takes effect at once.  After \<^verbatim>\<open>UpdateClientConfig\<close> the
  effective configuration of that client and tier is the one given (with a cost of at least
  one), its bucket is full, and it is scheduled exactly for its next refill if it refills at
  all.
\<close>

theorem update_takes_effect:
  assumes "store_ok s" "is_range rng" "key_ok key" "valid_time now" "cfg_safe cfg" "scheduler s \<noteq> None"
  shows "TierConfig (UpdateClientConfig rng s key tier cfg now) key tier = normalize cfg
    \<and> bucket_at (UpdateClientConfig rng s key tier cfg now) (encodeID key (tier_name tier)) = Some (bucket_New cfg now)
    \<and> (\<exists>sc. scheduler (UpdateClientConfig rng s key tier cfg now) = Some sc
        \<and> pending sc (encodeID key (tier_name tier)) =
            (if 0 < RefillInterval cfg then Some (now + RefillInterval cfg) else None))"
  using update_effect [OF assms, of tier] by blast

theorem update_takes_effect_witness:
  "TierConfig (UpdateClientConfig (\<lambda>ks. ks) limited_store ''alice'' ''bulk'' example_cfg 1200) ''alice'' ''bulk''
     = normalize example_cfg"
proof -
  have "scheduler limited_store \<noteq> None"
    by (simp add: limited_store_def SetGlobalConfig_def schedule_bucket_def schedule_id_def unschedule_id_def
        fresh_store_def AttachScheduler_def Let_def)
  with update_takes_effect [OF limited_store_ok is_range_id, of "''alice''" 1200 example_cfg "''bulk''"]
  show ?thesis by (simp add: key_ok_def valid_time_def)
qed

section \<open>Scheduler ids\<close>

text \<open>
  The scheduler id of a client's tier finds that tier again: for a client key without the
  separator \<^verbatim>\<open>decodeID\<close> inverts \<^verbatim>\<open>encodeID\<close>, and unless the key is the name the
  per-IP ids start with, the callback refills the bucket of that client and tier and asks to
  be called again at its next refill.
\<close>

theorem id_round_trip:
  assumes "store_ok s" "valid_time now" "key_ok key" "bucket_at s (encodeID key tier) = Some b"
  shows "decodeID (encodeID key tier) = Some (key, tier)
    \<and> (\<exists>s'. OnDue s (encodeID key tier) now = (s', NextRefillTime (refilled b now), True)
        \<and> bucket_at s' = (bucket_at s)(encodeID key tier \<mapsto> refilled b now))"
proof -
  have shape: "shape_ok s" using assms(1) by (simp add: store_ok_shape)
  have "ScheduledRefill b now = refilled b now"
    by (rule ScheduledRefill_exact [OF bucket_at_ok [OF shape assms(4)] assms(2)])
  moreover obtain s' where "OnDue s (encodeID key tier) now = (s', NextRefillTime (ScheduledRefill b now), True)"
    "bucket_at s' = (bucket_at s)(encodeID key tier \<mapsto> ScheduledRefill b now)" "shape_ok s'" "scheduler s' = scheduler s"
    by (rule OnDue_bucket [OF shape assms(4,2)])
  ultimately show ?thesis using assms(3) by (auto simp: decode_encode key_ok_def)
qed

lemma full_store_bucket:
  "bucket_at full_store (encodeID ''bob'' DefaultTier) = Some (bucket_Block (bucket_New example_cfg 20))"
  by (simp add: bucket_at_client key_ok_def client_bucket_def full_store_clients gm_lookup_def BlockAll_def gm_map_def
      Configure_def mb_New_def gm_set_def)

theorem id_round_trip_witness:
  "\<exists>s'. OnDue full_store (encodeID ''bob'' DefaultTier) 500 =
     (s', NextRefillTime (refilled (bucket_Block (bucket_New example_cfg 20)) 500), True)"
  using id_round_trip [OF full_store_ok _ _ full_store_bucket, of 500] by (auto simp: key_ok_def valid_time_def)

text \<open>
  A client whose key is "__ip__", which key validation accepts, is beyond the reach of the
  scheduler's callback: its scheduler ids start with the prefix of per-IP ids, so the callback
  looks for an IP address named like the tier, finds none, and drops the entry, whatever
  buckets the client has.
\<close>

lemma ip_named_client_unreachable:
  assumes "gm_lookup (ipBuckets s) tier = None"
  shows "OnDue s (encodeID ''__ip__'' tier) now = (s, zeroTime, False)"
proof -
  have "encodeID ''__ip__'' tier = ipIDPrefix @ tier" by (simp add: encodeID_def ipIDPrefix_def)
  with assms show ?thesis by (simp add: OnDue_def)
qed

section \<open>Blocks that do not last\<close>

text \<open>
  Reconfiguring a blocked client lifts the block.  The block is a flag of each bucket and
  \<^verbatim>\<open>UpdateClientConfig\<close> replaces the bucket of the tier by a new one; when no other tier
  is blocked, as for every client that only uses the default tier, the client is not blocked
  any more and its bucket is full.
\<close>

theorem reconfigure_unblocks:
  assumes "store_ok s" "gm_lookup (clients s) key = Some cb"
    "\<forall>t b. gm_lookup (buckets cb) t = Some b \<and> bucket_IsBlocked b \<longrightarrow> t = tier_name tier"
  shows "\<exists>cb'. gm_lookup (clients (UpdateClientConfig rng s key tier cfg now)) key = Some cb' \<and> \<not> mb_IsBlocked cb'
    \<and> mb_Bucket cb' tier = Some (bucket_New cfg now)"
proof -
  let ?cb = "Configure cb (tier_name tier) cfg now"
  have "gm_lookup (clients (UpdateClientConfig rng s key tier cfg now)) key = Some ?cb"
    using assms(2) by (simp add: UpdateClientConfig_def EnsureClient_def getOrCreateClient_def Let_def gm_lookup_set
        flip: tier_name_def)
  moreover have "gm_ok (buckets ?cb)"
    using clients_okD(2) [OF store_okD(1) [OF assms(1)] assms(2)] by (simp add: client_ok_def Configure_def)
  then have "\<not> mb_IsBlocked ?cb"
    using assms(3) by (auto simp: mb_IsBlocked_iff bucket_IsBlocked_def bucket_New_def Let_def)
  ultimately show ?thesis by (auto simp: mb_Bucket_def)
qed

theorem reconfigure_unblocks_witness:
  "(\<exists>cb. gm_lookup (clients full_store) ''bob'' = Some cb \<and> mb_IsBlocked cb)
   \<and> (\<exists>cb. gm_lookup (clients (UpdateClientConfig (\<lambda>ks. ks) full_store ''bob'' [] example_cfg 40)) ''bob'' = Some cb
        \<and> \<not> mb_IsBlocked cb)"
proof -
  let ?cb = "BlockAll (Configure (mb_New ''bob'') DefaultTier example_cfg 20)"
  have c: "gm_lookup (clients full_store) ''bob'' = Some ?cb" by (simp add: full_store_clients gm_lookup_def)
  have "mb_IsBlocked ?cb"
    by (rule BlockAll_blocks [OF Configure_New_ok]) (simp_all add: valid_time_def)
  moreover have "\<forall>t b. gm_lookup (buckets ?cb) t = Some b \<and> bucket_IsBlocked b \<longrightarrow> t = tier_name []"
    by (simp add: BlockAll_def gm_lookup_map mb_New_def)
  ultimately show ?thesis
    using c reconfigure_unblocks [OF full_store_ok c, of "[]" "\<lambda>ks. ks" example_cfg 40] by blast
qed

text \<open>
  A block does not protect a client from eviction, and eviction forgets the block.  A
  blocked client's rejected requests do not count as accesses, so a newcomer can push it out
  of a full store; when it returns it is a new client with a full bucket.
\<close>

theorem eviction_forgets_block:
  "\<exists>s1 s2 r1 r2. store_Allow (\<lambda>ks. ks) 0 full_store (request ''carol'' 30) = (s1, r1) \<and> Allowed r1
     \<and> store_Allow (\<lambda>ks. ks) 0 s1 (request ''bob'' 40) = (s2, r2) \<and> Allowed r2"
proof -
  have "Allowed (snd (store_Allow (\<lambda>ks. ks) 0 full_store (request ''carol'' 30)))"
    "Allowed (snd (store_Allow (\<lambda>ks. ks) 0 (fst (store_Allow (\<lambda>ks. ks) 0 full_store (request ''carol'' 30))) (request ''bob'' 40)))"
    by code_simp+
  then show ?thesis by (metis prod.collapse)
qed

end
