(* ===== verification/StoreRace.thy ===== *)
theory StoreRace
  imports StoreProps
begin

text \<open>
  A pass of the scheduler while the store is in use.  \<^verbatim>\<open>processDue\<close> holds the scheduler's
  lock only to pop the due entries and to reschedule each of them; requests, admin calls and
  evictions run in between (\<^verbatim>\<open>internal/scheduler/scheduler.go\<close> and
  \<^verbatim>\<open>internal/store/store.go\<close>).  The pass is a step relation here: pop, one callback, one
  reschedule, interleaved with whole operations of the store.

  The invariant compares the store with a twin whose schedule agrees with its buckets: the
  operations never read the schedule, so both stay alike but for the entries in flight.
\<close>

section \<open>The interleaved pass\<close>

record race =
  rstore :: BucketStore
  passNow :: gotime
  todo :: "string list"
  returned :: "(string \<times> gotime \<times> bool) option"

fun is_tick :: "store_op \<Rightarrow> bool" where
  "is_tick (STick now) = True"
| "is_tick _ = False"

definition set_sched :: "(Scheduler \<Rightarrow> Scheduler) \<Rightarrow> BucketStore \<Rightarrow> BucketStore" where
  "set_sched f s = s\<lparr>scheduler := map_option f (scheduler s)\<rparr>"

inductive race_step :: "race \<Rightarrow> race \<Rightarrow> bool" where
  operation: "event_ok e \<Longrightarrow> \<not> is_tick (snd e) \<Longrightarrow> race_step r (r\<lparr>rstore := store_step (rstore r) e\<rparr>)"
| pop: "todo r = [] \<Longrightarrow> returned r = None \<Longrightarrow> valid_time now \<Longrightarrow> scheduler (rstore r) = Some sc \<Longrightarrow>
     popDue sc now = (sc', es) \<Longrightarrow>
     race_step r (r\<lparr>rstore := (rstore r)\<lparr>scheduler := Some sc'\<rparr>, passNow := now, todo := map entryId es\<rparr>)"
| callback: "todo r = i # is \<Longrightarrow> returned r = None \<Longrightarrow> OnDue (rstore r) i (passNow r) = (s', next, ok) \<Longrightarrow>
     race_step r (r\<lparr>rstore := set_sched (\<lambda>sc. sc\<lparr>refillsTotal := i64 (refillsTotal sc + 1)\<rparr>) s', todo := is,
       returned := Some (i, next, ok)\<rparr>)"
| reschedule: "returned r = Some (i, next, ok) \<Longrightarrow>
     race_step r (r\<lparr>rstore := (if ok then set_sched (\<lambda>sc. Schedule sc i next) (rstore r) else rstore r),
       returned := None\<rparr>)"

definition race_init :: "BucketStore \<Rightarrow> race" where
  "race_init s = \<lparr>rstore = s, passNow = 0, todo = [], returned = None\<rparr>"

inductive race_reach :: "race \<Rightarrow> race \<Rightarrow> bool" for r0 where
  init: "race_reach r0 r0"
| step: "race_reach r0 r \<Longrightarrow> race_step r r' \<Longrightarrow> race_reach r0 r'"

text \<open>The ids of the pass that will be in the schedule again.\<close>

definition busy :: "race \<Rightarrow> string set" where
  "busy r = set (todo r) \<union> (case returned r of Some (i, next, True) \<Rightarrow> {i} | _ \<Rightarrow> {})"

section \<open>Twins\<close>

definition covers :: "string set \<Rightarrow> Scheduler \<Rightarrow> Scheduler \<Rightarrow> bool" where
  "covers K sc g \<longleftrightarrow> sched_ok sc \<and> sched_ok g \<and> (\<forall>i. i \<notin> K \<longrightarrow> pending g i \<noteq> None \<longrightarrow> pending sc i \<noteq> None)"

definition twin :: "string set \<Rightarrow> BucketStore \<Rightarrow> BucketStore \<Rightarrow> bool" where
  "twin K s g \<longleftrightarrow> (\<exists>sc scg. scheduler g = Some scg \<and> s = g\<lparr>scheduler := Some sc\<rparr> \<and> covers K sc scg)"

lemma twinE:
  assumes "twin K s g"
  obtains sc scg where "scheduler g = Some scg" "s = g\<lparr>scheduler := Some sc\<rparr>" "covers K sc scg"
  using assms by (auto simp: twin_def)

lemma twin_fields:
  assumes "twin K s g"
  shows "clients s = clients g" "maxClients s = maxClients g" "tierDefaults s = tierDefaults g"
    "globalBucket s = globalBucket g" "evictions s = evictions g" "ipBuckets s = ipBuckets g"
    "ipBucketCap s = ipBucketCap g" "ipLimitEnabled s = ipLimitEnabled g" "ipConfigPtr s = ipConfigPtr g"
    "default_config s = default_config g" "client_access s = client_access g" "ip_access s = ip_access g"
    "bucket_at s = bucket_at g"
  using assms
  by (auto simp: twin_def default_config_def client_access_def ip_access_def bucket_at_def fun_eq_iff)

lemma twinI: "scheduler g = Some scg \<Longrightarrow> s = g\<lparr>scheduler := Some sc\<rparr> \<Longrightarrow> covers K sc scg \<Longrightarrow> twin K s g"
  by (auto simp: twin_def)

lemma twin_schedule: "twin K s g \<Longrightarrow> twin K (schedule_id s i t) (schedule_id g i t)"
  by (erule twinE, rule_tac sc = "Schedule sc i t" and scg = "Schedule scg i t" in twinI)
    (auto simp: schedule_id_def covers_def Schedule_correct)

lemma twin_unschedule: "twin K s g \<Longrightarrow> twin K (unschedule_id s i) (unschedule_id g i)"
  by (erule twinE, rule_tac sc = "sched_Remove sc i" and scg = "sched_Remove scg i" in twinI)
    (auto simp: unschedule_id_def covers_def sched_Remove_correct)

lemma twin_update:
  assumes "twin K s g"
  shows "twin K (s\<lparr>clients := m\<rparr>) (g\<lparr>clients := m\<rparr>)" "twin K (s\<lparr>ipBuckets := ips\<rparr>) (g\<lparr>ipBuckets := ips\<rparr>)"
    "twin K (s\<lparr>globalBucket := b\<rparr>) (g\<lparr>globalBucket := b\<rparr>)"
    "twin K (s\<lparr>clients := m, evictions := n\<rparr>) (g\<lparr>clients := m, evictions := n\<rparr>)"
    "twin K (s\<lparr>ipLimitEnabled := e, ipConfigPtr := p\<rparr>) (g\<lparr>ipLimitEnabled := e, ipConfigPtr := p\<rparr>)"
proof -
  from assms obtain sc scg where t: "scheduler g = Some scg" "s = g\<lparr>scheduler := Some sc\<rparr>" "covers K sc scg" by (rule twinE)
  show "twin K (s\<lparr>clients := m\<rparr>) (g\<lparr>clients := m\<rparr>)" "twin K (s\<lparr>ipBuckets := ips\<rparr>) (g\<lparr>ipBuckets := ips\<rparr>)"
    "twin K (s\<lparr>globalBucket := b\<rparr>) (g\<lparr>globalBucket := b\<rparr>)"
    "twin K (s\<lparr>clients := m, evictions := n\<rparr>) (g\<lparr>clients := m, evictions := n\<rparr>)"
    "twin K (s\<lparr>ipLimitEnabled := e, ipConfigPtr := p\<rparr>) (g\<lparr>ipLimitEnabled := e, ipConfigPtr := p\<rparr>)"
    by (rule twinI [OF _ _ t(3)]; simp add: t(1,2))+
qed

lemma twin_fold:
  assumes "\<And>x s g. twin K s g \<Longrightarrow> twin K (f x s) (f x g)" "twin K s g"
  shows "twin K (fold f xs s) (fold f xs g)"
  using assms(2) by (induction xs arbitrary: s g) (simp_all add: assms(1))

lemmas twin_basic = twin_schedule twin_unschedule twin_update

lemma twin_schedule_bucket: "twin K s g \<Longrightarrow> twin K (schedule_bucket s i c ob) (schedule_bucket g i c ob)"
  by (simp add: schedule_bucket_def twin_basic split: option.split)

lemma twin_put_client: "twin K s g \<Longrightarrow> twin K (put_client s k cb) (put_client g k cb)"
  by (simp add: put_client_def twin_fields twin_basic)

lemma twin_evict:
  assumes "twin K s g"
  shows "twin K (evictLRULocked rng s) (evictLRULocked rng g)" "twin K (evictOldestIPLocked rng s) (evictOldestIPLocked rng g)"
  using assms
  by (auto simp: evictLRULocked_def evictOldestIPLocked_def twin_fields [OF assms] Let_def
      intro!: twin_basic twin_fold split: option.split)

definition twins :: "string set \<Rightarrow> BucketStore \<times> 'a \<Rightarrow> BucketStore \<times> 'a \<Rightarrow> bool" where
  "twins K x y \<longleftrightarrow> twin K (fst x) (fst y) \<and> snd x = snd y"

lemma twin_getOrCreateClient:
  assumes "twin K s g"
  shows "twins K (getOrCreateClient rng s key now) (getOrCreateClient rng g key now)"
proof -
  define s1 where "s1 = (if maxClients s > 0 \<and> gm_len (clients s) \<ge> maxClients s then evictLRULocked rng s else s)"
  define g1 where "g1 = (if maxClients g > 0 \<and> gm_len (clients g) \<ge> maxClients g then evictLRULocked rng g else g)"
  have t: "twin K s1 g1" unfolding s1_def g1_def using assms twin_evict [OF assms] by (simp add: twin_fields [OF assms])
  show ?thesis
    unfolding twins_def getOrCreateClient_def Let_def s1_def [symmetric] g1_def [symmetric]
    using assms t by (simp add: twin_fields [OF assms] twin_fields [OF t] twin_schedule_bucket twin_basic split: option.split)
qed

lemma twin_getOrCreateIPBucket:
  assumes "twin K s g"
  shows "twins K (getOrCreateIPBucket rng s ip now) (getOrCreateIPBucket rng g ip now)"
proof -
  define s1 where "s1 = (if gm_len (ipBuckets s) \<ge> ipBucketCap s then evictOldestIPLocked rng s else s)"
  define g1 where "g1 = (if gm_len (ipBuckets g) \<ge> ipBucketCap g then evictOldestIPLocked rng g else g)"
  have t: "twin K s1 g1" unfolding s1_def g1_def using assms twin_evict [OF assms] by (simp add: twin_fields [OF assms])
  show ?thesis
    unfolding twins_def getOrCreateIPBucket_def Let_def s1_def [symmetric] g1_def [symmetric]
    using assms t by (simp add: twin_fields [OF assms] twin_fields [OF t] twin_schedule_bucket twin_basic split: option.split)
qed

lemma twin_ensureTier:
  assumes "twin K s g"
  shows "twins K (ensureTier s cb tier now) (ensureTier g cb tier now)"
  using assms
  by (simp add: twins_def ensureTier_def twin_fields [OF assms] twin_schedule_bucket twin_put_client Let_def split: option.split)

lemma twin_global_gate:
  assumes "twin K s g"
  shows "twins K (global_gate s now) (global_gate g now)"
  using assms by (simp add: twins_def global_gate_def twin_fields [OF assms] twin_basic case_prod_beta Let_def split: option.split)

lemma twin_ip_gate:
  assumes "twin K s g"
  shows "twins K (ip_gate rng s ip now) (ip_gate rng g ip now)"
proof -
  have t: "twin K (fst (getOrCreateIPBucket rng s ip now)) (fst (getOrCreateIPBucket rng g ip now))"
    "snd (getOrCreateIPBucket rng s ip now) = snd (getOrCreateIPBucket rng g ip now)"
    using twin_getOrCreateIPBucket [OF assms] by (simp_all add: twins_def)
  show ?thesis
    using assms t by (simp add: twins_def ip_gate_def case_prod_beta Let_def twin_fields [OF assms] twin_fields [OF t(1)] twin_basic)
qed

lemma twin_client_gate:
  assumes "twin K s g"
  shows "twins K (client_gate rng s key tier now) (client_gate rng g key tier now)"
proof -
  have t: "twin K (fst (getOrCreateClient rng s key now)) (fst (getOrCreateClient rng g key now))"
    "snd (getOrCreateClient rng s key now) = snd (getOrCreateClient rng g key now)"
    using twin_getOrCreateClient [OF assms] by (simp_all add: twins_def)
  have e: "twin K (fst (ensureTier (fst (getOrCreateClient rng s key now)) cb tier now))
      (fst (ensureTier (fst (getOrCreateClient rng g key now)) cb tier now))"
    "snd (ensureTier (fst (getOrCreateClient rng s key now)) cb tier now) =
      snd (ensureTier (fst (getOrCreateClient rng g key now)) cb tier now)" for cb
    using twin_ensureTier [OF t(1)] by (simp_all add: twins_def)
  show ?thesis using t e by (simp add: twins_def client_gate_def case_prod_beta Let_def twin_put_client)
qed

lemma twin_Allow:
  assumes "twin K s g"
  shows "twins K (store_Allow rng wall s req) (store_Allow rng wall g req)"
proof -
  let ?now = "req_time wall req"
  have t1: "twin K (fst (global_gate s ?now)) (fst (global_gate g ?now))" "snd (global_gate s ?now) = snd (global_gate g ?now)"
    using twin_global_gate [OF assms] by (simp_all add: twins_def)
  let ?s1 = "fst (global_gate s ?now)" and ?g1 = "fst (global_gate g ?now)"
  have t2: "twin K (fst (ip_gate rng ?s1 (SourceIP req) ?now)) (fst (ip_gate rng ?g1 (SourceIP req) ?now))"
    "snd (ip_gate rng ?s1 (SourceIP req) ?now) = snd (ip_gate rng ?g1 (SourceIP req) ?now)"
    using twin_ip_gate [OF t1(1)] by (simp_all add: twins_def)
  show ?thesis
    using t1 t2 twin_client_gate [OF t2(1)] by (simp add: twins_def store_Allow_gates case_prod_beta Let_def)
qed


lemma twin_EnsureClient:
  assumes "twin K s g"
  shows "twins K (EnsureClient rng s key now) (EnsureClient rng g key now)"
  using twin_getOrCreateClient [OF assms] by (simp add: twins_def EnsureClient_def case_prod_beta)

lemma twin_admin:
  assumes "twin K s g"
  shows "twin K (UpdateClientConfig rng s key tier cfg now) (UpdateClientConfig rng g key tier cfg now)"
    "twin K (store_Block rng s key now) (store_Block rng g key now)"
    "twin K (store_Unblock s key) (store_Unblock g key)"
    "twin K (SetGlobalConfig s cfg now) (SetGlobalConfig g cfg now)" "twin K (DisableGlobal s) (DisableGlobal g)"
    "twin K (SetIPLimit rng s enabled cfg) (SetIPLimit rng g enabled cfg)"
proof -
  have e: "twin K (fst (EnsureClient rng s key now)) (fst (EnsureClient rng g key now))"
    "snd (EnsureClient rng s key now) = snd (EnsureClient rng g key now)"
    using twin_EnsureClient [OF assms] by (simp_all add: twins_def)
  show "twin K (UpdateClientConfig rng s key tier cfg now) (UpdateClientConfig rng g key tier cfg now)"
    unfolding UpdateClientConfig_def Let_def case_prod_beta e(2)
    by (rule twin_schedule_bucket [OF twin_unschedule [OF twin_put_client [OF e(1)]]])
  show "twin K (store_Block rng s key now) (store_Block rng g key now)"
    unfolding store_Block_def Let_def case_prod_beta e(2) by (rule twin_put_client [OF e(1)])
  show "twin K (store_Unblock s key) (store_Unblock g key)"
    using assms by (simp add: store_Unblock_def twin_fields [OF assms] twin_put_client split: option.split)
  show "twin K (SetGlobalConfig s cfg now) (SetGlobalConfig g cfg now)" "twin K (DisableGlobal s) (DisableGlobal g)"
    using assms by (simp_all add: SetGlobalConfig_def DisableGlobal_def Let_def twin_schedule_bucket twin_basic)
  have c: "twin K (clear_ip x a) (clear_ip x b)" if "twin K a b" for x a b
    unfolding clear_ip_def Let_def twin_fields(6) [OF twin_unschedule [OF that]]
    by (rule twin_update(2) [OF twin_unschedule [OF that]])
  show "twin K (SetIPLimit rng s enabled cfg) (SetIPLimit rng g enabled cfg)"
    using assms by (simp add: SetIPLimit_def Let_def twin_fields [OF assms] twin_basic twin_fold [where f = clear_ip, OF c])
qed

lemma twin_step: "twin K s g \<Longrightarrow> \<not> is_tick (snd e) \<Longrightarrow> twin K (store_step s e) (store_step g e)"
proof -
  assume t: "twin K s g" and "\<not> is_tick (snd e)"
  moreover obtain rng x where "e = (rng, x)" by (cases e)
  ultimately show ?thesis using twin_Allow [OF t] by (cases x) (auto simp: twins_def twin_admin)
qed

lemma twin_OnDue:
  assumes "twin K s g"
  shows "twins K (OnDue s i now) (OnDue g i now)"
  using assms
  by (simp add: twins_def OnDue_def twin_fields [OF assms] twin_basic twin_put_client Let_def split: option.split)

section \<open>The pass keeps a twin\<close>

lemma OnDue_cases:
  assumes "shape_ok s" "valid_time now"
  obtains (gone) "OnDue s i now = (s, zeroTime, False)" "bucket_at s i = None"
  | (refilled) j b s' where "OnDue s i now = (s', NextRefillTime (ScheduledRefill b now), True)"
      "bucket_at s j = Some b" "bucket_at s' = (bucket_at s)(j \<mapsto> ScheduledRefill b now)" "shape_ok s'"
      "scheduler s' = scheduler s"
proof (cases "bucket_at s i")
  case (Some b)
  then show thesis using OnDue_bucket [OF assms(1) Some assms(2)] refilled by metis
next
  case None
  show thesis
  proof (cases "snd (snd (OnDue s i now))")
    case False
    then have "OnDue s i now = (s, zeroTime, False)"
      by (auto simp: OnDue_def Let_def split: if_splits option.splits)
    with None gone show thesis by blast
  next
    case True
    with None obtain k t cb where i: "i \<noteq> globalBucketID" "\<not> HasPrefix i ipIDPrefix" "decodeID i = Some (k, t)"
      "gm_lookup (clients s) k = Some cb" "mb_Bucket cb t \<noteq> None" "gm_lookup (buckets cb) t = None"
      by (auto simp: OnDue_def bucket_at_def client_bucket_def split: if_splits option.splits)
    have k: "key_ok k" using assms(1) i(4) clients_okD(1) by (auto simp: shape_ok_def)
    from i(5,6) have t: "t = []" by (auto simp: mb_Bucket_def tier_name_def split: if_splits)
    let ?j = "encodeID k DefaultTier"
    have j: "?j \<noteq> globalBucketID" "\<not> HasPrefix ?j ipIDPrefix" "decodeID ?j = Some (k, DefaultTier)"
      using k by (auto simp: encode_no_ip decode_encode key_ok_def)
    have eq: "OnDue s i now = OnDue s ?j now"
      using i j t by (simp add: OnDue_def mb_Bucket_def tier_name_def split: option.split)
    from i(5) t have "bucket_at s ?j \<noteq> None"
      by (auto simp: bucket_at_client [OF k] client_bucket_def i(4) mb_Bucket_def tier_name_def)
    then obtain b where b: "bucket_at s ?j = Some b" by blast
    show thesis using OnDue_bucket [OF assms(1) b assms(2)] b eq refilled by metis
  qed
qed

lemma OnDue_ok:
  assumes "store_ok s" "valid_time now" "OnDue s i now = (s', next, ok)"
  shows "store_ok s'" "\<not> ok \<Longrightarrow> s' = s \<and> bucket_at s i = None"
proof -
  have sh: "shape_ok s" "sync_ok s" using assms(1) by (simp_all add: store_ok_shape)
  have "store_ok s' \<and> (\<not> ok \<longrightarrow> s' = s \<and> bucket_at s i = None)"
  proof (cases rule: OnDue_cases [OF sh(1) assms(2), of i, case_names gone refilled])
    case gone
    with assms show ?thesis by simp
  next
    case (refilled j b u)
    have "sync_ok u"
      by (rule sync_keep [OF sh(2) refilled(5,3,2) later_Refill [OF bucket_at_ok [OF sh(1) refilled(2)] assms(2)]])
    with refilled assms(3) show ?thesis by (simp add: store_ok_shape)
  qed
  then show "store_ok s'" "\<not> ok \<Longrightarrow> s' = s \<and> bucket_at s i = None" by blast+
qed

lemma set_sched_Some: "scheduler s = Some sc \<Longrightarrow> set_sched f s = s\<lparr>scheduler := Some (f sc)\<rparr>"
  by (simp add: set_sched_def)

text \<open>The scheduler of one twin changes: the other stays as it is.\<close>

lemma twin_set_sched:
  assumes "twin K s g" "scheduler s = Some sc" "\<And>scg. scheduler g = Some scg \<Longrightarrow> covers K sc scg \<Longrightarrow> covers K' sc' scg"
  shows "twin K' (s\<lparr>scheduler := Some sc'\<rparr>) g"
  using assms by (elim twinE) (auto intro: twinI)

definition race_ok :: "race \<Rightarrow> bool" where
  "race_ok r \<longleftrightarrow> (todo r \<noteq> [] \<longrightarrow> valid_time (passNow r)) \<and> (\<exists>g. store_ok g \<and> twin (busy r) (rstore r) g)"

lemma race_ok_scheduler:
  assumes "race_ok r"
  obtains sc where "scheduler (rstore r) = Some sc" "sched_ok sc"
  using assms by (auto simp: race_ok_def twin_def covers_def)

lemma race_ok_operation:
  assumes "race_ok r" "event_ok e" "\<not> is_tick (snd e)"
  shows "race_ok (r\<lparr>rstore := store_step (rstore r) e\<rparr>)"
proof -
  let ?r = "r\<lparr>rstore := store_step (rstore r) e\<rparr>"
  from assms(1) obtain g where g: "store_ok g" "twin (busy r) (rstore r) g" by (auto simp: race_ok_def)
  have b: "busy ?r = busy r" by (simp add: busy_def)
  have "store_ok (store_step g e) \<and> twin (busy ?r) (rstore ?r) (store_step g e)"
    using twin_step [OF g(2) assms(3)] store_step_ok [OF g(1) assms(2)] by (simp add: b)
  with assms(1) show ?thesis unfolding race_ok_def by auto
qed

lemma race_ok_pop:
  assumes "race_ok r" "todo r = []" "returned r = None" "valid_time now" "scheduler (rstore r) = Some sc" "popDue sc now = (sc', es)"
  shows "race_ok (r\<lparr>rstore := (rstore r)\<lparr>scheduler := Some sc'\<rparr>, passNow := now, todo := map entryId es\<rparr>)"
proof -
  from assms(1-3) obtain g where g: "store_ok g" "twin {} (rstore r) g" by (auto simp: race_ok_def busy_def)
  obtain sc0 where "scheduler (rstore r) = Some sc0" "sched_ok sc0" by (rule race_ok_scheduler [OF assms(1)])
  with assms(5) have "sched_ok sc" by simp
  then have P: "popped_ok sc now sc' es" by (rule popDue_correct [OF _ assms(6)])
  then have due: "\<exists>e\<in>set es. entryId e = i" if "pending sc i = Some t" "t \<le> now" for i t
    using that unfolding popped_ok_def by blast
  have "covers (set (map entryId es)) sc' scg" if "covers {} sc scg" for scg
    unfolding covers_def
  proof (intro conjI allI impI)
    show "sched_ok sc'" "sched_ok scg" using P that by (simp_all add: popped_ok_def covers_def)
    fix i assume i: "i \<notin> set (map entryId es)" "pending scg i \<noteq> None"
    with that obtain t where t: "pending sc i = Some t" by (auto simp: covers_def)
    moreover have "\<not> t \<le> now" using i(1) due [OF t] by auto
    ultimately show "pending sc' i \<noteq> None" using P by (simp add: popped_ok_def not_due_def)
  qed
  then have "twin (set (map entryId es)) ((rstore r)\<lparr>scheduler := Some sc'\<rparr>) g"
    by (rule twin_set_sched [OF g(2) assms(5)])
  with g(1) assms(3,4) show ?thesis by (auto simp: race_ok_def busy_def)
qed


lemma race_ok_callback:
  assumes "race_ok r" "todo r = i # is" "returned r = None" "OnDue (rstore r) i (passNow r) = (s', next, ok)"
  shows "race_ok (r\<lparr>rstore := set_sched (\<lambda>sc. sc\<lparr>refillsTotal := i64 (refillsTotal sc + 1)\<rparr>) s', todo := is,
    returned := Some (i, next, ok)\<rparr>)" (is "race_ok ?r")
proof -
  from assms(1,2) have v: "valid_time (passNow r)" by (simp add: race_ok_def)
  from assms(1-3) obtain g where g: "store_ok g" "twin (set (i # is)) (rstore r) g" by (auto simp: race_ok_def busy_def)
  obtain g' where G: "OnDue g i (passNow r) = (g', next, ok)" "twin (set (i # is)) s' g'"
    using twin_OnDue [OF g(2), of i "passNow r"] assms(4) by (cases "OnDue g i (passNow r)") (auto simp: twins_def)
  note ok = OnDue_ok [OF g(1) v G(1)]
  from G(2) obtain sc where sc: "scheduler s' = Some sc" by (auto elim: twinE)
  have "covers (busy ?r) (sc\<lparr>refillsTotal := i64 (refillsTotal sc + 1)\<rparr>) scg"
    if "scheduler g' = Some scg" "covers (set (i # is)) sc scg" for scg
  proof (cases ok)
    case True
    then have "busy ?r = set (i # is)" by (auto simp: busy_def)
    with that(2) show ?thesis by (simp add: covers_def)
  next
    case False
    with ok(2) have "bucket_at g i = None" "g' = g" by auto
    with g(1) that(1) have "pending scg i = None"
      by (metis store_okD(5) sync_ok_def synced1.simps(1) synced_def)
    moreover have "busy ?r = set is" using False by (auto simp: busy_def)
    ultimately show ?thesis using that(2) unfolding covers_def by (metis insert_iff list.set(2) sched_ok_count)
  qed
  then have "twin (busy ?r) (rstore ?r) g'"
    using twin_set_sched [OF G(2) sc] by (simp add: set_sched_Some [OF sc])
  with ok(1) v show ?thesis by (auto simp: race_ok_def)
qed

lemma race_ok_reschedule:
  assumes "race_ok r" "returned r = Some (i, next, ok)"
  shows "race_ok (r\<lparr>rstore := (if ok then set_sched (\<lambda>sc. Schedule sc i next) (rstore r) else rstore r), returned := None\<rparr>)"
    (is "race_ok ?r")
proof -
  from assms(1) obtain g where g: "store_ok g" "twin (busy r) (rstore r) g" by (auto simp: race_ok_def)
  from g(2) obtain sc where sc: "scheduler (rstore r) = Some sc" by (auto elim: twinE)
  have b: "busy r = (if ok then insert i (set (todo r)) else set (todo r))" "busy ?r = set (todo r)"
    using assms(2) by (auto simp: busy_def split: bool.splits)
  have "twin (busy ?r) (rstore ?r) g"
  proof (cases ok)
    case True
    have "covers (busy ?r) (Schedule sc i next) scg" if "covers (busy r) sc scg" for scg
      using that True unfolding b by (auto simp: covers_def Schedule_correct)
    then have "twin (busy ?r) ((rstore r)\<lparr>scheduler := Some (Schedule sc i next)\<rparr>) g"
      by (rule twin_set_sched [OF g(2) sc])
    with True show ?thesis by (simp add: set_sched_Some [OF sc])
  next
    case False
    with g(2) b show ?thesis by simp
  qed
  with assms(1) g(1) show ?thesis by (auto simp: race_ok_def)
qed

lemma race_step_ok: "race_step r r' \<Longrightarrow> race_ok r \<Longrightarrow> race_ok r'"
  by (induction rule: race_step.induct)
    (blast intro: race_ok_operation race_ok_pop race_ok_callback race_ok_reschedule)+

lemma race_reach_ok: "race_reach r0 r \<Longrightarrow> race_ok r0 \<Longrightarrow> race_ok r"
  by (induction rule: race_reach.induct) (blast intro: race_step_ok)+

lemma race_init_ok:
  assumes "store_ok s" "scheduler s \<noteq> None"
  shows "race_ok (race_init s)"
proof -
  from assms(2) obtain sc where sc: "scheduler s = Some sc" by blast
  with assms(1) have "sched_ok sc" by (simp add: store_ok_def sync_ok_def)
  with sc have "twin (busy (race_init s)) s s" by (intro twinI [of _ sc _ sc]) (simp_all add: covers_def)
  with assms(1) show ?thesis by (auto simp: race_ok_def race_init_def)
qed



section \<open>What the interleaving costs\<close>

text \<open>The two orders in which one administrative call can fall into a pass over one entry:
  after its callback, and before it.\<close>

definition popped :: "BucketStore \<Rightarrow> gotime \<Rightarrow> BucketStore" where
  "popped s now = set_sched (\<lambda>sc. fst (popDue sc now)) s"

definition called_back :: "BucketStore \<Rightarrow> string \<Rightarrow> gotime \<Rightarrow> BucketStore" where
  "called_back s i now = set_sched (\<lambda>sc. sc\<lparr>refillsTotal := i64 (refillsTotal sc + 1)\<rparr>) (fst (OnDue s i now))"

definition rescheduled :: "BucketStore \<Rightarrow> string \<Rightarrow> gotime \<Rightarrow> BucketStore" where
  "rescheduled s i t = set_sched (\<lambda>sc. Schedule sc i t) s"

definition due_ids :: "BucketStore \<Rightarrow> gotime \<Rightarrow> string list" where
  "due_ids s now = (case scheduler s of None \<Rightarrow> [] | Some sc \<Rightarrow> map entryId (snd (popDue sc now)))"

lemma race_popped:
  assumes "due_ids s now = [i]" "valid_time now"
  shows "race_step (race_init s) \<lparr>rstore = popped s now, passNow = now, todo = [i], returned = None\<rparr>"
proof -
  from assms(1) obtain sc where sc: "scheduler s = Some sc" by (auto simp: due_ids_def split: option.splits)
  from assms sc race_step.pop [of "race_init s" now sc "fst (popDue sc now)" "snd (popDue sc now)"]
  show ?thesis by (simp add: race_init_def due_ids_def popped_def set_sched_def)
qed

lemma race_called_back:
  "OnDue s i now = (s', next, True) \<Longrightarrow>
   race_step \<lparr>rstore = s, passNow = now, todo = [i], returned = None\<rparr>
     \<lparr>rstore = called_back s i now, passNow = now, todo = [], returned = Some (i, next, True)\<rparr>"
  using race_step.callback [of "\<lparr>rstore = s, passNow = now, todo = [i], returned = None\<rparr>" i "[]" s' "next" True]
  by (simp add: called_back_def)

lemma race_rescheduled:
  "race_step \<lparr>rstore = s, passNow = now, todo = is, returned = Some (i, next, True)\<rparr>
     \<lparr>rstore = rescheduled s i next, passNow = now, todo = is, returned = None\<rparr>"
  using race_step.reschedule [of "\<lparr>rstore = s, passNow = now, todo = is, returned = Some (i, next, True)\<rparr>" i "next" True]
  by (simp add: rescheduled_def)

lemma race_call:
  "event_ok e \<Longrightarrow> \<not> is_tick (snd e) \<Longrightarrow>
   race_step \<lparr>rstore = s, passNow = now, todo = is, returned = x\<rparr>
     \<lparr>rstore = store_step s e, passNow = now, todo = is, returned = x\<rparr>"
  using race_step.operation [of e "\<lparr>rstore = s, passNow = now, todo = is, returned = x\<rparr>"] by simp

lemma call_after_callback:
  assumes "due_ids s now = [i]" "valid_time now" "OnDue (popped s now) i now = (s', next, True)"
    "event_ok e" "\<not> is_tick (snd e)"
  shows "race_reach (race_init s)
    \<lparr>rstore = rescheduled (store_step (called_back (popped s now) i now) e) i next, passNow = now, todo = [], returned = None\<rparr>"
  by (rule race_reach.step [OF race_reach.step [OF race_reach.step [OF race_reach.step [OF race_reach.init
        race_popped [OF assms(1,2)]] race_called_back [OF assms(3)]] race_call [OF assms(4,5)]] race_rescheduled])

lemma call_before_callback:
  assumes "due_ids s now = [i]" "valid_time now" "event_ok e" "\<not> is_tick (snd e)"
    "OnDue (store_step (popped s now) e) i now = (s', next, True)"
  shows "race_reach (race_init s)
    \<lparr>rstore = rescheduled (called_back (store_step (popped s now) e) i now) i next, passNow = now, todo = [], returned = None\<rparr>"
  by (rule race_reach.step [OF race_reach.step [OF race_reach.step [OF race_reach.step [OF race_reach.init
        race_popped [OF assms(1,2)]] race_call [OF assms(3,4)]] race_called_back [OF assms(5)]] race_rescheduled])

text \<open>A store whose global bucket refills every 1000 ns, and two new configurations for it.\<close>

definition slow_store :: BucketStore where
  "slow_store = store_run (fresh_store example_opts) [((\<lambda>ks. ks), SSetGlobal (example_cfg\<lparr>RefillInterval := 1000\<rparr>) 5)]"

definition set_fast :: store_event where
  "set_fast = ((\<lambda>ks. ks), SSetGlobal (example_cfg\<lparr>RefillInterval := 10\<rparr>) 1020)"

definition set_never :: store_event where
  "set_never = ((\<lambda>ks. ks), SSetGlobal (example_cfg\<lparr>RefillRate := 0, RefillInterval := 0\<rparr>) 1020)"

lemma slow_store_facts:
  "due_ids slow_store 1010 = [globalBucketID]" "store_ok slow_store" "scheduler slow_store \<noteq> None"
  "event_ok set_fast" "\<not> is_tick (snd set_fast)" "event_ok set_never" "\<not> is_tick (snd set_never)"
proof -
  show "due_ids slow_store 1010 = [globalBucketID]" "scheduler slow_store \<noteq> None" by code_simp+
  have "list_all event_ok [((\<lambda>ks. ks), SSetGlobal (example_cfg\<lparr>RefillInterval := 1000\<rparr>) 5)]"
    by (simp add: event_ok_def is_range_id cfg_safe_def example_cfg_def max_i64_def is_i64_def valid_time_def)
  then show "store_ok slow_store" unfolding slow_store_def by (rule store_run_ok(1) [OF example_opts_ok])
  show "event_ok set_fast" "\<not> is_tick (snd set_fast)" "event_ok set_never" "\<not> is_tick (snd set_never)"
    by (simp_all add: event_ok_def is_range_id set_fast_def set_never_def cfg_safe_def example_cfg_def max_i64_def
        is_i64_def valid_time_def)
qed


text \<open>
  A callback's result is older than a configuration set after it returned, and the reschedule
  still overwrites the schedule of the new configuration: the bucket is then due at 2005
  although its own next refill is at 1030.  Decisions refill the bucket themselves; what is
  late is the balance that status reports show.
\<close>

theorem stale_reschedule:
  "\<exists>r sc b. race_reach (race_init slow_store) r \<and> busy r = {} \<and> scheduler (rstore r) = Some sc
     \<and> bucket_at (rstore r) globalBucketID = Some b \<and> NextRefillTime b = 1030
     \<and> pending sc globalBucketID = Some 2005"
proof -
  let ?s = "rescheduled (store_step (called_back (popped slow_store 1010) globalBucketID 1010) set_fast) globalBucketID 2005"
  have "snd (OnDue (popped slow_store 1010) globalBucketID 1010) = (2005, True)" by code_simp
  then obtain s' where "OnDue (popped slow_store 1010) globalBucketID 1010 = (s', 2005, True)" by (metis prod.collapse)
  then have r: "race_reach (race_init slow_store) \<lparr>rstore = ?s, passNow = 1010, todo = [], returned = None\<rparr>"
    by (intro call_after_callback) (simp_all add: slow_store_facts valid_time_def)
  have "map_option NextRefillTime (bucket_at ?s globalBucketID) = Some 1030" by code_simp
  moreover have "map_option (\<lambda>sc. pending sc globalBucketID) (scheduler ?s) = Some (Some 2005)" by code_simp
  ultimately show ?thesis using r by (fastforce simp: busy_def)
qed

text \<open>
  The same window with a configuration that does not refill (the admin endpoint accepts
  \<^verbatim>\<open>refill_rate\<close> 0 with \<^verbatim>\<open>refill_interval_ms\<close> 0): the callback answers that the
  bucket is there, with the zero time as its next refill, so the entry is always due.  The
  loop then never sleeps, and every further pass puts the entry back.
\<close>

theorem zero_time_reschedule:
  "\<exists>r sc b. race_reach (race_init slow_store) r \<and> busy r = {} \<and> scheduler (rstore r) = Some sc
     \<and> bucket_at (rstore r) globalBucketID = Some b \<and> RefillInterval (bucket_config b) = 0
     \<and> pending sc globalBucketID = Some zeroTime \<and> nextWait sc 3000 = 0
     \<and> map_option (\<lambda>sc. pending sc globalBucketID) (scheduler (store_tick (rstore r) 3000)) = Some (Some zeroTime)"
proof -
  let ?s = "rescheduled (called_back (store_step (popped slow_store 1010) set_never) globalBucketID 1010) globalBucketID zeroTime"
  have "snd (OnDue (store_step (popped slow_store 1010) set_never) globalBucketID 1010) = (zeroTime, True)" by code_simp
  then obtain s' where "OnDue (store_step (popped slow_store 1010) set_never) globalBucketID 1010 = (s', zeroTime, True)"
    by (metis prod.collapse)
  then have r: "race_reach (race_init slow_store) \<lparr>rstore = ?s, passNow = 1010, todo = [], returned = None\<rparr>"
    by (intro call_before_callback) (simp_all add: slow_store_facts valid_time_def)
  have b: "map_option (\<lambda>b. RefillInterval (bucket_config b)) (bucket_at ?s globalBucketID) = Some 0" by code_simp
  have p: "map_option (\<lambda>sc. (pending sc globalBucketID, nextWait sc 3000)) (scheduler ?s) = Some (Some zeroTime, 0)" by code_simp
  have t: "map_option (\<lambda>sc. pending sc globalBucketID) (scheduler (store_tick ?s 3000)) = Some (Some zeroTime)" by code_simp
  from b p t r show ?thesis by (fastforce simp: busy_def)
qed

end
