(* ===== verification/StoreThreads.thy ===== *)
theory StoreThreads
  imports StoreProps
begin

text \<open>
  The bucket store (\<^verbatim>\<open>internal/store/store.go\<close>) used by many goroutines at once.  A call of
  the store is a thread whose steps are what its locks and atomics make indivisible: a section
  under the store's write lock, a lookup under a read lock, a load or store of an atomic
  pointer, one method of a client's tier table, one operation of the scheduler, one operation
  of a bucket (whose own interleaving is the subject of \<open>BucketRace\<close>).  Inside a section under
  the write lock the code also reads access times and removes ids from the schedule; those
  accesses take locks of their own and are counted as part of the section here, as are the loops
  over the tiers of one client.

  Clients and buckets are objects behind pointers here: a thread may keep working on a client
  that has been evicted, or on a bucket that has been replaced.  A bucket's pointer records the
  place it was made for, and a serial number.
\<close>

section \<open>Shared state\<close>

datatype slot = GlobalSlot | IPSlot string | TierSlot ptr string

datatype bptr = BPtr (bslot: slot) (serial: nat)

record ClientObj =
  objKey :: string
  objTiers :: "(string, bptr) gomap"

record Shared =
  bheap :: "bptr \<Rightarrow> Bucket"
  bfresh :: nat
  cheap :: "ptr \<Rightarrow> ClientObj"
  cfresh :: ptr
  ctable :: "(string, ptr) gomap"
  climit :: int
  ctiers :: "(string, bucket_Config) gomap"
  sched :: Scheduler
  cevictions :: int64
  gptr :: "bptr option"
  iptable :: "(string, bptr) gomap"
  iplimit :: int
  ipon :: bool
  ipcfg :: "bucket_Config option"

text \<open>The buckets of the client behind a pointer.\<close>

definition client_view :: "Shared \<Rightarrow> ptr \<Rightarrow> ClientBuckets" where
  "client_view sh p = \<lparr>clientKey = objKey (cheap sh p), buckets = gm_map (bheap sh) (objTiers (cheap sh p))\<rparr>"

text \<open>What the pointers amount to: the store of theory \<open>Store\<close>.\<close>

definition store_of :: "Shared \<Rightarrow> BucketStore" where
  "store_of sh = \<lparr>clients = gm_map (client_view sh) (ctable sh), maxClients = climit sh, tierDefaults = ctiers sh,
     scheduler = Some (sched sh), globalBucket = map_option (bheap sh) (gptr sh), evictions = cevictions sh,
     ipBuckets = gm_map (bheap sh) (iptable sh), ipBucketCap = iplimit sh, ipLimitEnabled = ipon sh,
     ipConfigPtr = ipcfg sh\<rparr>"

section \<open>Objects\<close>

definition on_bucket :: "Shared \<Rightarrow> bptr \<Rightarrow> (Bucket \<Rightarrow> Bucket) \<Rightarrow> Shared" where
  "on_bucket sh b f = sh\<lparr>bheap := (bheap sh)(b := f (bheap sh b))\<rparr>"

definition alloc_bucket :: "Shared \<Rightarrow> slot \<Rightarrow> bucket_Config \<Rightarrow> gotime \<Rightarrow> Shared" where
  "alloc_bucket sh sl cfg now =
     sh\<lparr>bheap := (bheap sh)(BPtr sl (bfresh sh) := bucket_New cfg now), bfresh := Suc (bfresh sh)\<rparr>"

text \<open>\<^verbatim>\<open>Configure\<close> on a client object: a new bucket, put under the tier's name.\<close>

definition obj_Configure :: "Shared \<Rightarrow> ptr \<Rightarrow> string \<Rightarrow> bucket_Config \<Rightarrow> gotime \<Rightarrow> Shared" where
  "obj_Configure sh p tier cfg now =
     (let sl = TierSlot p (tier_name tier); sh1 = alloc_bucket sh sl cfg now
      in sh1\<lparr>cheap := (cheap sh1)(p := (cheap sh1 p)\<lparr>objTiers :=
           gm_set (tier_name tier) (BPtr sl (bfresh sh)) (objTiers (cheap sh1 p))\<rparr>)\<rparr>)"

definition obj_Bucket :: "Shared \<Rightarrow> ptr \<Rightarrow> string \<Rightarrow> bptr option" where
  "obj_Bucket sh p tier = gm_lookup (objTiers (cheap sh p)) (tier_name tier)"

text \<open>The choice of \<^verbatim>\<open>ClientBuckets.Allow\<close>: the tier's bucket, or else the default tier's.\<close>

definition obj_charged :: "Shared \<Rightarrow> ptr \<Rightarrow> string \<Rightarrow> bptr option" where
  "obj_charged sh p tier =
     (case obj_Bucket sh p tier of Some b \<Rightarrow> Some b | None \<Rightarrow> gm_lookup (objTiers (cheap sh p)) DefaultTier)"

text \<open>\<^verbatim>\<open>BlockAll\<close> and \<^verbatim>\<open>UnblockAll\<close>: every bucket of the client.\<close>

definition obj_all :: "Shared \<Rightarrow> ptr \<Rightarrow> (Bucket \<Rightarrow> Bucket) \<Rightarrow> Shared" where
  "obj_all sh p f = sh\<lparr>bheap := (\<lambda>b. if b \<in> snd ` set (objTiers (cheap sh p)) then f (bheap sh b) else bheap sh b)\<rparr>"

definition sched_set :: "Shared \<Rightarrow> string \<Rightarrow> gotime \<Rightarrow> Shared" where
  "sched_set sh i t = sh\<lparr>sched := Schedule (sched sh) i t\<rparr>"

definition sched_drop :: "Shared \<Rightarrow> string \<Rightarrow> Shared" where
  "sched_drop sh i = sh\<lparr>sched := sched_Remove (sched sh) i\<rparr>"

section \<open>Sections under a write lock\<close>

definition table_access :: "Shared \<Rightarrow> string \<Rightarrow> gotime" where
  "table_access sh k = (case gm_lookup (ctable sh) k of Some p \<Rightarrow> mb_LastAccess (client_view sh p) | None \<Rightarrow> zeroTime)"

definition lock_evict :: "string range_order \<Rightarrow> Shared \<Rightarrow> Shared" where
  "lock_evict rng sh =
     (if gm_len (ctable sh) = 0 then sh
      else let k = oldest (table_access sh) (rng (gm_keys (ctable sh))) in
           if k = [] then sh
           else case gm_lookup (ctable sh) k of
                  None \<Rightarrow> sh
                | Some p \<Rightarrow>
                    fold (\<lambda>tier sh. sched_drop sh (encodeID k tier)) (rng (gm_keys (objTiers (cheap sh p))))
                      (sh\<lparr>ctable := gm_delete k (ctable sh), cevictions := i64 (cevictions sh + 1)\<rparr>))"

text \<open>The second half of \<^verbatim>\<open>getOrCreateClient\<close>, which looks again before it creates.\<close>

definition lock_client :: "string range_order \<Rightarrow> Shared \<Rightarrow> string \<Rightarrow> gotime \<Rightarrow> Shared \<times> ptr" where
  "lock_client rng sh key now =
     (case gm_lookup (ctable sh) key of
        Some p \<Rightarrow> (sh, p)
      | None \<Rightarrow>
          let sh1 = (if climit sh > 0 \<and> gm_len (ctable sh) \<ge> climit sh then lock_evict rng sh else sh);
              p = cfresh sh1;
              cfg = default_config (store_of sh1) DefaultTier;
              sh2 = sh1\<lparr>cheap := (cheap sh1)(p := \<lparr>objKey = key, objTiers = []\<rparr>), cfresh := Suc p\<rparr>;
              sh3 = obj_Configure sh2 p DefaultTier cfg now;
              sh4 = sh3\<lparr>ctable := gm_set key p (ctable sh3)\<rparr>
          in (if RefillInterval cfg > 0
              then (case obj_Bucket sh4 p DefaultTier of
                      Some b \<Rightarrow> sched_set sh4 (encodeID key DefaultTier) (NextRefillTime (bheap sh4 b))
                    | None \<Rightarrow> sh4)
              else sh4, p))"

definition ip_table_access :: "Shared \<Rightarrow> string \<Rightarrow> gotime" where
  "ip_table_access sh ip = (case gm_lookup (iptable sh) ip of Some b \<Rightarrow> bucket_LastAccess (bheap sh b) | None \<Rightarrow> zeroTime)"

definition lock_evict_ip :: "string range_order \<Rightarrow> Shared \<Rightarrow> Shared" where
  "lock_evict_ip rng sh =
     (if gm_len (iptable sh) = 0 then sh
      else let ip = oldest (ip_table_access sh) (rng (gm_keys (iptable sh))) in
           if ip = [] then sh
           else sched_drop (sh\<lparr>iptable := gm_delete ip (iptable sh)\<rparr>) (ipIDPrefix @ ip))"

definition lock_ip :: "string range_order \<Rightarrow> Shared \<Rightarrow> string \<Rightarrow> gotime \<Rightarrow> Shared \<times> bptr" where
  "lock_ip rng sh ip now =
     (case gm_lookup (iptable sh) ip of
        Some b \<Rightarrow> (sh, b)
      | None \<Rightarrow>
          let cfg = (case ipcfg sh of Some c \<Rightarrow> c | None \<Rightarrow> builtin_ip_default);
              sh1 = (if gm_len (iptable sh) \<ge> iplimit sh then lock_evict_ip rng sh else sh);
              b = BPtr (IPSlot ip) (bfresh sh1);
              sh2 = alloc_bucket sh1 (IPSlot ip) cfg now;
              sh3 = sh2\<lparr>iptable := gm_set ip b (iptable sh2)\<rparr>
          in (if RefillInterval cfg > 0 then sched_set sh3 (ipIDPrefix @ ip) (NextRefillTime (bheap sh3 b)) else sh3, b))"

definition lock_clear_ip :: "string \<Rightarrow> Shared \<Rightarrow> Shared" where
  "lock_clear_ip ip sh = (let sh' = sched_drop sh (ipIDPrefix @ ip) in sh'\<lparr>iptable := gm_delete ip (iptable sh')\<rparr>)"

section \<open>Threads\<close>

datatype purpose = ForAllow AllowRequest | ForUpdate string string bucket_Config gotime | ForBlock string gotime

fun purpose_key :: "purpose \<Rightarrow> string" where
  "purpose_key (ForAllow r) = ClientKey r"
| "purpose_key (ForUpdate key tier cfg now) = key"
| "purpose_key (ForBlock key now) = key"

fun purpose_now :: "purpose \<Rightarrow> gotime" where
  "purpose_now (ForAllow r) = Now r"
| "purpose_now (ForUpdate key tier cfg now) = now"
| "purpose_now (ForBlock key now) = now"

text \<open>Where a thread is, with the variables it has by then.  The constructors that
  \<^verbatim>\<open>Allow\<close>, the administrative calls and the pass of the scheduler share end with what
  is left to do.\<close>

datatype pc =
    LoadGlobal AllowRequest
  | ChargeGlobal AllowRequest bptr
  | TestIP AllowRequest
  | FindIP AllowRequest
  | MakeIP AllowRequest
  | ChargeIP AllowRequest bptr
  | FindClient purpose
  | MakeClient purpose
  | TestBlocked AllowRequest ptr
  | TestTier AllowRequest ptr
  | AddTier AllowRequest ptr bucket_Config
  | PickBucket AllowRequest ptr
  | Charge AllowRequest ptr bptr
  | FindRemaining AllowRequest ptr
  | FindDefaultRemaining ptr
  | ReadRemaining bptr
  | Reconfigure string string bucket_Config gotime ptr
  | BlockClient ptr
  | FindBlocked string
  | UnblockClient ptr
  | StoreGlobal bucket_Config gotime
  | ClearGlobal
  | StoreIPFlag bool bucket_Config
  | StoreIPConfig bool bucket_Config
  | ClearIPs
  | PopDue gotime
  | DueFind gotime string pc
  | DueTier gotime string ptr string pc
  | DueRefill gotime string bptr pc
  | DueNext string bptr pc
  | CountRefill pc
  | Unschedule string pc
  | SchedFind ptr string string pc
  | SchedTime bptr string pc
  | SchedSet string gotime pc
  | Done "AllowResult option"

definition rejected :: "duration \<Rightarrow> string \<Rightarrow> pc" where
  "rejected wait reason = Done (Some \<lparr>Allowed = False, RemainingTokens = 0, RetryAfter = wait, Reason = reason\<rparr>)"

definition accepted :: "int64 \<Rightarrow> pc" where
  "accepted remaining = Done (Some \<lparr>Allowed = True, RemainingTokens = remaining, RetryAfter = 0, Reason = ''ok''\<rparr>)"

fun have_client :: "purpose \<Rightarrow> ptr \<Rightarrow> pc" where
  "have_client (ForAllow r) p = TestBlocked r p"
| "have_client (ForUpdate key tier cfg now) p = Reconfigure key tier cfg now p"
| "have_client (ForBlock key now) p = BlockClient p"

definition pass_of :: "gotime \<Rightarrow> string list \<Rightarrow> pc" where
  "pass_of now ids = foldr (\<lambda>i k. DueFind now i k) ids (Done None)"

text \<open>\<^verbatim>\<open>OnDue\<close> as far as the lookup of the bucket.\<close>

definition due_find :: "Shared \<Rightarrow> gotime \<Rightarrow> string \<Rightarrow> pc \<Rightarrow> pc" where
  "due_find sh now i k =
     (if i = globalBucketID then (case gptr sh of None \<Rightarrow> CountRefill k | Some b \<Rightarrow> DueRefill now i b k)
      else if HasPrefix i ipIDPrefix then
        (case gm_lookup (iptable sh) (TrimPrefix i ipIDPrefix) of None \<Rightarrow> CountRefill k | Some b \<Rightarrow> DueRefill now i b k)
      else (case decodeID i of
              None \<Rightarrow> CountRefill k
            | Some (key, tier) \<Rightarrow>
                (case gm_lookup (ctable sh) key of None \<Rightarrow> CountRefill k | Some p \<Rightarrow> DueTier now i p tier k)))"

fun thread_step :: "string range_order \<Rightarrow> Shared \<Rightarrow> pc \<Rightarrow> Shared \<times> pc" where
  "thread_step rng sh (LoadGlobal r) = (sh, case gptr sh of None \<Rightarrow> TestIP r | Some b \<Rightarrow> ChargeGlobal r b)"
| "thread_step rng sh (ChargeGlobal r b) =
     (let (b', allowed, wait) = bucket_Allow (bheap sh b) (Now r)
      in (on_bucket sh b (\<lambda>_. b'), if allowed then TestIP r else rejected wait ''global_limit''))"
| "thread_step rng sh (TestIP r) = (sh, if ipon sh \<and> SourceIP r \<noteq> [] then FindIP r else FindClient (ForAllow r))"
| "thread_step rng sh (FindIP r) =
     (sh, case gm_lookup (iptable sh) (SourceIP r) of Some b \<Rightarrow> ChargeIP r b | None \<Rightarrow> MakeIP r)"
| "thread_step rng sh (MakeIP r) = (let (sh', b) = lock_ip rng sh (SourceIP r) (Now r) in (sh', ChargeIP r b))"
| "thread_step rng sh (ChargeIP r b) =
     (let (b', allowed, wait) = bucket_Allow (bheap sh b) (Now r)
      in (on_bucket sh b (\<lambda>_. b'), if allowed then FindClient (ForAllow r) else rejected wait ''ip_limit''))"
| "thread_step rng sh (FindClient u) =
     (sh, case gm_lookup (ctable sh) (purpose_key u) of Some p \<Rightarrow> have_client u p | None \<Rightarrow> MakeClient u)"
| "thread_step rng sh (MakeClient u) =
     (let (sh', p) = lock_client rng sh (purpose_key u) (purpose_now u) in (sh', have_client u p))"
| "thread_step rng sh (TestBlocked r p) =
     (sh, if mb_IsBlocked (client_view sh p) then rejected Second ''blocked'' else TestTier r p)"
| "thread_step rng sh (TestTier r p) =
     (sh, if Tier r = [] \<or> Tier r = DefaultTier \<or> obj_Bucket sh p (Tier r) \<noteq> None then PickBucket r p
          else case gm_lookup (ctiers sh) (Tier r) of None \<Rightarrow> PickBucket r p | Some cfg \<Rightarrow> AddTier r p cfg)"
| "thread_step rng sh (AddTier r p cfg) =
     (obj_Configure sh p (Tier r) cfg (Now r),
      if RefillInterval cfg > 0 then SchedFind p (Tier r) (encodeID (objKey (cheap sh p)) (Tier r)) (PickBucket r p)
      else PickBucket r p)"
| "thread_step rng sh (PickBucket r p) =
     (sh, case obj_charged sh p (Tier r) of None \<Rightarrow> rejected Second ''client_limit'' | Some b \<Rightarrow> Charge r p b)"
| "thread_step rng sh (Charge r p b) =
     (let (b', allowed, wait) = bucket_Allow (bheap sh b) (Now r)
      in (on_bucket sh b (\<lambda>_. b'), if allowed then FindRemaining r p else rejected wait ''client_limit''))"
| "thread_step rng sh (FindRemaining r p) =
     (sh, case obj_Bucket sh p (Tier r) of Some b \<Rightarrow> ReadRemaining b | None \<Rightarrow> FindDefaultRemaining p)"
| "thread_step rng sh (FindDefaultRemaining p) =
     (sh, case obj_Bucket sh p DefaultTier of Some b \<Rightarrow> ReadRemaining b | None \<Rightarrow> accepted 0)"
| "thread_step rng sh (ReadRemaining b) = (sh, accepted (TokensRemaining (bheap sh b)))"
| "thread_step rng sh (Reconfigure key tier cfg now p) =
     (obj_Configure sh p tier cfg now,
      Unschedule (encodeID key (tier_name tier))
        (if RefillInterval cfg > 0 then SchedFind p tier (encodeID key (tier_name tier)) (Done None) else Done None))"
| "thread_step rng sh (BlockClient p) = (obj_all sh p bucket_Block, Done None)"
| "thread_step rng sh (FindBlocked key) =
     (sh, case gm_lookup (ctable sh) key of None \<Rightarrow> Done None | Some p \<Rightarrow> UnblockClient p)"
| "thread_step rng sh (UnblockClient p) = (obj_all sh p bucket_Unblock, Done None)"
| "thread_step rng sh (StoreGlobal cfg now) =
     ((alloc_bucket sh GlobalSlot cfg now)\<lparr>gptr := Some (BPtr GlobalSlot (bfresh sh))\<rparr>,
      Unschedule globalBucketID
        (if RefillInterval cfg > 0 then SchedTime (BPtr GlobalSlot (bfresh sh)) globalBucketID (Done None) else Done None))"
| "thread_step rng sh ClearGlobal = (sh\<lparr>gptr := None\<rparr>, Unschedule globalBucketID (Done None))"
| "thread_step rng sh (StoreIPFlag on cfg) = (sh\<lparr>ipon := on\<rparr>, StoreIPConfig on cfg)"
| "thread_step rng sh (StoreIPConfig on cfg) = (sh\<lparr>ipcfg := Some cfg\<rparr>, if on then Done None else ClearIPs)"
| "thread_step rng sh ClearIPs = (fold lock_clear_ip (rng (gm_keys (iptable sh))) sh, Done None)"
| "thread_step rng sh (PopDue now) =
     (let (sc, es) = popDue (sched sh) now in (sh\<lparr>sched := sc\<rparr>, pass_of now (map entryId es)))"
| "thread_step rng sh (DueFind now i k) = (sh, due_find sh now i k)"
| "thread_step rng sh (DueTier now i p tier k) =
     (sh, case obj_Bucket sh p tier of None \<Rightarrow> CountRefill k | Some b \<Rightarrow> DueRefill now i b k)"
| "thread_step rng sh (DueRefill now i b k) = (on_bucket sh b (\<lambda>x. ScheduledRefill x now), DueNext i b k)"
| "thread_step rng sh (DueNext i b k) = (sh, CountRefill (SchedSet i (NextRefillTime (bheap sh b)) k))"
| "thread_step rng sh (CountRefill k) =
     (sh\<lparr>sched := (sched sh)\<lparr>refillsTotal := i64 (refillsTotal (sched sh) + 1)\<rparr>\<rparr>, k)"
| "thread_step rng sh (Unschedule i k) = (sched_drop sh i, k)"
| "thread_step rng sh (SchedFind p tier i k) =
     (sh, case obj_Bucket sh p tier of None \<Rightarrow> k | Some b \<Rightarrow> SchedTime b i k)"
| "thread_step rng sh (SchedTime b i k) = (sh, SchedSet i (NextRefillTime (bheap sh b)) k)"
| "thread_step rng sh (SchedSet i t k) = (sched_set sh i t, k)"
| "thread_step rng sh (Done res) = (sh, Done res)"

text \<open>Where a call starts.  \<^verbatim>\<open>Allow\<close> takes the time of the request, or the clock's when it is zero.\<close>

fun start :: "store_op \<Rightarrow> pc" where
  "start (SAllow wall r) = LoadGlobal (r\<lparr>Now := req_time wall r\<rparr>)"
| "start (STick now) = PopDue now"
| "start (SUpdate key tier cfg now) = FindClient (ForUpdate key (tier_name tier) cfg now)"
| "start (SBlock key now) = FindClient (ForBlock key now)"
| "start (SUnblock key) = FindBlocked key"
| "start (SSetGlobal cfg now) = StoreGlobal cfg now"
| "start SDisableGlobal = ClearGlobal"
| "start (SSetIP on cfg) = StoreIPFlag on cfg"

section \<open>Interleaving\<close>

text \<open>\<open>granted\<close> records, for the theorems only, the client object and the bucket of every request
  a client bucket accepted.\<close>

record System =
  shared :: Shared
  threads :: "pc list"
  granted :: "(ptr \<times> bptr) list"

fun grant :: "Shared \<Rightarrow> pc \<Rightarrow> (ptr \<times> bptr) list" where
  "grant sh (Charge r p b) = (if fst (snd (bucket_Allow (bheap sh b) (Now r))) then [(p, b)] else [])"
| "grant sh _ = []"

definition run_thread :: "string range_order \<Rightarrow> System \<Rightarrow> nat \<Rightarrow> System" where
  "run_thread rng S n =
     (let (sh, c) = thread_step rng (shared S) (threads S ! n)
      in S\<lparr>shared := sh, threads := (threads S)[n := c], granted := granted S @ grant (shared S) (threads S ! n)\<rparr>)"

definition spawn :: "System \<Rightarrow> store_op \<Rightarrow> System" where
  "spawn S x = S\<lparr>threads := threads S @ [start x]\<rparr>"

inductive sys_step :: "(store_op \<Rightarrow> bool) \<Rightarrow> System \<Rightarrow> System \<Rightarrow> bool" for allowed where
  call: "op_ok x \<Longrightarrow> allowed x \<Longrightarrow> sys_step allowed S (spawn S x)"
| run: "n < length (threads S) \<Longrightarrow> is_range rng \<Longrightarrow> sys_step allowed S (run_thread rng S n)"

definition shared_New :: "Options \<Rightarrow> Shared" where
  "shared_New opts =
     (let s = store_New opts in
      \<lparr>bheap = (\<lambda>_. bucket_New builtin_default 0), bfresh = 0, cheap = (\<lambda>_. \<lparr>objKey = [], objTiers = []\<rparr>), cfresh = 0,
       ctable = [], climit = maxClients s, ctiers = tierDefaults s, sched = sched_New, cevictions = 0, gptr = None,
       iptable = [], iplimit = ipBucketCap s, ipon = False, ipcfg = None\<rparr>)"

definition sys_New :: "Options \<Rightarrow> System" where
  "sys_New opts = \<lparr>shared = shared_New opts, threads = [], granted = []\<rparr>"

definition sys_reach :: "(store_op \<Rightarrow> bool) \<Rightarrow> Options \<Rightarrow> System \<Rightarrow> bool" where
  "sys_reach allowed opts = (sys_step allowed)\<^sup>*\<^sup>* (sys_New opts)"

end
