(* ===== verification/StoreThreadsSafe.thy ===== *)
theory StoreThreadsSafe
  imports StoreThreads
begin

text \<open>
  What no interleaving of the calls of the store can break: the tables stay within their
  capacities, every pointer a goroutine holds is to a live object of the right kind, every
  bucket stays in range, the scheduler's heap and index agree.
\<close>

section \<open>Invariant\<close>

definition blive :: "Shared \<Rightarrow> slot \<Rightarrow> bptr \<Rightarrow> bool" where
  "blive sh sl b \<longleftrightarrow> bslot b = sl \<and> serial b < bfresh sh"

definition obj_ok :: "Shared \<Rightarrow> ptr \<Rightarrow> bool" where
  "obj_ok sh p \<longleftrightarrow> key_ok (objKey (cheap sh p)) \<and> gm_ok (objTiers (cheap sh p))
     \<and> gm_lookup (objTiers (cheap sh p)) [] = None \<and> gm_lookup (objTiers (cheap sh p)) DefaultTier \<noteq> None
     \<and> (\<forall>t b. gm_lookup (objTiers (cheap sh p)) t = Some b \<longrightarrow> blive sh (TierSlot p t) b)"

definition objects_ok :: "Shared \<Rightarrow> bool" where
  "objects_ok sh \<longleftrightarrow> (\<forall>b. bucket_ok (bheap sh b)) \<and> (\<forall>p<cfresh sh. obj_ok sh p)"

definition ctable_ok :: "Shared \<Rightarrow> bool" where
  "ctable_ok sh \<longleftrightarrow> gm_ok (ctable sh) \<and> (climit sh > 0 \<longrightarrow> gm_len (ctable sh) \<le> climit sh)
     \<and> (\<forall>k p. gm_lookup (ctable sh) k = Some p \<longrightarrow> p < cfresh sh \<and> objKey (cheap sh p) = k)"

definition ips_table_ok :: "Shared \<Rightarrow> bool" where
  "ips_table_ok sh \<longleftrightarrow> gm_ok (iptable sh) \<and> gm_len (iptable sh) \<le> iplimit sh \<and> 0 < iplimit sh
     \<and> gm_lookup (iptable sh) [] = None \<and> (\<forall>ip b. gm_lookup (iptable sh) ip = Some b \<longrightarrow> blive sh (IPSlot ip) b)"

definition settings_ok :: "Shared \<Rightarrow> bool" where
  "settings_ok sh \<longleftrightarrow> gm_lookup (ctiers sh) DefaultTier \<noteq> None
     \<and> (\<forall>t c. gm_lookup (ctiers sh) t = Some c \<longrightarrow> cfg_safe c) \<and> (\<forall>c. ipcfg sh = Some c \<longrightarrow> cfg_safe c)
     \<and> (\<forall>b. gptr sh = Some b \<longrightarrow> blive sh GlobalSlot b)"

definition shared_ok :: "Shared \<Rightarrow> bool" where
  "shared_ok sh \<longleftrightarrow> objects_ok sh \<and> ctable_ok sh \<and> ips_table_ok sh \<and> settings_ok sh \<and> sched_ok (sched sh)"

lemma shared_facts:
  assumes "shared_ok sh"
  shows "objects_ok sh" "ctable_ok sh" "ips_table_ok sh" "settings_ok sh" "sched_ok (sched sh)"
    "bucket_ok (bheap sh b)" "p < cfresh sh \<Longrightarrow> obj_ok sh p"
  using assms by (simp_all add: shared_ok_def objects_ok_def)

lemma table_entry:
  assumes "shared_ok sh" "gm_lookup (ctable sh) k = Some p"
  shows "p < cfresh sh" "objKey (cheap sh p) = k" "obj_ok sh p" "key_ok k"
proof -
  show p: "p < cfresh sh" "objKey (cheap sh p) = k" using shared_facts(2) [OF assms(1)] assms(2) by (auto simp: ctable_ok_def)
  show "obj_ok sh p" by (rule shared_facts(7) [OF assms(1) p(1)])
  then show "key_ok k" using p(2) by (auto simp: obj_ok_def)
qed

definition req_ok :: "AllowRequest \<Rightarrow> bool" where
  "req_ok r \<longleftrightarrow> key_ok (ClientKey r) \<and> valid_time (Now r)"

fun purpose_ok :: "purpose \<Rightarrow> bool" where
  "purpose_ok (ForAllow r) = req_ok r"
| "purpose_ok (ForUpdate key tier cfg now) = (key_ok key \<and> tier \<noteq> [] \<and> cfg_safe cfg \<and> valid_time now)"
| "purpose_ok (ForBlock key now) = (key_ok key \<and> valid_time now)"

definition held :: "Shared \<Rightarrow> ptr \<Rightarrow> string \<Rightarrow> bool" where
  "held sh p key \<longleftrightarrow> p < cfresh sh \<and> objKey (cheap sh p) = key"

text \<open>What a thread may rely on at each point.\<close>

fun pc_ok :: "Shared \<Rightarrow> pc \<Rightarrow> bool" where
  "pc_ok sh (LoadGlobal r) = req_ok r"
| "pc_ok sh (ChargeGlobal r b) = (req_ok r \<and> blive sh GlobalSlot b)"
| "pc_ok sh (TestIP r) = req_ok r"
| "pc_ok sh (FindIP r) = (req_ok r \<and> SourceIP r \<noteq> [])"
| "pc_ok sh (MakeIP r) = (req_ok r \<and> SourceIP r \<noteq> [])"
| "pc_ok sh (ChargeIP r b) = (req_ok r \<and> blive sh (IPSlot (SourceIP r)) b)"
| "pc_ok sh (FindClient u) = purpose_ok u"
| "pc_ok sh (MakeClient u) = purpose_ok u"
| "pc_ok sh (TestBlocked r p) = (req_ok r \<and> held sh p (ClientKey r))"
| "pc_ok sh (TestTier r p) = (req_ok r \<and> held sh p (ClientKey r))"
| "pc_ok sh (AddTier r p cfg) = (req_ok r \<and> held sh p (ClientKey r) \<and> cfg_safe cfg \<and> Tier r \<noteq> [] \<and> Tier r \<noteq> DefaultTier)"
| "pc_ok sh (PickBucket r p) = (req_ok r \<and> held sh p (ClientKey r))"
| "pc_ok sh (Charge r p b) = (req_ok r \<and> held sh p (ClientKey r) \<and> (\<exists>t. blive sh (TierSlot p t) b))"
| "pc_ok sh (FindRemaining r p) = held sh p (ClientKey r)"
| "pc_ok sh (FindDefaultRemaining p) = (p < cfresh sh)"
| "pc_ok sh (ReadRemaining b) = True"
| "pc_ok sh (Reconfigure key tier cfg now p) = (held sh p key \<and> tier \<noteq> [] \<and> cfg_safe cfg \<and> valid_time now)"
| "pc_ok sh (BlockClient p) = (p < cfresh sh)"
| "pc_ok sh (FindBlocked key) = True"
| "pc_ok sh (UnblockClient p) = (p < cfresh sh)"
| "pc_ok sh (StoreGlobal cfg now) = (cfg_safe cfg \<and> valid_time now)"
| "pc_ok sh ClearGlobal = True"
| "pc_ok sh (StoreIPFlag on cfg) = cfg_safe cfg"
| "pc_ok sh (StoreIPConfig on cfg) = cfg_safe cfg"
| "pc_ok sh ClearIPs = True"
| "pc_ok sh (PopDue now) = valid_time now"
| "pc_ok sh (DueFind now i k) = (valid_time now \<and> pc_ok sh k)"
| "pc_ok sh (DueTier now i p tier k) = (valid_time now \<and> held sh p (objKey (cheap sh p)) \<and> i = encodeID (objKey (cheap sh p)) tier \<and> pc_ok sh k)"
| "pc_ok sh (DueRefill now i b k) = (valid_time now \<and> pc_ok sh k)"
| "pc_ok sh (DueNext i b k) = pc_ok sh k"
| "pc_ok sh (CountRefill k) = pc_ok sh k"
| "pc_ok sh (Unschedule i k) = pc_ok sh k"
| "pc_ok sh (SchedFind p tier i k) = (p < cfresh sh \<and> obj_Bucket sh p tier \<noteq> None \<and> pc_ok sh k)"
| "pc_ok sh (SchedTime b i k) = pc_ok sh k"
| "pc_ok sh (SchedSet i t k) = pc_ok sh k"
| "pc_ok sh (Done res) = True"

text \<open>Objects are only added, keep their key, and never lose a tier; so what one thread relies
  on is kept by the steps of the others.\<close>

definition grows :: "Shared \<Rightarrow> Shared \<Rightarrow> bool" where
  "grows sh sh' \<longleftrightarrow> bfresh sh \<le> bfresh sh' \<and> cfresh sh \<le> cfresh sh'
     \<and> (\<forall>p<cfresh sh. objKey (cheap sh' p) = objKey (cheap sh p)
          \<and> (\<forall>t. gm_lookup (objTiers (cheap sh p)) t \<noteq> None \<longrightarrow> gm_lookup (objTiers (cheap sh' p)) t \<noteq> None))"

lemma grows_refl [simp, intro]: "grows sh sh"
  by (simp add: grows_def)

lemma grows_trans: "grows sh sh' \<Longrightarrow> grows sh' sh'' \<Longrightarrow> grows sh sh''"
  unfolding grows_def by (metis le_trans less_le_trans)

lemma blive_mono: "blive sh sl b \<Longrightarrow> bfresh sh \<le> bfresh sh' \<Longrightarrow> blive sh' sl b"
  by (simp add: blive_def)

lemma blive_cong: "bfresh sh' = bfresh sh \<Longrightarrow> blive sh' = blive sh"
  by (simp add: blive_def fun_eq_iff)

lemma blive_Suc: "blive sh sl b \<Longrightarrow> bfresh sh' = Suc (bfresh sh) \<Longrightarrow> blive sh' sl b"
  by (simp add: blive_def)

lemma blive_grows: "blive sh sl b \<Longrightarrow> grows sh sh' \<Longrightarrow> blive sh' sl b"
  by (auto simp: blive_def grows_def)

lemma held_grows: "held sh p key \<Longrightarrow> grows sh sh' \<Longrightarrow> held sh' p key"
  by (auto simp: held_def grows_def)

lemma bucket_grows: "obj_Bucket sh p t \<noteq> None \<Longrightarrow> p < cfresh sh \<Longrightarrow> grows sh sh' \<Longrightarrow> obj_Bucket sh' p t \<noteq> None"
  unfolding obj_Bucket_def grows_def by metis

lemma pc_ok_grows: "pc_ok sh c \<Longrightarrow> grows sh sh' \<Longrightarrow> pc_ok sh' c"
proof (induction c)
  case (DueTier now i p tier k)
  then show ?case by (auto simp: held_def grows_def)
next
  case (SchedFind p tier i k)
  then have "p < cfresh sh'" by (auto simp: grows_def)
  with SchedFind bucket_grows [of sh p tier sh'] show ?case by auto
qed (auto intro: blive_grows held_grows, auto simp: grows_def)

section \<open>Objects\<close>

lemma obj_ok_grows:
  assumes "obj_ok sh p" "cheap sh' p = cheap sh p" "bfresh sh \<le> bfresh sh'"
  shows "obj_ok sh' p"
  using assms blive_mono by (fastforce simp: obj_ok_def)

text \<open>Steps that touch neither the objects nor the tables.\<close>

definition same_objects :: "Shared \<Rightarrow> Shared \<Rightarrow> bool" where
  "same_objects sh sh' \<longleftrightarrow> bfresh sh' = bfresh sh \<and> cheap sh' = cheap sh \<and> cfresh sh' = cfresh sh"

lemma same_objects_grows: "same_objects sh sh' \<Longrightarrow> grows sh sh'"
  by (simp add: same_objects_def grows_def)

lemma shared_ok_same:
  assumes "shared_ok sh" "same_objects sh sh'" "\<And>b. bucket_ok (bheap sh' b)"
    "ctable sh' = ctable sh" "climit sh' = climit sh" "ctiers sh' = ctiers sh" "sched_ok (sched sh')"
    "gptr sh' = gptr sh \<or> gptr sh' = None" "iptable sh' = iptable sh" "iplimit sh' = iplimit sh"
    "ipcfg sh' = ipcfg sh \<or> (\<exists>c. ipcfg sh' = Some c \<and> cfg_safe c)"
  shows "shared_ok sh'"
proof -
  from assms(2) have "bfresh sh' = bfresh sh" "cheap sh' = cheap sh" "cfresh sh' = cfresh sh"
    by (simp_all add: same_objects_def)
  note l = blive_cong [OF this(1)] this(2,3)
  have "objects_ok sh'" using shared_facts(1) [OF assms(1)] assms(3) by (simp add: objects_ok_def obj_ok_def l)
  moreover have "ctable_ok sh'" using shared_facts(2) [OF assms(1)] by (simp add: ctable_ok_def l assms(4,5))
  moreover have "ips_table_ok sh'" using shared_facts(3) [OF assms(1)] by (simp add: ips_table_ok_def l assms(9,10))
  moreover have "settings_ok sh'" unfolding settings_ok_def l assms(6)
  proof (intro conjI)
    show "\<forall>c. ipcfg sh' = Some c \<longrightarrow> cfg_safe c" using assms(11) shared_facts(4) [OF assms(1)]
      unfolding settings_ok_def by (elim disjE exE) simp_all
    show "\<forall>b. gptr sh' = Some b \<longrightarrow> blive sh GlobalSlot b" using assms(8) shared_facts(4) [OF assms(1)]
      unfolding settings_ok_def by (elim disjE) simp_all
  qed (use shared_facts(4) [OF assms(1)] in \<open>simp_all add: settings_ok_def\<close>)
  ultimately show ?thesis using assms(7) by (simp add: shared_ok_def)
qed

lemma on_bucket_fields [simp]:
  "bfresh (on_bucket sh b f) = bfresh sh" "cheap (on_bucket sh b f) = cheap sh" "cfresh (on_bucket sh b f) = cfresh sh"
  "ctable (on_bucket sh b f) = ctable sh" "climit (on_bucket sh b f) = climit sh" "ctiers (on_bucket sh b f) = ctiers sh"
  "sched (on_bucket sh b f) = sched sh" "gptr (on_bucket sh b f) = gptr sh" "iptable (on_bucket sh b f) = iptable sh"
  "iplimit (on_bucket sh b f) = iplimit sh" "ipcfg (on_bucket sh b f) = ipcfg sh" "ipon (on_bucket sh b f) = ipon sh"
  "cevictions (on_bucket sh b f) = cevictions sh"
  "bheap (on_bucket sh b f) = (bheap sh)(b := f (bheap sh b))"
  by (simp_all add: on_bucket_def)

lemma obj_all_fields [simp]:
  "bfresh (obj_all sh p f) = bfresh sh" "cheap (obj_all sh p f) = cheap sh" "cfresh (obj_all sh p f) = cfresh sh"
  "ctable (obj_all sh p f) = ctable sh" "climit (obj_all sh p f) = climit sh" "ctiers (obj_all sh p f) = ctiers sh"
  "sched (obj_all sh p f) = sched sh" "gptr (obj_all sh p f) = gptr sh" "iptable (obj_all sh p f) = iptable sh"
  "iplimit (obj_all sh p f) = iplimit sh" "ipcfg (obj_all sh p f) = ipcfg sh" "ipon (obj_all sh p f) = ipon sh"
  "cevictions (obj_all sh p f) = cevictions sh"
  by (simp_all add: obj_all_def)

lemma sched_fields [simp]:
  "bfresh (sched_set sh i t) = bfresh sh" "cheap (sched_set sh i t) = cheap sh" "cfresh (sched_set sh i t) = cfresh sh"
  "ctable (sched_set sh i t) = ctable sh" "climit (sched_set sh i t) = climit sh" "ctiers (sched_set sh i t) = ctiers sh"
  "gptr (sched_set sh i t) = gptr sh" "iptable (sched_set sh i t) = iptable sh" "bheap (sched_set sh i t) = bheap sh"
  "iplimit (sched_set sh i t) = iplimit sh" "ipcfg (sched_set sh i t) = ipcfg sh" "ipon (sched_set sh i t) = ipon sh"
  "cevictions (sched_set sh i t) = cevictions sh" "sched (sched_set sh i t) = Schedule (sched sh) i t"
  "bfresh (sched_drop sh i) = bfresh sh" "cheap (sched_drop sh i) = cheap sh" "cfresh (sched_drop sh i) = cfresh sh"
  "ctable (sched_drop sh i) = ctable sh" "climit (sched_drop sh i) = climit sh" "ctiers (sched_drop sh i) = ctiers sh"
  "gptr (sched_drop sh i) = gptr sh" "iptable (sched_drop sh i) = iptable sh" "bheap (sched_drop sh i) = bheap sh"
  "iplimit (sched_drop sh i) = iplimit sh" "ipcfg (sched_drop sh i) = ipcfg sh" "ipon (sched_drop sh i) = ipon sh"
  "cevictions (sched_drop sh i) = cevictions sh" "sched (sched_drop sh i) = sched_Remove (sched sh) i"
  by (simp_all add: sched_set_def sched_drop_def)

lemma sched_step_ok:
  assumes "shared_ok sh"
  shows "shared_ok (sched_set sh i t)" "shared_ok (sched_drop sh i)"
    "shared_ok (sh\<lparr>sched := (sched sh)\<lparr>refillsTotal := n\<rparr>\<rparr>)"
  by (rule shared_ok_same [OF assms];
      simp add: same_objects_def shared_facts [OF assms] Schedule_correct sched_Remove_correct)+

lemma grows_sched [simp]:
  "grows sh (sched_set sh' i t) = grows sh sh'" "grows sh (sched_drop sh' i) = grows sh sh'"
  "grows sh (sh'\<lparr>sched := sc\<rparr>) = grows sh sh'" "grows sh (sh'\<lparr>ctable := m\<rparr>) = grows sh sh'"
  "grows sh (sh'\<lparr>iptable := ips\<rparr>) = grows sh sh'" "grows sh (sh'\<lparr>gptr := g\<rparr>) = grows sh sh'"
  "grows sh (sh'\<lparr>ipon := e\<rparr>) = grows sh sh'" "grows sh (sh'\<lparr>ipcfg := c\<rparr>) = grows sh sh'"
  "grows sh (on_bucket sh' b f) = grows sh sh'" "grows sh (obj_all sh' p f) = grows sh sh'"
  by (simp_all add: grows_def)

lemma on_bucket_ok:
  assumes "shared_ok sh" "bucket_ok (f (bheap sh b))"
  shows "shared_ok (on_bucket sh b f)"
  by (rule shared_ok_same [OF assms(1)]) (simp_all add: same_objects_def shared_facts [OF assms(1)] assms(2))

lemma obj_all_ok:
  assumes "shared_ok sh" "\<And>x. bucket_ok x \<Longrightarrow> bucket_ok (f x)"
  shows "shared_ok (obj_all sh p f)"
  by (rule shared_ok_same [OF assms(1)]) (simp_all add: same_objects_def shared_facts [OF assms(1)] obj_all_def assms(2))

lemma alloc_fields [simp]:
  "bfresh (alloc_bucket sh sl cfg now) = Suc (bfresh sh)" "cheap (alloc_bucket sh sl cfg now) = cheap sh"
  "cfresh (alloc_bucket sh sl cfg now) = cfresh sh" "ctable (alloc_bucket sh sl cfg now) = ctable sh"
  "climit (alloc_bucket sh sl cfg now) = climit sh" "ctiers (alloc_bucket sh sl cfg now) = ctiers sh"
  "sched (alloc_bucket sh sl cfg now) = sched sh" "gptr (alloc_bucket sh sl cfg now) = gptr sh"
  "iptable (alloc_bucket sh sl cfg now) = iptable sh" "iplimit (alloc_bucket sh sl cfg now) = iplimit sh"
  "ipcfg (alloc_bucket sh sl cfg now) = ipcfg sh" "ipon (alloc_bucket sh sl cfg now) = ipon sh"
  "cevictions (alloc_bucket sh sl cfg now) = cevictions sh"
  "bheap (alloc_bucket sh sl cfg now) = (bheap sh)(BPtr sl (bfresh sh) := bucket_New cfg now)"
  by (simp_all add: alloc_bucket_def)

lemma alloc_ok:
  assumes "shared_ok sh" "cfg_safe cfg" "valid_time now"
  shows "shared_ok (alloc_bucket sh sl cfg now)" "grows sh (alloc_bucket sh sl cfg now)"
proof -
  have "bucket_ok (bucket_New cfg now)" by (rule bucket_New_ok [OF assms(2,3)])
  moreover have "blive (alloc_bucket sh sl cfg now) u b" if "blive sh u b" for u b by (rule blive_Suc [OF that]) simp
  ultimately show "shared_ok (alloc_bucket sh sl cfg now)" using assms(1)
    by (auto simp: shared_ok_def objects_ok_def obj_ok_def ctable_ok_def ips_table_ok_def settings_ok_def)
  show "grows sh (alloc_bucket sh sl cfg now)" by (simp add: grows_def)
qed

lemma Configure_fields [simp]:
  "bfresh (obj_Configure sh p t cfg now) = Suc (bfresh sh)" "cfresh (obj_Configure sh p t cfg now) = cfresh sh"
  "ctable (obj_Configure sh p t cfg now) = ctable sh" "climit (obj_Configure sh p t cfg now) = climit sh"
  "ctiers (obj_Configure sh p t cfg now) = ctiers sh" "sched (obj_Configure sh p t cfg now) = sched sh"
  "gptr (obj_Configure sh p t cfg now) = gptr sh" "iptable (obj_Configure sh p t cfg now) = iptable sh"
  "iplimit (obj_Configure sh p t cfg now) = iplimit sh" "ipcfg (obj_Configure sh p t cfg now) = ipcfg sh"
  "ipon (obj_Configure sh p t cfg now) = ipon sh" "cevictions (obj_Configure sh p t cfg now) = cevictions sh"
  "bheap (obj_Configure sh p t cfg now) = (bheap sh)(BPtr (TierSlot p (tier_name t)) (bfresh sh) := bucket_New cfg now)"
  "objKey (cheap (obj_Configure sh p t cfg now) q) = objKey (cheap sh q)"
  "objTiers (cheap (obj_Configure sh p t cfg now) q) =
     (if q = p then gm_set (tier_name t) (BPtr (TierSlot p (tier_name t)) (bfresh sh)) (objTiers (cheap sh p))
      else objTiers (cheap sh q))"
  by (simp_all add: obj_Configure_def Let_def)

lemma obj_Bucket_Configure [simp]:
  "obj_Bucket (obj_Configure sh p t cfg now) p t = Some (BPtr (TierSlot p (tier_name t)) (bfresh sh))"
  by (simp add: obj_Bucket_def gm_lookup_set)

lemma Configure_object:
  assumes "q \<noteq> p \<Longrightarrow> obj_ok sh q"
    "q = p \<Longrightarrow> key_ok (objKey (cheap sh p)) \<and> gm_ok (objTiers (cheap sh p)) \<and> gm_lookup (objTiers (cheap sh p)) [] = None
       \<and> (tier_name t = DefaultTier \<or> gm_lookup (objTiers (cheap sh p)) DefaultTier \<noteq> None)
       \<and> (\<forall>u b. gm_lookup (objTiers (cheap sh p)) u = Some b \<longrightarrow> blive sh (TierSlot p u) b)"
  shows "obj_ok (obj_Configure sh p t cfg now) q"
proof -
  have l: "blive (obj_Configure sh p t cfg now) u b" if "blive sh u b" for u b by (rule blive_Suc [OF that]) simp
  have n: "blive (obj_Configure sh p t cfg now) u (BPtr u (bfresh sh))" for u by (simp add: blive_def)
  have e: "tier_name t \<noteq> []" "DefaultTier \<noteq> []" by (simp_all add: DefaultTier_def)
  note e = e e(1) [symmetric]
  show ?thesis
  proof (cases "q = p")
    case True
    with assms(2) e l n show ?thesis by (auto simp: obj_ok_def gm_lookup_set)
  next
    case False
    with assms(1) l show ?thesis by (auto simp: obj_ok_def)
  qed
qed

lemma Configure_ok':
  assumes "shared_ok sh" "p < cfresh sh" "cfg_safe cfg" "valid_time now"
  shows "shared_ok (obj_Configure sh p t cfg now)" "grows sh (obj_Configure sh p t cfg now)"
proof -
  let ?sh = "obj_Configure sh p t cfg now"
  have "obj_ok ?sh q" if "q < cfresh sh" for q
    using shared_facts(7) [OF assms(1) that] by (intro Configure_object) (simp_all add: obj_ok_def)
  moreover have "bucket_ok (bheap ?sh b)" for b
    using shared_facts(6) [OF assms(1)] bucket_New_ok [OF assms(3,4)] by simp
  ultimately have "objects_ok ?sh" by (simp add: objects_ok_def)
  moreover have "blive ?sh u b" if "blive sh u b" for u b by (rule blive_Suc [OF that]) simp
  ultimately show "shared_ok ?sh" using assms(1)
    by (auto simp: shared_ok_def ctable_ok_def ips_table_ok_def settings_ok_def)
  show "grows sh ?sh" by (simp add: grows_def gm_lookup_set)
qed


section \<open>Sections under a write lock\<close>

text \<open>A table may lose entries without harm.\<close>

lemma ctable_shrinks:
  assumes "shared_ok sh" "gm_lookup (ctable sh) k = Some p"
  shows "shared_ok (sh\<lparr>ctable := gm_delete k (ctable sh), cevictions := n\<rparr>)"
proof -
  let ?sh = "sh\<lparr>ctable := gm_delete k (ctable sh), cevictions := n\<rparr>"
  have l: "blive ?sh = blive sh" by (rule blive_cong) simp
  have "gm_len (gm_delete k (ctable sh)) = gm_len (ctable sh) - 1"
    using shared_facts(2) [OF assms(1)] assms(2) by (intro gm_len_delete_old) (simp_all add: ctable_ok_def)
  then have "ctable_ok ?sh" using shared_facts(2) [OF assms(1)] by (auto simp: ctable_ok_def gm_lookup_delete)
  then show ?thesis using assms(1)
    by (simp add: shared_ok_def objects_ok_def obj_ok_def ips_table_ok_def settings_ok_def l)
qed

lemma iptable_shrinks:
  assumes "shared_ok sh"
  shows "shared_ok (sh\<lparr>iptable := gm_delete ip (iptable sh)\<rparr>)"
proof -
  let ?sh = "sh\<lparr>iptable := gm_delete ip (iptable sh)\<rparr>"
  have l: "blive ?sh = blive sh" by (rule blive_cong) simp
  have "gm_len (gm_delete ip (iptable sh)) \<le> gm_len (iptable sh)"
    using length_delete_le [of ip "iptable sh"] by (simp add: gm_len_def gm_delete_def)
  then have "ips_table_ok ?sh" using shared_facts(3) [OF assms] by (auto simp: ips_table_ok_def gm_lookup_delete l)
  then show ?thesis using assms by (simp add: shared_ok_def objects_ok_def obj_ok_def ctable_ok_def settings_ok_def l)
qed

lemma drop_fold:
  "fold (\<lambda>x sh. sched_drop sh (f x)) xs sh = sh\<lparr>sched := st.remove_all (sched sh) (map f xs)\<rparr>"
  by (induction xs arbitrary: sh) (simp_all add: sched_drop_def st.remove_all_def)

lemma sched_any_ok: "shared_ok sh \<Longrightarrow> sched_ok sc \<Longrightarrow> shared_ok (sh\<lparr>sched := sc\<rparr>)"
  by (rule shared_ok_same) (assumption | simp add: same_objects_def shared_facts)+

text \<open>Eviction takes out one client, with the ids of its tiers.\<close>

lemma lock_evict_effect:
  assumes ok: "shared_ok sh" and rng: "is_range rng" and ne: "ctable sh \<noteq> []"
  obtains k p where "gm_lookup (ctable sh) k = Some p"
    "lock_evict rng sh = sh\<lparr>ctable := gm_delete k (ctable sh), cevictions := i64 (cevictions sh + 1),
       sched := st.remove_all (sched sh) (map (encodeID k) (rng (gm_keys (objTiers (cheap sh p)))))\<rparr>"
proof -
  let ?k = "oldest (table_access sh) (rng (gm_keys (ctable sh)))"
  obtain p where p: "gm_lookup (ctable sh) ?k = Some p" using oldest_in_map(1) [OF rng ne] by blast
  have "?k \<noteq> []" using table_entry(4) [OF ok p] by (auto simp: key_ok_def)
  with ne p have "lock_evict rng sh = sh\<lparr>ctable := gm_delete ?k (ctable sh), cevictions := i64 (cevictions sh + 1),
       sched := st.remove_all (sched sh) (map (encodeID ?k) (rng (gm_keys (objTiers (cheap sh p)))))\<rparr>"
    unfolding lock_evict_def Let_def drop_fold by simp
  with p that show thesis by blast
qed

lemma lock_evict_ok:
  assumes ok: "shared_ok sh" and rng: "is_range rng" and ne: "ctable sh \<noteq> []"
  shows "shared_ok (lock_evict rng sh)" "grows sh (lock_evict rng sh)"
    "gm_len (ctable (lock_evict rng sh)) = gm_len (ctable sh) - 1"
    "gm_lookup (ctable sh) key = None \<Longrightarrow> gm_lookup (ctable (lock_evict rng sh)) key = None"
    "climit (lock_evict rng sh) = climit sh" "ctiers (lock_evict rng sh) = ctiers sh" "bfresh (lock_evict rng sh) = bfresh sh"
proof -
  obtain k p where p: "gm_lookup (ctable sh) k = Some p" and E: "lock_evict rng sh =
      sh\<lparr>ctable := gm_delete k (ctable sh), cevictions := i64 (cevictions sh + 1),
       sched := st.remove_all (sched sh) (map (encodeID k) (rng (gm_keys (objTiers (cheap sh p)))))\<rparr>"
    by (rule lock_evict_effect [OF ok rng ne])
  show "shared_ok (lock_evict rng sh)"
    using sched_any_ok [OF ctable_shrinks [OF ok p]] st.remove_all_correct [OF shared_facts(5) [OF ok]] by (simp add: E)
  have "gm_len (gm_delete k (ctable sh)) = gm_len (ctable sh) - 1"
    using shared_facts(2) [OF ok] p by (intro gm_len_delete_old) (simp_all add: ctable_ok_def)
  then show "grows sh (lock_evict rng sh)" "gm_len (ctable (lock_evict rng sh)) = gm_len (ctable sh) - 1"
    "gm_lookup (ctable sh) key = None \<Longrightarrow> gm_lookup (ctable (lock_evict rng sh)) key = None"
    "climit (lock_evict rng sh) = climit sh" "ctiers (lock_evict rng sh) = ctiers sh" "bfresh (lock_evict rng sh) = bfresh sh"
    by (simp_all add: E gm_lookup_delete grows_def)
qed

text \<open>The section as a whole, from the point where room has been made.\<close>

definition make_room :: "string range_order \<Rightarrow> Shared \<Rightarrow> Shared" where
  "make_room rng sh = (if climit sh > 0 \<and> gm_len (ctable sh) \<ge> climit sh then lock_evict rng sh else sh)"

lemma make_room_ok:
  assumes ok: "shared_ok sh" and rng: "is_range rng"
  shows "shared_ok (make_room rng sh)" "grows sh (make_room rng sh)"
    "climit (make_room rng sh) > 0 \<Longrightarrow> gm_len (ctable (make_room rng sh)) < climit (make_room rng sh)"
    "gm_lookup (ctable sh) key = None \<Longrightarrow> gm_lookup (ctable (make_room rng sh)) key = None"
    "ctiers (make_room rng sh) = ctiers sh"
proof -
  have ne: "ctable sh \<noteq> []" if "climit sh > 0" "gm_len (ctable sh) \<ge> climit sh" using that gm_len_0 [of "ctable sh"] by fastforce
  have "gm_len (ctable sh) \<le> climit sh" if "climit sh > 0" using shared_facts(2) [OF ok] that by (simp add: ctable_ok_def)
  then show "shared_ok (make_room rng sh)" "grows sh (make_room rng sh)"
    "climit (make_room rng sh) > 0 \<Longrightarrow> gm_len (ctable (make_room rng sh)) < climit (make_room rng sh)"
    "gm_lookup (ctable sh) key = None \<Longrightarrow> gm_lookup (ctable (make_room rng sh)) key = None"
    "ctiers (make_room rng sh) = ctiers sh"
    using lock_evict_ok [OF ok rng ne] ok unfolding make_room_def by (auto split: if_splits)
qed

text \<open>A client object with its default tier, entered in the table.\<close>

definition add_client :: "Shared \<Rightarrow> string \<Rightarrow> bucket_Config \<Rightarrow> gotime \<Rightarrow> Shared" where
  "add_client sh key cfg now =
     (let p = cfresh sh;
          sh3 = obj_Configure (sh\<lparr>cheap := (cheap sh)(p := \<lparr>objKey = key, objTiers = []\<rparr>), cfresh := Suc p\<rparr>) p DefaultTier cfg now
      in sh3\<lparr>ctable := gm_set key p (ctable sh3)\<rparr>)"

lemma lock_client_new:
  assumes "gm_lookup (ctable sh) key = None"
  shows "lock_client rng sh key now =
    (let sh1 = make_room rng sh; cfg = default_config (store_of sh1) DefaultTier; sh4 = add_client sh1 key cfg now
     in (if RefillInterval cfg > 0
         then sched_set sh4 (encodeID key DefaultTier) (NextRefillTime (bucket_New cfg now)) else sh4, cfresh sh1))"
  using assms
  by (simp add: lock_client_def make_room_def add_client_def Let_def obj_Bucket_def gm_lookup_set)

lemma add_client_fields [simp]:
  "bfresh (add_client sh key cfg now) = Suc (bfresh sh)" "cfresh (add_client sh key cfg now) = Suc (cfresh sh)"
  "ctable (add_client sh key cfg now) = gm_set key (cfresh sh) (ctable sh)" "climit (add_client sh key cfg now) = climit sh"
  "ctiers (add_client sh key cfg now) = ctiers sh" "sched (add_client sh key cfg now) = sched sh"
  "gptr (add_client sh key cfg now) = gptr sh" "iptable (add_client sh key cfg now) = iptable sh"
  "iplimit (add_client sh key cfg now) = iplimit sh" "ipcfg (add_client sh key cfg now) = ipcfg sh"
  "ipon (add_client sh key cfg now) = ipon sh" "cevictions (add_client sh key cfg now) = cevictions sh"
  "bheap (add_client sh key cfg now) = (bheap sh)(BPtr (TierSlot (cfresh sh) DefaultTier) (bfresh sh) := bucket_New cfg now)"
  "objKey (cheap (add_client sh key cfg now) q) = (if q = cfresh sh then key else objKey (cheap sh q))"
  "objTiers (cheap (add_client sh key cfg now) q) =
     (if q = cfresh sh then [(DefaultTier, BPtr (TierSlot (cfresh sh) DefaultTier) (bfresh sh))] else objTiers (cheap sh q))"
  by (simp_all add: add_client_def Let_def gm_set_def)

lemma add_client_ok:
  assumes ok: "shared_ok sh" and key: "key_ok key" "gm_lookup (ctable sh) key = None"
    and room: "climit sh > 0 \<Longrightarrow> gm_len (ctable sh) < climit sh" and cfg: "cfg_safe cfg" "valid_time now"
  shows "shared_ok (add_client sh key cfg now)" "grows sh (add_client sh key cfg now)"
proof -
  let ?sh = "add_client sh key cfg now"
  have l: "blive ?sh u b" if "blive sh u b" for u b by (rule blive_Suc [OF that]) simp
  have "obj_ok ?sh q" if "q < cfresh ?sh" for q
  proof (cases "q = cfresh sh")
    case True
    with key(1) show ?thesis
      by (simp add: obj_ok_def gm_ok_def gm_lookup_def blive_def) (simp add: DefaultTier_def)
  next
    case False
    with that have "obj_ok sh q" using shared_facts(7) [OF ok] by simp
    with False l show ?thesis by (auto simp: obj_ok_def)
  qed
  moreover have "bucket_ok (bheap ?sh b)" for b using shared_facts(6) [OF ok] bucket_New_ok [OF cfg] by simp
  ultimately have "objects_ok ?sh" by (simp add: objects_ok_def)
  moreover have "ctable_ok ?sh"
    using shared_facts(2) [OF ok] room key(2) by (auto simp: ctable_ok_def gm_lookup_set gm_len_set_new less_SucI split: if_splits)
  ultimately show "shared_ok ?sh" using ok l by (auto simp: shared_ok_def ips_table_ok_def settings_ok_def)
  show "grows sh ?sh" by (auto simp: grows_def)
qed

lemma lock_client_ok:
  assumes ok: "shared_ok sh" and rng: "is_range rng" and key: "key_ok key" "valid_time now"
    and r: "lock_client rng sh key now = (sh', p)"
  shows "shared_ok sh'" "grows sh sh'" "held sh' p key"
proof -
  have "shared_ok sh' \<and> grows sh sh' \<and> held sh' p key"
  proof (cases "gm_lookup (ctable sh) key")
    case (Some q)
    with r ok shared_facts(2) [OF ok] show ?thesis by (auto simp: lock_client_def held_def ctable_ok_def)
  next
    case None
    let ?sh1 = "make_room rng sh"
    let ?cfg = "default_config (store_of ?sh1) DefaultTier"
    note room = make_room_ok [OF ok rng]
    have cfg: "cfg_safe ?cfg"
      using shared_facts(4) [OF room(1)] by (auto simp: default_config_def store_of_def settings_ok_def split: option.split)
    note a = add_client_ok [OF room(1) key(1) room(4) [OF None] room(3) cfg key(2)]
    show ?thesis using r sched_step_ok(1) [OF a(1)] a grows_trans [OF room(2) a(2)]
      by (auto simp: lock_client_new [OF None] Let_def held_def split: if_splits)
  qed
  then show "shared_ok sh'" "grows sh sh'" "held sh' p key" by blast+
qed


lemma lock_evict_ip_ok:
  assumes ok: "shared_ok sh" and rng: "is_range rng" and ne: "iptable sh \<noteq> []"
  obtains k where "lock_evict_ip rng sh = sched_drop (sh\<lparr>iptable := gm_delete k (iptable sh)\<rparr>) (ipIDPrefix @ k)"
    "gm_len (gm_delete k (iptable sh)) = gm_len (iptable sh) - 1" "gm_lookup (iptable sh) k \<noteq> None"
proof -
  let ?k = "oldest (ip_table_access sh) (rng (gm_keys (iptable sh)))"
  obtain b where b: "gm_lookup (iptable sh) ?k = Some b" using oldest_in_map(1) [OF rng ne] by blast
  have "?k \<noteq> []" using b shared_facts(3) [OF ok] by (auto simp: ips_table_ok_def)
  with ne have "lock_evict_ip rng sh = sched_drop (sh\<lparr>iptable := gm_delete ?k (iptable sh)\<rparr>) (ipIDPrefix @ ?k)"
    by (simp add: lock_evict_ip_def Let_def)
  moreover have "gm_len (gm_delete ?k (iptable sh)) = gm_len (iptable sh) - 1"
    using shared_facts(3) [OF ok] b by (intro gm_len_delete_old) (simp_all add: ips_table_ok_def)
  ultimately show thesis using that b by blast
qed

definition make_ip_room :: "string range_order \<Rightarrow> Shared \<Rightarrow> Shared" where
  "make_ip_room rng sh = (if gm_len (iptable sh) \<ge> iplimit sh then lock_evict_ip rng sh else sh)"

lemma make_ip_room_cases:
  assumes ok: "shared_ok sh" and rng: "is_range rng"
  obtains "make_ip_room rng sh = sh" "gm_len (iptable sh) < iplimit sh"
  | k where "make_ip_room rng sh = sched_drop (sh\<lparr>iptable := gm_delete k (iptable sh)\<rparr>) (ipIDPrefix @ k)"
      "gm_len (gm_delete k (iptable sh)) < iplimit sh" "gm_lookup (iptable sh) k \<noteq> None"
proof (cases "gm_len (iptable sh) \<ge> iplimit sh")
  case True
  note ips = shared_facts(3) [OF ok, unfolded ips_table_ok_def]
  with True gm_len_0 [of "iptable sh"] have "iptable sh \<noteq> []" by fastforce
  from lock_evict_ip_ok [OF ok rng this] obtain k where
    "lock_evict_ip rng sh = sched_drop (sh\<lparr>iptable := gm_delete k (iptable sh)\<rparr>) (ipIDPrefix @ k)"
    "gm_len (gm_delete k (iptable sh)) = gm_len (iptable sh) - 1" "gm_lookup (iptable sh) k \<noteq> None" by blast
  with that(2) True ips show thesis by (simp add: make_ip_room_def)
next
  case False
  with that(1) show thesis by (simp add: make_ip_room_def)
qed

lemma make_ip_room_ok:
  assumes ok: "shared_ok sh" and rng: "is_range rng"
  shows "shared_ok (make_ip_room rng sh)" "grows sh (make_ip_room rng sh)"
    "gm_len (iptable (make_ip_room rng sh)) < iplimit (make_ip_room rng sh)"
    "gm_lookup (iptable sh) ip = None \<Longrightarrow> gm_lookup (iptable (make_ip_room rng sh)) ip = None"
    "ipcfg (make_ip_room rng sh) = ipcfg sh"
  by (cases rule: make_ip_room_cases [OF ok rng];
      simp add: ok sched_step_ok(2) [OF iptable_shrinks [OF ok]] gm_lookup_delete)+

definition add_ip :: "Shared \<Rightarrow> string \<Rightarrow> bucket_Config \<Rightarrow> gotime \<Rightarrow> Shared" where
  "add_ip sh ip cfg now =
     (let sh2 = alloc_bucket sh (IPSlot ip) cfg now
      in sh2\<lparr>iptable := gm_set ip (BPtr (IPSlot ip) (bfresh sh)) (iptable sh2)\<rparr>)"

lemma add_ip_fields [simp]:
  "bfresh (add_ip sh ip cfg now) = Suc (bfresh sh)" "cfresh (add_ip sh ip cfg now) = cfresh sh"
  "ctable (add_ip sh ip cfg now) = ctable sh" "climit (add_ip sh ip cfg now) = climit sh"
  "ctiers (add_ip sh ip cfg now) = ctiers sh" "sched (add_ip sh ip cfg now) = sched sh"
  "gptr (add_ip sh ip cfg now) = gptr sh" "cheap (add_ip sh ip cfg now) = cheap sh"
  "iptable (add_ip sh ip cfg now) = gm_set ip (BPtr (IPSlot ip) (bfresh sh)) (iptable sh)"
  "iplimit (add_ip sh ip cfg now) = iplimit sh" "ipcfg (add_ip sh ip cfg now) = ipcfg sh"
  "ipon (add_ip sh ip cfg now) = ipon sh" "cevictions (add_ip sh ip cfg now) = cevictions sh"
  "bheap (add_ip sh ip cfg now) = (bheap sh)(BPtr (IPSlot ip) (bfresh sh) := bucket_New cfg now)"
  by (simp_all add: add_ip_def Let_def)

definition ip_config :: "Shared \<Rightarrow> bucket_Config" where
  "ip_config sh = (case ipcfg sh of Some c \<Rightarrow> c | None \<Rightarrow> builtin_ip_default)"

lemma lock_ip_new:
  assumes "gm_lookup (iptable sh) ip = None"
  shows "lock_ip rng sh ip now =
    (let sh1 = make_ip_room rng sh; cfg = ip_config sh; sh3 = add_ip sh1 ip cfg now
     in (if RefillInterval cfg > 0 then sched_set sh3 (ipIDPrefix @ ip) (NextRefillTime (bucket_New cfg now)) else sh3,
         BPtr (IPSlot ip) (bfresh sh1)))"
  using assms by (simp add: lock_ip_def make_ip_room_def add_ip_def ip_config_def Let_def)

lemma builtin_ip_safe: "cfg_safe builtin_ip_default"
  by (simp add: cfg_safe_def builtin_ip_default_def max_i64_def is_i64_def Second_def)

lemma add_ip_ok:
  assumes ok: "shared_ok sh" and ip: "ip \<noteq> []" "gm_lookup (iptable sh) ip = None" "gm_len (iptable sh) < iplimit sh"
    and cfg: "cfg_safe cfg" "valid_time now"
  shows "shared_ok (add_ip sh ip cfg now)" "grows sh (add_ip sh ip cfg now)"
    "blive (add_ip sh ip cfg now) (IPSlot ip) (BPtr (IPSlot ip) (bfresh sh))"
proof -
  let ?a = "alloc_bucket sh (IPSlot ip) cfg now" and ?sh = "add_ip sh ip cfg now"
  note a = alloc_ok [OF ok cfg, of "IPSlot ip"]
  have l: "blive ?sh = blive ?a" by (rule blive_cong) simp
  show n: "blive ?sh (IPSlot ip) (BPtr (IPSlot ip) (bfresh sh))" by (simp add: l blive_def)
  have "ips_table_ok ?sh"
    using shared_facts(3) [OF a(1)] ip n
    by (auto simp: ips_table_ok_def l gm_lookup_set gm_len_set_new split: if_splits)
  then show "shared_ok ?sh"
    using a(1) by (simp add: shared_ok_def objects_ok_def obj_ok_def ctable_ok_def settings_ok_def l)
  show "grows sh ?sh" by (simp add: grows_def)
qed

lemma lock_ip_ok:
  assumes ok: "shared_ok sh" and rng: "is_range rng" and ip: "ip \<noteq> []" "valid_time now"
    and r: "lock_ip rng sh ip now = (sh', b)"
  shows "shared_ok sh'" "grows sh sh'" "blive sh' (IPSlot ip) b"
proof -
  have "shared_ok sh' \<and> grows sh sh' \<and> blive sh' (IPSlot ip) b"
  proof (cases "gm_lookup (iptable sh) ip")
    case (Some q)
    with r ok shared_facts(3) [OF ok] show ?thesis by (auto simp: lock_ip_def ips_table_ok_def)
  next
    case None
    note room = make_ip_room_ok [OF ok rng]
    have cfg: "cfg_safe (ip_config sh)"
      using shared_facts(4) [OF ok] builtin_ip_safe by (auto simp: ip_config_def settings_ok_def split: option.split)
    note a = add_ip_ok [OF room(1) ip(1) room(4) [OF None] room(3) cfg ip(2)]
    have l: "blive (sched_set x i t) = blive x" for x i t by (rule blive_cong) simp
    show ?thesis using r sched_step_ok(1) [OF a(1)] a grows_trans [OF room(2) a(2)]
      by (auto simp: lock_ip_new [OF None] Let_def l split: if_splits)
  qed
  then show "shared_ok sh'" "grows sh sh'" "blive sh' (IPSlot ip) b" by blast+
qed

lemma clear_ips_ok':
  assumes "shared_ok sh"
  shows "shared_ok (fold lock_clear_ip ips sh) \<and> grows sh (fold lock_clear_ip ips sh)"
  using assms
proof (induction ips arbitrary: sh)
  case (Cons ip ips)
  have "shared_ok (lock_clear_ip ip sh)" "grows sh (lock_clear_ip ip sh)"
    using iptable_shrinks [OF sched_step_ok(2) [OF Cons.prems]] by (simp_all add: lock_clear_ip_def Let_def)
  with Cons.IH show ?case by (auto intro: grows_trans)
qed simp

section \<open>Steps\<close>

lemma pc_ok_pass: "pc_ok sh (pass_of now ids) \<longleftrightarrow> ids = [] \<or> valid_time now"
  by (induction ids) (auto simp: pass_of_def)

lemma pc_ok_outcome [simp]: "pc_ok sh (rejected w reason)" "pc_ok sh (accepted n)"
  by (simp_all add: rejected_def accepted_def)

lemma pc_ok_have:
  "purpose_ok u \<Longrightarrow> held sh p (purpose_key u) \<Longrightarrow> pc_ok sh (have_client u p)"
  by (cases u) (auto simp: held_def req_ok_def)

lemma purpose_facts: "purpose_ok u \<Longrightarrow> key_ok (purpose_key u) \<and> valid_time (purpose_now u)"
  by (cases u) (auto simp: req_ok_def)

lemma obj_charged_tier:
  assumes "obj_ok sh p" "obj_charged sh p tier = Some b"
  shows "\<exists>t. blive sh (TierSlot p t) b \<and> (t = tier_name tier \<or> t = DefaultTier)"
  using assms by (auto simp: obj_charged_def obj_Bucket_def obj_ok_def split: option.splits)

lemma due_find_ok:
  assumes ok: "shared_ok sh" and k: "valid_time now" "pc_ok sh k"
  shows "pc_ok sh (due_find sh now i k)"
proof -
  have "pc_ok sh (DueTier now i p tier k)" if "decodeID i = Some (key, tier)" "gm_lookup (ctable sh) key = Some p" for key tier p
    using k table_entry [OF ok that(2)] decode_Some [OF that(1)] by (simp add: held_def)
  with k show ?thesis by (auto simp: due_find_def split: option.split)
qed

lemma thread_step_ok:
  assumes ok: "shared_ok sh" and rng: "is_range rng" and c: "pc_ok sh c" and st: "thread_step rng sh c = (sh', c')"
  shows "shared_ok sh' \<and> grows sh sh' \<and> pc_ok sh' c'"
proof (cases c)
  case (MakeIP r)
  then show ?thesis using lock_ip_ok [OF ok rng] c st by (auto simp: req_ok_def split: prod.splits)
next
  case (MakeClient u)
  then show ?thesis using lock_client_ok [OF ok rng] purpose_facts [of u] c st by (auto simp: pc_ok_have split: prod.splits)
next
  case (ChargeGlobal r b)
  have "bucket_ok (fst (bucket_Allow (bheap sh b) (Now r)))"
    using c ChargeGlobal by (intro bucket_Allow_ok shared_facts(6) [OF ok]) (simp_all add: req_ok_def)
  then show ?thesis using c st ChargeGlobal on_bucket_ok [OF ok, of "\<lambda>_. fst (bucket_Allow (bheap sh b) (Now r))" b]
    by (auto simp: case_prod_beta Let_def)
next
  case (ChargeIP r b)
  have "bucket_ok (fst (bucket_Allow (bheap sh b) (Now r)))"
    using c ChargeIP by (intro bucket_Allow_ok shared_facts(6) [OF ok]) (simp_all add: req_ok_def)
  then show ?thesis using c st ChargeIP on_bucket_ok [OF ok, of "\<lambda>_. fst (bucket_Allow (bheap sh b) (Now r))" b]
    by (auto simp: case_prod_beta Let_def)
next
  case (Charge r p b)
  have "bucket_ok (fst (bucket_Allow (bheap sh b) (Now r)))"
    using c Charge by (intro bucket_Allow_ok shared_facts(6) [OF ok]) (simp_all add: req_ok_def)
  then show ?thesis using c st Charge on_bucket_ok [OF ok, of "\<lambda>_. fst (bucket_Allow (bheap sh b) (Now r))" b]
    by (auto simp: case_prod_beta Let_def held_def)
next
  case (AddTier r p cfg)
  then have p: "p < cfresh sh" using c by (simp add: held_def)
  show ?thesis using AddTier c st Configure_ok' [OF ok p, of cfg "Now r" "Tier r"] p
    by (auto simp: req_ok_def held_def)
next
  case (Reconfigure key tier cfg now p)
  then have p: "p < cfresh sh" using c by (simp add: held_def)
  show ?thesis using Reconfigure c st Configure_ok' [OF ok p, of cfg now tier] p by (auto simp: held_def)
next
  case (PickBucket r p)
  then have "obj_ok sh p" using c shared_facts(7) [OF ok] by (simp add: held_def)
  then show ?thesis using PickBucket c st ok obj_charged_tier [of sh p "Tier r"] by (auto split: option.splits)
next
  case (StoreGlobal cfg now)
  note a = alloc_ok [OF ok, of cfg now GlobalSlot]
  let ?a = "alloc_bucket sh GlobalSlot cfg now"
  have l: "blive (?a\<lparr>gptr := g\<rparr>) = blive ?a" for g by (rule blive_cong) simp
  have "shared_ok ?a" "grows sh ?a" using a c StoreGlobal by simp_all
  moreover have "blive ?a GlobalSlot (BPtr GlobalSlot (bfresh sh))" by (simp add: blive_def)
  ultimately show ?thesis using StoreGlobal st
    by (auto simp: shared_ok_def objects_ok_def obj_ok_def ctable_ok_def ips_table_ok_def settings_ok_def l)
next
  case ClearIPs
  then show ?thesis using clear_ips_ok' [OF ok] st by auto
next
  case (PopDue now)
  obtain sc es where p: "popDue (sched sh) now = (sc, es)" by (cases "popDue (sched sh) now")
  have "sched_ok sc" using popDue_correct [OF shared_facts(5) [OF ok] p] by (simp add: popped_ok_def)
  then show ?thesis using PopDue c st p sched_any_ok [OF ok] by (auto simp: pc_ok_pass)
next
  case (DueRefill now i b k)
  have "bucket_ok (ScheduledRefill (bheap sh b) now)" using c DueRefill by (intro ScheduledRefill_ok shared_facts(6) [OF ok]) simp
  then show ?thesis using DueRefill c st on_bucket_ok [OF ok, of "\<lambda>x. ScheduledRefill x now" b] pc_ok_grows [of sh k] by auto
next
  case (BlockClient p)
  then show ?thesis using st obj_all_ok [OF ok, of bucket_Block p] by auto
next
  case (UnblockClient p)
  then show ?thesis using st obj_all_ok [OF ok, of bucket_Unblock p] by auto
next
  case (DueFind now i k)
  then show ?thesis using c st ok due_find_ok [OF ok, of now k i] by auto
next
  case (CountRefill k)
  then show ?thesis using c st sched_step_ok(3) [OF ok] pc_ok_grows [of sh k] by auto
next
  case (Unschedule i k)
  then show ?thesis using c st sched_step_ok(2) [OF ok] pc_ok_grows [of sh k] by auto
next
  case (SchedSet i t k)
  then show ?thesis using c st sched_step_ok(1) [OF ok] pc_ok_grows [of sh k] by auto
next
  case (StoreIPConfig on cfg)
  then show ?thesis using c st shared_ok_same [OF ok, of "sh\<lparr>ipcfg := Some cfg\<rparr>"] shared_facts(5,6) [OF ok]
    by (auto simp: same_objects_def)
next
  case (StoreIPFlag on cfg)
  then show ?thesis using c st shared_ok_same [OF ok, of "sh\<lparr>ipon := on\<rparr>"] shared_facts(5,6) [OF ok]
    by (auto simp: same_objects_def)
next
  case ClearGlobal
  then show ?thesis using c st shared_ok_same [OF ok, of "sh\<lparr>gptr := None\<rparr>"] shared_facts(5,6) [OF ok]
    by (auto simp: same_objects_def)
next
  case (LoadGlobal r)
  then show ?thesis using c st ok shared_facts(4) [OF ok] by (auto simp: settings_ok_def split: option.splits)
next
  case (FindIP r)
  then show ?thesis using c st ok shared_facts(3) [OF ok] by (auto simp: ips_table_ok_def split: option.splits)
next
  case (FindClient u)
  then show ?thesis using c st ok table_entry [OF ok, of "purpose_key u"] by (auto simp: pc_ok_have held_def split: option.splits)
next
  case (TestTier r p)
  then show ?thesis using c st ok shared_facts(4) [OF ok] by (auto simp: settings_ok_def split: option.splits if_splits)
next
  case (FindBlocked key)
  then show ?thesis using c st ok table_entry [OF ok, of key] by (auto split: option.splits)
qed (use c st ok in \<open>auto simp: held_def split: option.splits if_splits\<close>)


section \<open>Any interleaving\<close>

definition sys_ok :: "System \<Rightarrow> bool" where
  "sys_ok S \<longleftrightarrow> shared_ok (shared S) \<and> (\<forall>c\<in>set (threads S). pc_ok (shared S) c)"

lemma start_ok: "op_ok x \<Longrightarrow> pc_ok sh (start x)"
  by (cases x) (simp_all add: req_ok_def tier_name_def DefaultTier_def)

lemma run_thread_eq:
  "shared (run_thread rng S n) = fst (thread_step rng (shared S) (threads S ! n))"
  "threads (run_thread rng S n) = (threads S)[n := snd (thread_step rng (shared S) (threads S ! n))]"
  "granted (run_thread rng S n) = granted S @ grant (shared S) (threads S ! n)"
  by (simp_all add: run_thread_def case_prod_beta Let_def)

lemma run_thread_ok:
  assumes "sys_ok S" "n < length (threads S)" "is_range rng"
  shows "sys_ok (run_thread rng S n)" "grows (shared S) (shared (run_thread rng S n))"
proof -
  let ?c = "threads S ! n"
  have s: "shared_ok (shared S)" "pc_ok (shared S) ?c" using assms(1,2) by (simp_all add: sys_ok_def)
  have t: "shared_ok (fst (thread_step rng (shared S) ?c))" "grows (shared S) (fst (thread_step rng (shared S) ?c))"
    "pc_ok (fst (thread_step rng (shared S) ?c)) (snd (thread_step rng (shared S) ?c))"
    using thread_step_ok [OF s(1) assms(3) s(2)] by (metis prod.collapse)+
  have "pc_ok (fst (thread_step rng (shared S) ?c)) c" if "c \<in> set (threads S)" for c
    using that assms(1) t(2) by (auto simp: sys_ok_def intro: pc_ok_grows)
  with t show "sys_ok (run_thread rng S n)"
    unfolding sys_ok_def run_thread_eq by (auto dest: set_update_subset_insert [THEN subsetD])
  show "grows (shared S) (shared (run_thread rng S n))" using t(2) by (simp add: run_thread_eq)
qed

lemma spawn_ok: "sys_ok S \<Longrightarrow> op_ok x \<Longrightarrow> sys_ok (spawn S x)"
  by (auto simp: spawn_def sys_ok_def start_ok)

lemma builtin_default_safe: "cfg_safe builtin_default"
  by (simp add: cfg_safe_def builtin_default_def max_i64_def is_i64_def Second_def)

lemma sys_New_ok: "opts_ok opts \<Longrightarrow> sys_ok (sys_New opts)"
  using bucket_New_ok [OF builtin_default_safe, of 0] builtin_default_safe
  by (auto simp: sys_ok_def sys_New_def shared_New_def shared_ok_def objects_ok_def ctable_ok_def ips_table_ok_def
      settings_ok_def sched_New_ok opts_ok_def store_New_def Let_def valid_time_def gm_lookup_set gm_len_def split: if_splits)

lemma sys_reach_induct [consumes 1, case_names init call run]:
  assumes "sys_reach allowed opts S"
    and "P (sys_New opts)"
    and "\<And>S x. sys_reach allowed opts S \<Longrightarrow> P S \<Longrightarrow> op_ok x \<Longrightarrow> allowed x \<Longrightarrow> P (spawn S x)"
    and "\<And>S n rng. sys_reach allowed opts S \<Longrightarrow> P S \<Longrightarrow> n < length (threads S) \<Longrightarrow> is_range rng \<Longrightarrow> P (run_thread rng S n)"
  shows "P S"
  using assms(1) unfolding sys_reach_def
proof (induction rule: rtranclp_induct)
  case (step S S')
  from step(2) show ?case
  proof cases
    case (call x)
    then show ?thesis using assms(3) [of S x] step by (simp add: sys_reach_def)
  next
    case (run n rng)
    then show ?thesis using assms(4) [of S n rng] step by (simp add: sys_reach_def)
  qed
qed (rule assms(2))

lemma sys_reach_ok: "sys_reach allowed opts S \<Longrightarrow> opts_ok opts \<Longrightarrow> sys_ok S"
  by (induction rule: sys_reach_induct) (auto intro: sys_New_ok run_thread_ok(1) spawn_ok)

text \<open>The limits are fixed at construction.\<close>

lemma clear_ips_limits: "climit (fold lock_clear_ip ips sh) = climit sh \<and> iplimit (fold lock_clear_ip ips sh) = iplimit sh
    \<and> ctiers (fold lock_clear_ip ips sh) = ctiers sh"
  by (induction ips arbitrary: sh) (simp_all add: lock_clear_ip_def Let_def)

lemma lock_limits:
  "climit (lock_evict rng sh) = climit sh \<and> iplimit (lock_evict rng sh) = iplimit sh \<and> ctiers (lock_evict rng sh) = ctiers sh"
  "climit (lock_evict_ip rng sh) = climit sh \<and> iplimit (lock_evict_ip rng sh) = iplimit sh \<and> ctiers (lock_evict_ip rng sh) = ctiers sh"
  by (simp_all add: lock_evict_def lock_evict_ip_def drop_fold Let_def split: option.split)

lemma thread_step_limits:
  "climit (fst (thread_step rng sh c)) = climit sh \<and> iplimit (fst (thread_step rng sh c)) = iplimit sh
   \<and> ctiers (fst (thread_step rng sh c)) = ctiers sh"
  by (cases c) (simp_all add: case_prod_beta Let_def clear_ips_limits lock_client_def lock_ip_def lock_limits split: option.split)

lemma sys_reach_limits:
  "sys_reach allowed opts S \<Longrightarrow> climit (shared S) = optMaxClients opts
    \<and> iplimit (shared S) = ipBucketCap (store_New opts) \<and> ctiers (shared S) = tierDefaults (store_New opts)"
  by (induction rule: sys_reach_induct)
    (simp_all add: sys_New_def shared_New_def spawn_def run_thread_eq thread_step_limits Let_def, simp add: store_New_def Let_def)



text \<open>Two requests of different clients at once, in a store with room for one.\<close>

fun run_schedule :: "System \<Rightarrow> nat list \<Rightarrow> System" where
  "run_schedule S [] = S"
| "run_schedule S (n # ns) = run_schedule (run_thread (\<lambda>ks. ks) S n) ns"

lemma run_schedule_reach:
  "sys_reach allowed opts S \<Longrightarrow> list_all (\<lambda>n. n < length (threads S)) ns \<Longrightarrow> sys_reach allowed opts (run_schedule S ns)"
proof (induction ns arbitrary: S)
  case (Cons n ns)
  have "sys_step allowed S (run_thread (\<lambda>ks. ks) S n)" using Cons.prems(2) by (intro sys_step.run) (simp_all add: is_range_id)
  then have "sys_reach allowed opts (run_thread (\<lambda>ks. ks) S n)"
    using Cons.prems(1) unfolding sys_reach_def by (rule rtranclp.rtrancl_into_rtrancl [rotated])
  moreover have "length (threads (run_thread (\<lambda>ks. ks) S n)) = length (threads S)" by (simp add: run_thread_eq)
  ultimately show ?case using Cons by simp
qed simp

fun spawn_all :: "System \<Rightarrow> store_op list \<Rightarrow> System" where
  "spawn_all S [] = S"
| "spawn_all S (x # xs) = spawn_all (spawn S x) xs"

lemma spawn_all_reach:
  "sys_reach allowed opts S \<Longrightarrow> list_all (\<lambda>x. op_ok x \<and> allowed x) xs \<Longrightarrow> sys_reach allowed opts (spawn_all S xs)"
proof (induction xs arbitrary: S)
  case (Cons x xs)
  then have "sys_step allowed S (spawn S x)" by (auto intro: sys_step.call)
  with Cons.prems(1) have "sys_reach allowed opts (spawn S x)"
    unfolding sys_reach_def by (rule rtranclp.rtrancl_into_rtrancl)
  with Cons show ?case by simp
qed simp

lemma length_spawn_all [simp]: "length (threads (spawn_all S xs)) = length (threads S) + length xs"
  by (induction xs arbitrary: S) (simp_all add: spawn_def)

lemma schedule_reach:
  assumes "list_all (\<lambda>x. op_ok x \<and> allowed x) xs" "list_all (\<lambda>n. n < length xs) ns"
  shows "sys_reach allowed opts (run_schedule (spawn_all (sys_New opts) xs) ns)"
  using assms by (intro run_schedule_reach spawn_all_reach) (simp_all add: sys_reach_def sys_New_def)

definition two_newcomers :: System where
  "two_newcomers = run_schedule (spawn_all (sys_New example_opts)
     [SAllow 0 (request ''alice'' 10), SAllow 0 (request ''bob'' 20)]) [0, 1, 0, 1, 0, 1, 0, 1, 0, 1]"


end
