(* ===== verification/StoreThreadsLimit.thy ===== *)
theory StoreThreadsLimit
  imports StoreThreadsSafe
begin

text \<open>
  The rate limit of a client whose requests run concurrently.  Every bucket object goes through
  a sequence of whole operations, one after the other, whatever the threads do in between; and
  the double-checked creation of a client makes sure that all its requests for the default tier
  are charged to one and the same object.
\<close>

section \<open>Operations of one bucket\<close>

lemma lazyRefill_created [simp]: "createdAt (lazyRefill b now cfg) = createdAt b"
  by (simp add: lazyRefill_def Let_def)

lemma bucket_step_created [simp]: "createdAt (bucket_step b x) = createdAt b"
proof (cases x)
  case (OpAllow t)
  then show ?thesis
    by (simp add: bucket_Allow_def Let_def case_prod_beta split: option.split go.split bool.split)
next
  case (OpRefill t)
  then show ?thesis by (simp add: ScheduledRefill_def Let_def)
qed (simp_all add: bucket_Block_def bucket_Unblock_def)

lemma bucket_run_created [simp]: "createdAt (bucket_run b ops) = createdAt b"
  by (induction ops arbitrary: b) simp_all

text \<open>What a thread must keep to: no time after \<open>tmax\<close>, and no new configuration for the default
  tier of client \<open>k\<close>.\<close>

fun limit_op :: "gotime \<Rightarrow> string \<Rightarrow> store_op \<Rightarrow> bool" where
  "limit_op tmax k (SAllow wall r) = (req_time wall r \<le> tmax)"
| "limit_op tmax k (STick now) = (now \<le> tmax)"
| "limit_op tmax k (SUpdate key tier cfg now) = (key = k \<longrightarrow> tier_name tier \<noteq> DefaultTier)"
| "limit_op tmax k _ = True"

fun purpose_obeys :: "gotime \<Rightarrow> string \<Rightarrow> purpose \<Rightarrow> bool" where
  "purpose_obeys tmax k (ForAllow r) = (Now r \<le> tmax)"
| "purpose_obeys tmax k (ForUpdate key tier cfg now) = (key = k \<longrightarrow> tier \<noteq> DefaultTier)"
| "purpose_obeys tmax k (ForBlock key now) = True"

fun charging :: "pc \<Rightarrow> bool" where
  "charging (Charge r p b) = True"
| "charging _ = False"

fun obeys :: "gotime \<Rightarrow> string \<Rightarrow> pc \<Rightarrow> bool" where
  "obeys tmax k (LoadGlobal r) = (Now r \<le> tmax)"
| "obeys tmax k (ChargeGlobal r b) = (Now r \<le> tmax)"
| "obeys tmax k (TestIP r) = (Now r \<le> tmax)"
| "obeys tmax k (FindIP r) = (Now r \<le> tmax)"
| "obeys tmax k (MakeIP r) = (Now r \<le> tmax)"
| "obeys tmax k (ChargeIP r b) = (Now r \<le> tmax)"
| "obeys tmax k (FindClient u) = purpose_obeys tmax k u"
| "obeys tmax k (MakeClient u) = purpose_obeys tmax k u"
| "obeys tmax k (TestBlocked r p) = (Now r \<le> tmax)"
| "obeys tmax k (TestTier r p) = (Now r \<le> tmax)"
| "obeys tmax k (AddTier r p cfg) = (Now r \<le> tmax)"
| "obeys tmax k (PickBucket r p) = (Now r \<le> tmax)"
| "obeys tmax k (Charge r p b) = (Now r \<le> tmax)"
| "obeys tmax k (Reconfigure key tier cfg now p) = (key = k \<longrightarrow> tier \<noteq> DefaultTier)"
| "obeys tmax k (PopDue now) = (now \<le> tmax)"
| "obeys tmax k (DueFind now i c) = (now \<le> tmax \<and> obeys tmax k c \<and> \<not> charging c)"
| "obeys tmax k (DueTier now i p tier c) = (now \<le> tmax \<and> obeys tmax k c \<and> \<not> charging c)"
| "obeys tmax k (DueRefill now i b c) = (now \<le> tmax \<and> obeys tmax k c \<and> \<not> charging c)"
| "obeys tmax k (DueNext i b c) = (obeys tmax k c \<and> \<not> charging c)"
| "obeys tmax k (CountRefill c) = (obeys tmax k c \<and> \<not> charging c)"
| "obeys tmax k (Unschedule i c) = (obeys tmax k c \<and> \<not> charging c)"
| "obeys tmax k (SchedFind p tier i c) = (obeys tmax k c \<and> \<not> charging c)"
| "obeys tmax k (SchedTime b i c) = (obeys tmax k c \<and> \<not> charging c)"
| "obeys tmax k (SchedSet i t c) = (obeys tmax k c \<and> \<not> charging c)"
| "obeys tmax k _ = True"

lemma obeys_outcome [simp]: "obeys tmax k (rejected w reason)" "obeys tmax k (accepted n)"
  by (simp_all add: rejected_def accepted_def)

lemma charging_pass [simp]: "\<not> charging (pass_of now ids)"
  by (cases ids) (simp_all add: pass_of_def)

lemma obeys_pass: "obeys tmax k (pass_of now ids) \<longleftrightarrow> ids = [] \<or> now \<le> tmax"
proof (induction ids)
  case (Cons i ids)
  have "pass_of now (i # ids) = DueFind now i (pass_of now ids)" by (simp add: pass_of_def)
  with Cons show ?case by auto
qed (simp add: pass_of_def)

lemma start_obeys: "limit_op tmax k x \<Longrightarrow> obeys tmax k (start x)"
  by (cases x) auto

lemma thread_step_obeys: "obeys tmax k c \<Longrightarrow> obeys tmax k (snd (thread_step rng sh c))"
proof (cases c)
  case (FindClient u)
  then show "obeys tmax k c \<Longrightarrow> ?thesis" by (cases u) (auto split: option.split)
next
  case (MakeClient u)
  then show "obeys tmax k c \<Longrightarrow> ?thesis" by (cases u) (auto simp: case_prod_beta)
qed (auto simp: case_prod_beta Let_def obeys_pass due_find_def split: option.split)

section \<open>A step, seen by one bucket\<close>

lemma make_room_heap [simp]: "bheap (make_room rng sh) = bheap sh" "bfresh (make_room rng sh) = bfresh sh"
  "cheap (make_room rng sh) = cheap sh" "cfresh (make_room rng sh) = cfresh sh"
  by (simp_all add: make_room_def lock_evict_def drop_fold Let_def split: option.split)

lemma make_ip_room_heap [simp]: "bheap (make_ip_room rng sh) = bheap sh" "bfresh (make_ip_room rng sh) = bfresh sh"
  "cheap (make_ip_room rng sh) = cheap sh" "cfresh (make_ip_room rng sh) = cfresh sh"
  by (simp_all add: make_ip_room_def lock_evict_ip_def Let_def)

lemma lock_client_heap: "serial b < bfresh sh \<Longrightarrow> bheap (fst (lock_client rng sh key now)) b = bheap sh b"
proof (cases "gm_lookup (ctable sh) key")
  case None
  then show "serial b < bfresh sh \<Longrightarrow> ?thesis" by (auto simp: lock_client_new Let_def)
qed (simp add: lock_client_def)

lemma lock_ip_heap: "serial b < bfresh sh \<Longrightarrow> bheap (fst (lock_ip rng sh ip now)) b = bheap sh b"
proof (cases "gm_lookup (iptable sh) ip")
  case None
  then show "serial b < bfresh sh \<Longrightarrow> ?thesis" by (auto simp: lock_ip_new Let_def)
qed (simp add: lock_ip_def)

lemma clear_ips_heap [simp]: "bheap (fold lock_clear_ip ips sh) = bheap sh" "cheap (fold lock_clear_ip ips sh) = cheap sh"
  by (induction ips arbitrary: sh) (simp_all add: lock_clear_ip_def Let_def)

definition evolves :: "gotime \<Rightarrow> Bucket \<Rightarrow> Bucket \<Rightarrow> nat \<Rightarrow> bool" where
  "evolves tmax b b' n \<longleftrightarrow> (\<exists>ops. b' = bucket_run b ops \<and> list_all (op_time_ok tmax) ops \<and> admitted b ops = n)"

lemma evolves_refl [simp]: "evolves tmax b b 0"
  unfolding evolves_def by (intro exI [of _ "[]"]) simp

lemma evolves_trans: "evolves tmax a b m \<Longrightarrow> evolves tmax b c n \<Longrightarrow> evolves tmax a c (m + n)"
  unfolding evolves_def by (metis admitted_append bucket_run_append list_all_append)

lemma evolves_step: "op_time_ok tmax x \<Longrightarrow> evolves tmax b (bucket_step b x) (admitted b [x])"
  unfolding evolves_def by (intro exI [of _ "[x]"]) simp

lemma thread_step_evolves:
  assumes ok: "shared_ok sh" and c: "pc_ok sh c" "obeys tmax k c" and b: "serial b < bfresh sh" "bslot b = TierSlot p t"
  shows "evolves tmax (bheap sh b) (bheap (fst (thread_step rng sh c)) b) (length (filter (\<lambda>(q, b'). b' = b) (grant sh c)))"
proof (cases c)
  case (Charge r q b')
  have "op_time_ok tmax (OpAllow (Now r))" using c Charge by (simp add: req_ok_def)
  from evolves_step [OF this, of "bheap sh b"] show ?thesis
    using Charge by (cases "b' = b") (auto simp: case_prod_beta Let_def)
next
  case (DueRefill now i b' k')
  have "op_time_ok tmax (OpRefill now)" using c DueRefill by simp
  from evolves_step [OF this, of "bheap sh b"] show ?thesis using DueRefill by (cases "b' = b") auto
next
  case (BlockClient q)
  from evolves_step [of tmax OpBlock "bheap sh b"] show ?thesis using BlockClient by (auto simp: obj_all_def)
next
  case (UnblockClient q)
  from evolves_step [of tmax OpUnblock "bheap sh b"] show ?thesis using UnblockClient by (auto simp: obj_all_def)
next
  case (ChargeGlobal r b')
  then have "b' \<noteq> b" using c b by (auto simp: blive_def)
  with ChargeGlobal show ?thesis by (auto simp: case_prod_beta Let_def)
next
  case (ChargeIP r b')
  then have "b' \<noteq> b" using c b by (auto simp: blive_def)
  with ChargeIP show ?thesis by (auto simp: case_prod_beta Let_def)
qed (use b in \<open>auto simp: case_prod_beta Let_def lock_client_heap lock_ip_heap\<close>)

text \<open>The default bucket of a client that nobody reconfigures stays the same object.\<close>

lemma thread_step_default:
  assumes ok: "shared_ok sh" and c: "pc_ok sh c" "obeys tmax k c" and p: "p < cfresh sh" "objKey (cheap sh p) = k"
  shows "gm_lookup (objTiers (cheap (fst (thread_step rng sh c)) p)) DefaultTier = gm_lookup (objTiers (cheap sh p)) DefaultTier"
proof (cases c)
  case (MakeIP r)
  then show ?thesis
    by (cases "gm_lookup (iptable sh) (SourceIP r)") (simp_all add: lock_ip_new case_prod_beta Let_def, simp add: lock_ip_def)
next
  case (MakeClient u)
  then show ?thesis using p
    by (cases "gm_lookup (ctable sh) (purpose_key u)") (simp_all add: lock_client_new case_prod_beta Let_def, simp add: lock_client_def)
next
  case (AddTier r q cfg)
  then show ?thesis using c by (auto simp: gm_lookup_set tier_name_id)
next
  case (Reconfigure key tier cfg now q)
  then show ?thesis using c p by (auto simp: gm_lookup_set tier_name_id held_def)
qed (simp_all add: case_prod_beta Let_def)


section \<open>Any interleaving\<close>

definition on_default :: "ptr \<Rightarrow> ptr \<times> bptr \<Rightarrow> bool" where
  "on_default p = (\<lambda>(q, b). bslot b = TierSlot p DefaultTier)"

definition one_bucket :: "gotime \<Rightarrow> bucket_Config \<Rightarrow> System \<Rightarrow> ptr \<Rightarrow> bool" where
  "one_bucket tmax cfg S p \<longleftrightarrow> (\<exists>d t0. gm_lookup (objTiers (cheap (shared S) p)) DefaultTier = Some d \<and> valid_time t0
     \<and> evolves tmax (bucket_New cfg t0) (bheap (shared S) d) (length (filter (on_default p) (granted S)))
     \<and> (\<forall>r q b. Charge r q b \<in> set (threads S) \<longrightarrow> bslot b = TierSlot p DefaultTier \<longrightarrow> b = d))"

definition limit_inv :: "gotime \<Rightarrow> string \<Rightarrow> bucket_Config \<Rightarrow> System \<Rightarrow> bool" where
  "limit_inv tmax k cfg S \<longleftrightarrow> (\<forall>c\<in>set (threads S). obeys tmax k c)
     \<and> (\<forall>(q, b)\<in>set (granted S). q < cfresh (shared S) \<and> (\<exists>t. bslot b = TierSlot q t))
     \<and> (\<forall>p<cfresh (shared S). objKey (cheap (shared S) p) = k \<longrightarrow> one_bucket tmax cfg S p)"

lemma evolves_zero: "evolves tmax a b 0 \<Longrightarrow> evolves tmax b c n \<Longrightarrow> evolves tmax a c n"
  using evolves_trans [of tmax a b 0 c n] by simp

text \<open>A charge that a step starts is to a bucket of the client the thread holds.\<close>

lemma thread_step_charge:
  assumes c: "obeys tmax k c" and st: "snd (thread_step rng sh c) = Charge r q b"
  shows "c = PickBucket r q \<and> obj_charged sh q (Tier r) = Some b"
proof (cases c)
  case (FindClient u)
  then show ?thesis using st by (cases u) (auto split: option.splits)
next
  case (MakeClient u)
  then show ?thesis using st by (cases u) (auto simp: case_prod_beta)
next
  case (PopDue now)
  then show ?thesis using st by (cases "snd (popDue (sched sh) now)") (auto simp: pass_of_def case_prod_beta)
qed (use c st in \<open>auto simp: case_prod_beta Let_def due_find_def rejected_def accepted_def split: option.splits if_splits\<close>)


lemma cfresh_lock_client:
  assumes "cfresh sh \<le> p" "p < cfresh (fst (lock_client rng sh key now))"
  shows "gm_lookup (ctable sh) key = None" "p = cfresh sh"
proof -
  show n: "gm_lookup (ctable sh) key = None" using assms by (cases "gm_lookup (ctable sh) key") (simp_all add: lock_client_def)
  show "p = cfresh sh" using assms by (simp add: lock_client_new [OF n] Let_def split: if_splits)
qed

lemma cfresh_lock_ip [simp]: "cfresh (fst (lock_ip rng sh ip now)) = cfresh sh"
  by (cases "gm_lookup (iptable sh) ip") (simp_all add: lock_ip_new Let_def, simp add: lock_ip_def)

lemma cfresh_clear_ips [simp]: "cfresh (fold lock_clear_ip ips sh) = cfresh sh"
  by (induction ips arbitrary: sh) (simp_all add: lock_clear_ip_def Let_def)

lemma thread_step_new_client:
  assumes "cfresh sh \<le> p" "p < cfresh (fst (thread_step rng sh c))"
  obtains u where "c = MakeClient u" "gm_lookup (ctable sh) (purpose_key u) = None" "p = cfresh sh"
proof -
  from assms obtain u where u: "c = MakeClient u" by (cases c) (auto simp: case_prod_beta Let_def)
  with assms cfresh_lock_client [of sh p rng "purpose_key u" "purpose_now u"] that show thesis by (auto simp: case_prod_beta)
qed

lemma default_config_room: "default_config (store_of (make_room rng sh)) t = default_config (store_of sh) t"
  by (simp add: default_config_def store_of_def make_room_def lock_limits)

lemma run_thread_one_bucket_new:
  assumes ok: "sys_ok S" and inv: "limit_inv tmax k cfg S" and n: "n < length (threads S)" and rng: "is_range rng"
    and p: "cfresh (shared S) \<le> p" "p < cfresh (shared (run_thread rng S n))"
    and cfg: "cfg = default_config (store_of (shared S)) DefaultTier"
  shows "one_bucket tmax cfg (run_thread rng S n) p"
proof -
  let ?sh = "shared S" and ?S = "run_thread rng S n"
  obtain u where u: "threads S ! n = MakeClient u" "gm_lookup (ctable ?sh) (purpose_key u) = None" "p = cfresh ?sh"
    using p by (auto simp: run_thread_eq elim: thread_step_new_client)
  have t: "MakeClient u \<in> set (threads S)" using n u(1) by (metis nth_mem)
  then have "pc_ok ?sh (MakeClient u)" using ok unfolding sys_ok_def by blast
  then have v: "valid_time (purpose_now u)" using purpose_facts [of u] by simp
  let ?add = "add_client (make_room rng ?sh) (purpose_key u) cfg (purpose_now u)"
  have s: "cheap (shared ?S) p = cheap ?add p" "bheap (shared ?S) = bheap ?add"
    by (simp_all add: run_thread_eq u lock_client_new Let_def cfg default_config_room case_prod_beta)
  have none: "filter (on_default p) (granted ?S) = []"
    using inv u(1,3) by (auto simp: run_thread_eq limit_inv_def on_default_def filter_empty_conv)
  have "\<not> (Charge r q b \<in> set (threads ?S) \<and> bslot b = TierSlot p DefaultTier)" for r q b
  proof
    assume a: "Charge r q b \<in> set (threads ?S) \<and> bslot b = TierSlot p DefaultTier"
    have "snd (thread_step rng ?sh (MakeClient u)) \<noteq> Charge r q b" by (cases u) (simp_all add: case_prod_beta)
    with a have "Charge r q b \<in> set (threads S)"
      by (auto simp: run_thread_eq u(1) dest!: set_update_subset_insert [THEN subsetD])
    then have "pc_ok ?sh (Charge r q b)" using ok unfolding sys_ok_def by blast
    then show False using a u(3) by (auto simp: blive_def held_def)
  qed
  moreover have "gm_lookup (objTiers (cheap (shared ?S) p)) DefaultTier = Some (BPtr (TierSlot p DefaultTier) (bfresh ?sh))"
    unfolding s(1) by (simp add: u(3) gm_lookup_def)
  moreover have "bheap (shared ?S) (BPtr (TierSlot p DefaultTier) (bfresh ?sh)) = bucket_New cfg (purpose_now u)"
    by (simp add: s(2) u(3))
  ultimately show ?thesis unfolding one_bucket_def none using v
    by (intro exI [of _ "BPtr (TierSlot p DefaultTier) (bfresh ?sh)"] exI [of _ "purpose_now u"]) simp
qed

lemma obj_charged_entry:
  assumes "obj_ok sh q" "obj_charged sh q tier = Some b"
  shows "\<exists>t. gm_lookup (objTiers (cheap sh q)) t = Some b \<and> bslot b = TierSlot q t"
  using assms by (auto simp: obj_charged_def obj_Bucket_def obj_ok_def blive_def split: option.splits)

lemma run_thread_one_bucket_old:
  assumes ok: "sys_ok S" and inv: "limit_inv tmax k cfg S" and n: "n < length (threads S)" and rng: "is_range rng"
    and p: "p < cfresh (shared S)" "objKey (cheap (shared S) p) = k"
  shows "one_bucket tmax cfg (run_thread rng S n) p"
proof -
  let ?sh = "shared S" and ?S = "run_thread rng S n" and ?c = "threads S ! n"
  have sh: "shared_ok ?sh" and c: "pc_ok ?sh ?c" "obeys tmax k ?c" "?c \<in> set (threads S)"
    using ok inv n by (simp_all add: sys_ok_def limit_inv_def)
  have "one_bucket tmax cfg S p" using inv p by (simp add: limit_inv_def)
  then obtain d t0 where d: "gm_lookup (objTiers (cheap ?sh p)) DefaultTier = Some d" "valid_time t0"
    "evolves tmax (bucket_New cfg t0) (bheap ?sh d) (length (filter (on_default p) (granted S)))"
    "\<forall>r q b. Charge r q b \<in> set (threads S) \<longrightarrow> bslot b = TierSlot p DefaultTier \<longrightarrow> b = d"
    unfolding one_bucket_def by (elim exE conjE) (rule that)
  have dl: "bslot d = TierSlot p DefaultTier" "serial d < bfresh ?sh"
    using shared_facts(7) [OF sh p(1)] d(1) by (auto simp: obj_ok_def blive_def)
  have "filter (on_default p) (grant ?sh ?c) = filter (\<lambda>(q, b'). b' = d) (grant ?sh ?c)"
  proof (cases ?c)
    case (Charge r q b)
    then have "Charge r q b \<in> set (threads S)" using c(3) by simp
    with d(4) dl(1) have "(bslot b = TierSlot p DefaultTier) = (b = d)" by metis
    then show ?thesis by (simp add: Charge on_default_def)
  qed simp_all
  then have "evolves tmax (bucket_New cfg t0) (bheap (shared ?S) d) (length (filter (on_default p) (granted ?S)))"
    using evolves_trans [OF d(3) thread_step_evolves [OF sh c(1,2) dl(2,1), of rng]] by (simp add: run_thread_eq)
  moreover have "gm_lookup (objTiers (cheap (shared ?S) p)) DefaultTier = Some d"
    using thread_step_default [OF sh c(1,2) p, of rng] d(1) by (simp add: run_thread_eq)
  moreover have "b = d" if b: "Charge r q b \<in> set (threads ?S)" "bslot b = TierSlot p DefaultTier" for r q b
  proof (cases "Charge r q b \<in> set (threads S)")
    case False
    with b(1) have "snd (thread_step rng ?sh ?c) = Charge r q b"
      by (auto simp: run_thread_eq dest!: set_update_subset_insert [THEN subsetD])
    then have pick: "?c = PickBucket r q" "obj_charged ?sh q (Tier r) = Some b" using thread_step_charge [OF c(2)] by blast+
    then have "obj_ok ?sh q" using c(1) shared_facts(7) [OF sh] by (simp add: held_def)
    then obtain t where "gm_lookup (objTiers (cheap ?sh q)) t = Some b" "bslot b = TierSlot q t"
      using obj_charged_entry [OF _ pick(2)] by blast
    with b(2) d(1) show ?thesis by simp
  next
    case True
    with d(4) b(2) show ?thesis by simp
  qed
  ultimately show ?thesis using d(2) unfolding one_bucket_def by (intro exI [of _ d] exI [of _ t0]) simp
qed

lemma run_thread_limit:
  assumes ok: "sys_ok S" and inv: "limit_inv tmax k cfg S" and n: "n < length (threads S)" and rng: "is_range rng"
    and cfg: "cfg = default_config (store_of (shared S)) DefaultTier"
  shows "limit_inv tmax k cfg (run_thread rng S n)"
proof -
  let ?S = "run_thread rng S n" and ?c = "threads S ! n"
  have g: "grows (shared S) (shared ?S)" by (rule run_thread_ok(2) [OF ok n rng])
  have c: "pc_ok (shared S) ?c" "obeys tmax k ?c" using ok inv n by (simp_all add: sys_ok_def limit_inv_def)
  have "obeys tmax k d" if "d \<in> set (threads ?S)" for d
    using that inv thread_step_obeys [OF c(2), of rng "shared S"]
    by (auto simp: limit_inv_def run_thread_eq dest!: set_update_subset_insert [THEN subsetD])
  moreover have "q < cfresh (shared ?S) \<and> (\<exists>t. bslot b = TierSlot q t)" if "(q, b) \<in> set (granted ?S)" for q b
  proof -
    have "q < cfresh (shared S) \<and> (\<exists>t. bslot b = TierSlot q t)"
    proof (cases "(q, b) \<in> set (granted S)")
      case False
      with that have "(q, b) \<in> set (grant (shared S) ?c)" by (simp add: run_thread_eq)
      then obtain r where "?c = Charge r q b" by (cases ?c) (auto split: if_splits)
      with c(1) show ?thesis by (auto simp: held_def blive_def)
    qed (use inv in \<open>auto simp: limit_inv_def\<close>)
    with g show ?thesis by (auto simp: grows_def)
  qed
  moreover have "one_bucket tmax cfg ?S p" if "p < cfresh (shared ?S)" "objKey (cheap (shared ?S) p) = k" for p
  proof (cases "p < cfresh (shared S)")
    case True
    with g that(2) have "objKey (cheap (shared S) p) = k" by (auto simp: grows_def)
    with True show ?thesis by (rule run_thread_one_bucket_old [OF ok inv n rng])
  next
    case False
    then show ?thesis using run_thread_one_bucket_new [OF ok inv n rng _ that(1) cfg] by simp
  qed
  ultimately show ?thesis unfolding limit_inv_def by blast
qed

lemma sys_reach_limit:
  assumes "sys_reach (limit_op tmax k) opts S" "opts_ok opts"
  shows "limit_inv tmax k (default_config (store_New opts) DefaultTier) S"
  using assms(1)
proof (induction rule: sys_reach_induct)
  case init
  then show ?case by (simp add: limit_inv_def sys_New_def shared_New_def Let_def)
next
  case (call S x)
  have "start x \<noteq> Charge r q b" for r q b by (cases x) simp_all
  then have "Charge r q b \<in> set (threads (spawn S x)) \<longleftrightarrow> Charge r q b \<in> set (threads S)" for r q b
    by (auto simp: spawn_def) metis
  then have "one_bucket tmax cfg (spawn S x) p = one_bucket tmax cfg S p" for cfg p
    unfolding one_bucket_def by (simp add: spawn_def)
  with call start_obeys [of tmax k x] show ?case unfolding limit_inv_def by (auto simp: spawn_def)
next
  case (run S n rng)
  have "default_config (store_New opts) DefaultTier = default_config (store_of (shared S)) DefaultTier"
    using sys_reach_limits [OF run(1)] by (simp add: default_config_def store_of_def)
  then show ?case using run_thread_limit [OF sys_reach_ok [OF run(1) assms(2)] run.IH run(2,3)] by simp
qed



text \<open>Two requests of one client that both find it missing.\<close>

definition two_requests :: System where
  "two_requests = run_schedule (spawn_all (sys_New example_opts) [SAllow 0 (request ''alice'' 10), SAllow 0 (request ''alice'' 20)])
     ([0, 0, 0, 1, 1, 1, 1, 0] @ replicate 6 0 @ replicate 6 1)"

lemma two_requests_granted: "length (filter (on_default 0) (granted two_requests)) = 2"
  by code_simp

lemma two_requests_client: "(cfresh (shared two_requests), objKey (cheap (shared two_requests) 0)) = (1, ''alice'')"
  by code_simp


end
