(* ===== verification/StoreThreadsProps.thy ===== *)
theory StoreThreadsProps
  imports StoreThreadsSafe
begin

text \<open>
  What concurrent callers of the store can rely on, and what they cannot: which buckets the
  refill schedule knows, how many requests a client gets, and the races that lose a charge or an
  entry of the schedule.
\<close>

section \<open>The schedule\<close>

text \<open>The bucket an id of the scheduler stands for.\<close>

definition bptr_at :: "Shared \<Rightarrow> string \<Rightarrow> bptr option" where
  "bptr_at sh i =
     (if i = globalBucketID then gptr sh
      else if HasPrefix i ipIDPrefix then gm_lookup (iptable sh) (TrimPrefix i ipIDPrefix)
      else Option.bind (decodeID i) (\<lambda>(k, t). Option.bind (gm_lookup (ctable sh) k) (\<lambda>p. gm_lookup (objTiers (cheap sh p)) t)))"

lemma bucket_at_store_of: "bucket_at (store_of sh) i = map_option (bheap sh) (bptr_at sh i)"
  by (auto simp: bucket_at_def bptr_at_def store_of_def client_bucket_def client_view_def gm_lookup_map
      split: option.split Option.bind_split)

definition refill_wanted :: "Shared \<Rightarrow> string \<Rightarrow> bool" where
  "refill_wanted sh i \<longleftrightarrow> (\<exists>b. bptr_at sh i = Some b \<and> refills (bheap sh b))"

text \<open>The ids a thread is going to schedule.\<close>

fun claims :: "Shared \<Rightarrow> pc \<Rightarrow> string set" where
  "claims sh (DueFind now i k) = insert i (claims sh k)"
| "claims sh (DueTier now i p tier k) = (if obj_Bucket sh p tier = None then {} else {i}) \<union> claims sh k"
| "claims sh (DueRefill now i b k) = insert i (claims sh k)"
| "claims sh (DueNext i b k) = insert i (claims sh k)"
| "claims sh (CountRefill k) = claims sh k"
| "claims sh (Unschedule i k) = claims sh k"
| "claims sh (SchedFind p tier i k) = insert i (claims sh k)"
| "claims sh (SchedTime b i k) = insert i (claims sh k)"
| "claims sh (SchedSet i t k) = insert i (claims sh k)"
| "claims sh _ = {}"

text \<open>Calls that take no bucket out of the schedule for good: updates to configurations that
  refill, and no removal of the global limit.\<close>

fun keeps_refilling :: "store_op \<Rightarrow> bool" where
  "keeps_refilling (SUpdate key tier cfg now) = (0 < RefillInterval cfg)"
| "keeps_refilling (SSetGlobal cfg now) = (0 < RefillInterval cfg)"
| "keeps_refilling SDisableGlobal = False"
| "keeps_refilling _ = True"

fun awaits :: "string \<Rightarrow> pc \<Rightarrow> bool" where
  "awaits i (SchedFind p tier j k) = (i = j)"
| "awaits i (SchedTime b j k) = (i = j)"
| "awaits i _ = False"

fun purpose_careful :: "purpose \<Rightarrow> bool" where
  "purpose_careful (ForUpdate key tier cfg now) = (0 < RefillInterval cfg)"
| "purpose_careful _ = True"

fun careful :: "pc \<Rightarrow> bool" where
  "careful (FindClient u) = purpose_careful u"
| "careful (MakeClient u) = purpose_careful u"
| "careful (Reconfigure key tier cfg now p) = (0 < RefillInterval cfg)"
| "careful (StoreGlobal cfg now) = (0 < RefillInterval cfg)"
| "careful ClearGlobal = False"
| "careful (DueFind now i k) = careful k"
| "careful (DueTier now i p tier k) = careful k"
| "careful (DueRefill now i b k) = careful k"
| "careful (DueNext i b k) = careful k"
| "careful (CountRefill k) = careful k"
| "careful (Unschedule i k) = (awaits i k \<and> careful k)"
| "careful (SchedFind p tier i k) = careful k"
| "careful (SchedTime b i k) = careful k"
| "careful (SchedSet i t k) = careful k"
| "careful _ = True"

lemma awaits_claims: "awaits i k \<Longrightarrow> i \<in> claims sh k"
  by (cases k) auto

lemma start_careful: "keeps_refilling x \<Longrightarrow> careful (start x)"
  by (cases x) auto

lemma careful_pass: "careful (pass_of now ids)" "claims sh (pass_of now ids) = set ids"
  by (induction ids) (auto simp: pass_of_def)

lemma careful_outcome [simp]: "careful (rejected w reason)" "careful (accepted n)"
  by (simp_all add: rejected_def accepted_def)

lemma thread_step_careful: "careful c \<Longrightarrow> careful (snd (thread_step rng sh c))"
proof (cases c)
  case (FindClient u)
  then show "careful c \<Longrightarrow> ?thesis" by (cases u) (auto split: option.split)
next
  case (MakeClient u)
  then show "careful c \<Longrightarrow> ?thesis" by (cases u) (auto simp: case_prod_beta)
qed (auto simp: case_prod_beta Let_def careful_pass due_find_def split: option.split)

lemma claims_grows: "pc_ok sh c \<Longrightarrow> grows sh sh' \<Longrightarrow> claims sh c \<subseteq> claims sh' c"
proof (induction c)
  case (DueTier now i p tier k)
  then show ?case using bucket_grows [of sh p tier sh'] by (auto simp: held_def)
qed auto

text \<open>How the ids change with the tables and the objects.\<close>

lemma bptr_at_live:
  assumes "shared_ok sh" "bptr_at sh i = Some b"
  shows "serial b < bfresh sh"
  using assms shared_facts(3,4) [OF assms(1)] table_entry(3) [OF assms(1)]
  by (fastforce simp: bptr_at_def Option.bind_eq_Some_conv ips_table_ok_def settings_ok_def obj_ok_def blive_def split: if_splits)

lemma bptr_at_cong:
  "gptr sh' = gptr sh \<Longrightarrow> iptable sh' = iptable sh \<Longrightarrow> ctable sh' = ctable sh \<Longrightarrow> cheap sh' = cheap sh \<Longrightarrow> bptr_at sh' = bptr_at sh"
  by (simp add: bptr_at_def fun_eq_iff)

lemma bptr_at_drop_client:
  assumes "shared_ok sh" "gm_lookup (ctable sh) k = Some p"
  shows "bptr_at (sh\<lparr>ctable := gm_delete k (ctable sh), cevictions := n, sched := sc\<rparr>) i =
    (if \<exists>t. i = encodeID k t then None else bptr_at sh i)"
proof (cases "\<exists>t. i = encodeID k t")
  case True
  with table_entry(4) [OF assms] show ?thesis
    by (auto simp: bptr_at_def encode_no_ip decode_encode key_ok_def gm_lookup_delete)
next
  case False
  then have "k' \<noteq> k" if "decodeID i = Some (k', t)" for k' t using decode_Some [OF that] by auto
  with False show ?thesis by (cases "decodeID i") (auto simp: bptr_at_def gm_lookup_delete)
qed

lemma bptr_at_drop_ip:
  "bptr_at (sh\<lparr>iptable := gm_delete ip (iptable sh)\<rparr>) i = (if i = ipIDPrefix @ ip then None else bptr_at sh i)"
  using HasPrefixD [of i ipIDPrefix] by (auto simp: bptr_at_def gm_lookup_delete)

lemma bptr_at_add_ip:
  "bptr_at (add_ip sh ip cfg now) i = (if i = ipIDPrefix @ ip then Some (BPtr (IPSlot ip) (bfresh sh)) else bptr_at sh i)"
  using HasPrefixD [of i ipIDPrefix] by (auto simp: bptr_at_def gm_lookup_set)

lemma bptr_at_add_client:
  assumes "shared_ok sh" "key_ok key" "gm_lookup (ctable sh) key = None"
  shows "bptr_at (add_client sh key cfg now) i =
    (if i = encodeID key DefaultTier then Some (BPtr (TierSlot (cfresh sh) DefaultTier) (bfresh sh)) else bptr_at sh i)"
proof (cases "decodeID i")
  case None
  then have "i \<noteq> encodeID key DefaultTier" using assms(2) by (auto simp: decode_encode key_ok_def)
  with None show ?thesis by (simp add: bptr_at_def)
next
  case (Some kt)
  obtain k t where kt: "kt = (k, t)" by (cases kt)
  have i: "i = encodeID k t" using decode_Some Some kt by simp
  have p: "p \<noteq> cfresh sh" if "gm_lookup (ctable sh) k = Some p" for p using table_entry(1) [OF assms(1) that] by simp
  show ?thesis
  proof (cases "k = key")
    case True
    have "gm_lookup [(DefaultTier, b)] u = (if u = DefaultTier then Some b else None)" for b :: bptr and u
      by (simp add: gm_lookup_def)
    with i True assms(2,3) show ?thesis
      by (simp add: bptr_at_def encode_no_ip encodeID_inject gm_lookup_set) (simp add: decode_encode key_ok_def gm_lookup_set)
  next
    case False
    then have ne: "i \<noteq> encodeID key DefaultTier" using Some kt assms(2) by (auto simp: decode_encode key_ok_def)
    with False Some kt p show ?thesis by (auto simp: bptr_at_def gm_lookup_set split: Option.bind_split)
  qed
qed

lemma bptr_at_Configure:
  assumes ok: "shared_ok sh" and p: "p < cfresh sh"
  shows "bptr_at (obj_Configure sh p tier cfg now) i = bptr_at sh i \<or>
    i = encodeID (objKey (cheap sh p)) (tier_name tier)
      \<and> bptr_at (obj_Configure sh p tier cfg now) i = Some (BPtr (TierSlot p (tier_name tier)) (bfresh sh))"
proof -
  have "i = encodeID (objKey (cheap sh p)) (tier_name tier)"
    if "\<not> HasPrefix i ipIDPrefix" "decodeID i = Some (k, tier_name tier)" "gm_lookup (ctable sh) k = Some p" for k
    using decode_Some [OF that(2)] table_entry(2) [OF ok that(3)] by simp
  then show ?thesis by (auto simp: bptr_at_def gm_lookup_set split: Option.bind_split)
qed


lemma refills_cong: "configPtr b' = configPtr b \<Longrightarrow> refills b' = refills b"
  by (simp add: refills_def)

lemma refill_wanted_cong:
  assumes "gptr sh' = gptr sh" "iptable sh' = iptable sh" "ctable sh' = ctable sh" "cheap sh' = cheap sh"
    "\<And>b. configPtr (bheap sh' b) = configPtr (bheap sh b)"
  shows "refill_wanted sh' = refill_wanted sh"
  using bptr_at_cong [OF assms(1-4)] assms(5) by (simp add: refill_wanted_def refills_def fun_eq_iff)

lemma pending_of_drop: "sched_ok sc \<Longrightarrow> pending (st.remove_all sc ids) i = (if i \<in> set ids then None else pending sc i)"
  using st.remove_all_correct [of sc ids] by simp

text \<open>Eviction takes ids out of the schedule only together with their buckets.\<close>

definition less_wanted :: "Shared \<Rightarrow> Shared \<Rightarrow> bool" where
  "less_wanted sh sh' \<longleftrightarrow> (\<forall>i b. bptr_at sh' i = Some b \<longrightarrow> bptr_at sh i = Some b \<and> pending (sched sh') i = pending (sched sh) i)
     \<and> bheap sh' = bheap sh \<and> bfresh sh' = bfresh sh"

lemma make_room_less:
  assumes "shared_ok sh" "is_range rng"
  shows "less_wanted sh (make_room rng sh)"
proof (cases "climit sh > 0 \<and> gm_len (ctable sh) \<ge> climit sh")
  case True
  then have "ctable sh \<noteq> []" using gm_len_0 [of "ctable sh"] by fastforce
  then obtain k p where k: "gm_lookup (ctable sh) k = Some p" "lock_evict rng sh = sh\<lparr>ctable := gm_delete k (ctable sh),
      cevictions := i64 (cevictions sh + 1), sched := st.remove_all (sched sh) (map (encodeID k) (rng (gm_keys (objTiers (cheap sh p)))))\<rparr>"
    by (rule lock_evict_effect [OF assms])
  have "less_wanted sh (lock_evict rng sh)"
    unfolding less_wanted_def k(2) by (auto simp: bptr_at_drop_client [OF assms(1) k(1)] pending_of_drop [OF shared_facts(5) [OF assms(1)]])
  with True show ?thesis by (simp add: make_room_def)
qed (auto simp: make_room_def less_wanted_def)

lemma bptr_at_sched_drop [simp]: "bptr_at (sched_drop sh j) = bptr_at sh" "bptr_at (sched_set sh j t) = bptr_at sh"
  by (rule bptr_at_cong; simp)+

lemma make_ip_room_less:
  assumes "shared_ok sh" "is_range rng"
  shows "less_wanted sh (make_ip_room rng sh)"
  by (cases rule: make_ip_room_cases [OF assms])
    (auto simp: less_wanted_def bptr_at_drop_ip sched_Remove_correct [OF shared_facts(5) [OF assms(1)]] split: if_splits)

lemma bptr_at_clear_ip: "bptr_at (lock_clear_ip ip sh) i = (if i = ipIDPrefix @ ip then None else bptr_at sh i)"
  unfolding lock_clear_ip_def Let_def by (simp only: bptr_at_drop_ip bptr_at_sched_drop)

lemma clear_ips_less:
  "shared_ok sh \<Longrightarrow> less_wanted sh (fold lock_clear_ip ips sh)"
proof (induction ips arbitrary: sh)
  case (Cons ip ips)
  have ok: "shared_ok (lock_clear_ip ip sh)" using clear_ips_ok' [OF Cons.prems, of "[ip]"] by simp
  have "less_wanted sh (lock_clear_ip ip sh)"
    unfolding less_wanted_def bptr_at_clear_ip using sched_Remove_correct(2) [OF shared_facts(5) [OF Cons.prems]]
    by (auto simp: lock_clear_ip_def Let_def split: if_splits)
  with Cons.IH [OF ok] show ?case by (auto simp: less_wanted_def)
qed (simp add: less_wanted_def)

text \<open>One step: an id that wants refills afterwards is scheduled, or claimed by the thread, or was
  wanted before by an id the step neither scheduled nor claimed.\<close>

definition settled :: "Shared \<Rightarrow> Shared \<Rightarrow> pc \<Rightarrow> pc \<Rightarrow> string \<Rightarrow> bool" where
  "settled sh sh' c c' i \<longleftrightarrow> (refill_wanted sh' i \<longrightarrow> pending (sched sh') i \<noteq> None \<or> i \<in> claims sh' c'
     \<or> refill_wanted sh i \<and> pending (sched sh) i = None \<and> i \<notin> claims sh c)"

lemma settled_same:
  assumes "refill_wanted sh' = refill_wanted sh" "pending (sched sh') = pending (sched sh)"
    "i \<in> claims sh c \<Longrightarrow> i \<in> claims sh' c'"
  shows "settled sh sh' c c' i"
  using assms by (auto simp: settled_def)

lemma settled_less:
  assumes "less_wanted sh sh'" "claims sh c = {}"
  shows "settled sh sh' c c' i"
proof -
  have "refill_wanted sh i \<and> pending (sched sh') i = pending (sched sh) i" if "refill_wanted sh' i"
    using that assms(1) by (auto simp: refill_wanted_def less_wanted_def)
  with assms(2) show ?thesis by (auto simp: settled_def)
qed

text \<open>A new bucket under an id that is scheduled in the same step, or claimed.\<close>

lemma settled_new:
  assumes ok: "shared_ok sh1" and less: "less_wanted sh sh1"
    and b: "bptr_at sh2 i = bptr_at sh1 i \<or> (refills (bucket_New cfg now) \<longrightarrow> pending (sched sh2) i \<noteq> None \<or> i \<in> claims sh2 c')
        \<and> bptr_at sh2 i = Some nb \<and> bheap sh2 nb = bucket_New cfg now"
    and h: "\<And>b. serial b < bfresh sh1 \<Longrightarrow> bheap sh2 b = bheap sh1 b"
    and p: "pending (sched sh2) i = pending (sched sh1) i \<or> pending (sched sh2) i \<noteq> None"
    and c: "claims sh c = {}"
  shows "settled sh sh2 c c' i"
proof -
  have A: "refill_wanted sh1 i" if "refill_wanted sh2 i" "bptr_at sh2 i = bptr_at sh1 i"
  proof -
    from that obtain x where x: "bptr_at sh1 i = Some x" "refills (bheap sh2 x)" by (auto simp: refill_wanted_def)
    with h [OF bptr_at_live [OF ok x(1)]] show ?thesis by (simp add: refill_wanted_def)
  qed
  have B: "refill_wanted sh i" "pending (sched sh1) i = pending (sched sh) i" if "refill_wanted sh1 i"
    using that less by (auto simp: refill_wanted_def less_wanted_def)
  show ?thesis unfolding settled_def
  proof (rule impI)
    assume w: "refill_wanted sh2 i"
    from b show "pending (sched sh2) i \<noteq> None \<or> i \<in> claims sh2 c' \<or>
        refill_wanted sh i \<and> pending (sched sh) i = None \<and> i \<notin> claims sh c"
    proof
      assume "bptr_at sh2 i = bptr_at sh1 i"
      from B [OF A [OF w this]] p c show ?thesis by (metis empty_iff)
    next
      assume n: "(refills (bucket_New cfg now) \<longrightarrow> pending (sched sh2) i \<noteq> None \<or> i \<in> claims sh2 c')
        \<and> bptr_at sh2 i = Some nb \<and> bheap sh2 nb = bucket_New cfg now"
      with w have "refills (bucket_New cfg now)" by (simp add: refill_wanted_def)
      with n show ?thesis by blast
    qed
  qed
qed

lemma less_wanted_refl [simp]: "less_wanted sh sh"
  by (simp add: less_wanted_def)

lemma serial_new: "serial b < n \<Longrightarrow> b \<noteq> BPtr sl n"
  by auto

lemma settled_MakeIP:
  assumes ok: "shared_ok sh" and rng: "is_range rng" and r: "lock_ip rng sh ip now = (sh', b)" and c: "claims sh c = {}"
  shows "settled sh sh' c c' i"
proof (cases "gm_lookup (iptable sh) ip")
  case (Some q)
  with r have "sh' = sh" by (simp add: lock_ip_def)
  with c show ?thesis by (auto intro: settled_less)
next
  case None
  let ?sh1 = "make_ip_room rng sh" and ?cfg = "ip_config sh"
  let ?nb = "BPtr (IPSlot ip) (bfresh ?sh1)" and ?add = "add_ip ?sh1 ip ?cfg now"
  have room: "shared_ok ?sh1" by (rule make_ip_room_ok(1) [OF ok rng])
  have s: "sh' = (if RefillInterval ?cfg > 0 then sched_set ?add (ipIDPrefix @ ip) (NextRefillTime (bucket_New ?cfg now)) else ?add)"
    using r by (simp add: lock_ip_new [OF None] Let_def)
  have pend: "pending (sched sh') j = (if RefillInterval ?cfg > 0 \<and> j = ipIDPrefix @ ip then Some (NextRefillTime (bucket_New ?cfg now))
      else pending (sched ?sh1) j)" for j
    using Schedule_correct(2) [OF shared_facts(5) [OF room]] by (simp add: s)
  have bp: "bptr_at sh' = bptr_at ?add" and bh: "bheap sh' = bheap ?add" by (simp_all add: s)
  show ?thesis
    by (rule settled_new [OF room make_ip_room_less [OF ok rng], where nb = ?nb and cfg = ?cfg and now = now])
      (auto simp: bp bh bptr_at_add_ip pend bucket_New_refills c serial_new)
qed

lemma settled_MakeClient:
  assumes ok: "shared_ok sh" and rng: "is_range rng" and key: "key_ok key"
    and r: "lock_client rng sh key now = (sh', p)" and c: "claims sh c = {}"
  shows "settled sh sh' c c' i"
proof (cases "gm_lookup (ctable sh) key")
  case (Some q)
  with r have "sh' = sh" by (simp add: lock_client_def)
  with c show ?thesis by (auto intro: settled_less)
next
  case None
  let ?sh1 = "make_room rng sh"
  let ?cfg = "default_config (store_of ?sh1) DefaultTier" and ?j = "encodeID key DefaultTier"
  let ?nb = "BPtr (TierSlot (cfresh ?sh1) DefaultTier) (bfresh ?sh1)" and ?add = "add_client ?sh1 key ?cfg now"
  note room = make_room_ok(1) [OF ok rng] make_room_ok(4) [OF ok rng None]
  have s: "sh' = (if RefillInterval ?cfg > 0 then sched_set ?add ?j (NextRefillTime (bucket_New ?cfg now)) else ?add)"
    using r by (simp add: lock_client_new [OF None] Let_def)
  have pend: "pending (sched sh') j = (if RefillInterval ?cfg > 0 \<and> j = ?j then Some (NextRefillTime (bucket_New ?cfg now))
      else pending (sched ?sh1) j)" for j
    using Schedule_correct(2) [OF shared_facts(5) [OF room(1)]] by (simp add: s)
  have bp: "bptr_at sh' = bptr_at ?add" and bh: "bheap sh' = bheap ?add" by (simp_all add: s)
  show ?thesis
    by (rule settled_new [OF room(1) make_room_less [OF ok rng], where nb = ?nb and cfg = ?cfg and now = now])
      (auto simp: bp bh bptr_at_add_client [OF room(1) key room(2)] pend bucket_New_refills c serial_new)
qed

lemma settled_Configure:
  assumes ok: "shared_ok sh" and p: "p < cfresh sh" and c: "claims sh c = {}"
    and new: "RefillInterval cfg > 0 \<Longrightarrow> encodeID (objKey (cheap sh p)) (tier_name tier) \<in> claims (obj_Configure sh p tier cfg now) c'"
  shows "settled sh (obj_Configure sh p tier cfg now) c c' i"
proof (rule settled_new [OF ok less_wanted_refl, where nb = "BPtr (TierSlot p (tier_name tier)) (bfresh sh)" and cfg = cfg and now = now])
  let ?sh = "obj_Configure sh p tier cfg now"
  show "bptr_at ?sh i = bptr_at sh i \<or> (refills (bucket_New cfg now) \<longrightarrow> pending (sched ?sh) i \<noteq> None \<or> i \<in> claims ?sh c')
      \<and> bptr_at ?sh i = Some (BPtr (TierSlot p (tier_name tier)) (bfresh sh))
      \<and> bheap ?sh (BPtr (TierSlot p (tier_name tier)) (bfresh sh)) = bucket_New cfg now"
    using bptr_at_Configure [OF ok p, of tier cfg now i] new by (auto simp: bucket_New_refills)
qed (simp_all add: c serial_new)

lemma settled_StoreGlobal:
  assumes ok: "shared_ok sh" and c: "claims sh c = {}"
    and new: "RefillInterval cfg > 0 \<Longrightarrow> globalBucketID \<in> claims ((alloc_bucket sh GlobalSlot cfg now)\<lparr>gptr := Some (BPtr GlobalSlot (bfresh sh))\<rparr>) c'"
  shows "settled sh ((alloc_bucket sh GlobalSlot cfg now)\<lparr>gptr := Some (BPtr GlobalSlot (bfresh sh))\<rparr>) c c' i"
    (is "settled sh ?sh c c' i")
proof (rule settled_new [OF ok less_wanted_refl, where nb = "BPtr GlobalSlot (bfresh sh)" and cfg = cfg and now = now])
  have "bptr_at ?sh i = (if i = globalBucketID then Some (BPtr GlobalSlot (bfresh sh)) else bptr_at sh i)" by (simp add: bptr_at_def)
  then show "bptr_at ?sh i = bptr_at sh i \<or> (refills (bucket_New cfg now) \<longrightarrow> pending (sched ?sh) i \<noteq> None \<or> i \<in> claims ?sh c')
      \<and> bptr_at ?sh i = Some (BPtr GlobalSlot (bfresh sh)) \<and> bheap ?sh (BPtr GlobalSlot (bfresh sh)) = bucket_New cfg now"
    using new by (auto simp: bucket_New_refills)
qed (simp_all add: c serial_new)


lemma claims_outcome [simp]: "claims sh (rejected w reason) = {}" "claims sh (accepted n) = {}"
  by (simp_all add: rejected_def accepted_def)

lemma settled_bucket:
  assumes "\<And>b. configPtr (bheap sh' b) = configPtr (bheap sh b)" "same_objects sh sh'"
    "gptr sh' = gptr sh" "iptable sh' = iptable sh" "ctable sh' = ctable sh" "sched sh' = sched sh"
    "i \<in> claims sh c \<Longrightarrow> i \<in> claims sh' c'"
  shows "settled sh sh' c c' i"
  using assms by (intro settled_same refill_wanted_cong) (simp_all add: same_objects_def)

lemma obj_all_config: "(\<And>x. configPtr (f x) = configPtr x) \<Longrightarrow> configPtr (bheap (obj_all sh p f) b) = configPtr (bheap sh b)"
  by (simp add: obj_all_def)

lemma claims_same_objects: "same_objects sh sh' \<Longrightarrow> claims sh' c = claims sh c"
  by (induction c) (auto simp: same_objects_def obj_Bucket_def)

lemma due_find_claims:
  assumes ok: "shared_ok sh"
  shows "settled sh sh (DueFind now i k) (due_find sh now i k) j"
proof -
  have "\<not> refill_wanted sh i" if "i \<notin> claims sh (due_find sh now i k)"
  proof -
    have "obj_Bucket sh p tier = Some b"
      if "gm_lookup (ctable sh) key = Some p" "gm_lookup (objTiers (cheap sh p)) tier = Some b" for key p tier b
    proof -
      have "tier \<noteq> []" using table_entry(3) [OF ok that(1)] that(2) by (auto simp: obj_ok_def)
      with that(2) show ?thesis by (simp add: obj_Bucket_def tier_name_id)
    qed
    with that show ?thesis
      by (auto simp: due_find_def refill_wanted_def bptr_at_def Option.bind_eq_Some_conv split: if_splits option.splits)
  qed
  moreover have "claims sh k \<subseteq> claims sh (due_find sh now i k)" by (auto simp: due_find_def split: option.split)
  ultimately show ?thesis by (auto simp: settled_def)
qed

lemma thread_step_settled:
  assumes ok: "shared_ok sh" and rng: "is_range rng" and c: "pc_ok sh c" "careful c"
    and st: "thread_step rng sh c = (sh', c')"
  shows "settled sh sh' c c' i"
proof (cases c)
  case (MakeIP r)
  then show ?thesis using st settled_MakeIP [OF ok rng] by (auto split: prod.splits)
next
  case (MakeClient u)
  then show ?thesis using st c purpose_facts [of u] settled_MakeClient [OF ok rng] by (auto split: prod.splits)
next
  case (AddTier r p cfg)
  then have t: "tier_name (Tier r) = Tier r" "p < cfresh sh" using c by (simp_all add: tier_name_id held_def)
  show ?thesis using AddTier st t settled_Configure [OF ok t(2), of "AddTier r p cfg" cfg "Tier r" "Now r" c' i] by auto
next
  case (Reconfigure key tier cfg now p)
  then have t: "tier_name tier = tier" "p < cfresh sh" "objKey (cheap sh p) = key" using c by (simp_all add: tier_name_id held_def)
  show ?thesis using Reconfigure st t settled_Configure [OF ok t(2), of "Reconfigure key tier cfg now p" cfg tier now c' i] by auto
next
  case (StoreGlobal cfg now)
  then show ?thesis using st settled_StoreGlobal [OF ok, of "StoreGlobal cfg now" cfg now c' i] by auto
next
  case ClearIPs
  then show ?thesis using st settled_less [OF clear_ips_less [OF ok]] by auto
next
  case (PopDue now)
  obtain sc es where p: "popDue (sched sh) now = (sc, es)" by (cases "popDue (sched sh) now")
  note P = popDue_correct [OF shared_facts(5) [OF ok] p, unfolded popped_ok_def]
  have w: "refill_wanted (sh\<lparr>sched := sc\<rparr>) = refill_wanted sh" by (rule refill_wanted_cong) simp_all
  have "pending sc i = pending (sched sh) i \<or> i \<in> entryId ` set es"
  proof (cases "pending (sched sh) i")
    case (Some t)
    then have "(\<exists>e\<in>set es. entryId e = i) \<or> \<not> t \<le> now" using P by blast
    with Some P show ?thesis by (auto simp: not_due_def)
  qed (use P in \<open>auto simp: not_due_def\<close>)
  then show ?thesis using PopDue st p by (auto simp: settled_def w careful_pass)
next
  case (Unschedule j k)
  have w: "refill_wanted (sched_drop sh j) = refill_wanted sh" by (rule refill_wanted_cong) simp_all
  have "j \<in> claims (sched_drop sh j) k" using c Unschedule awaits_claims by simp
  moreover have "claims (sched_drop sh j) k = claims sh k" by (rule claims_same_objects) (simp add: same_objects_def)
  ultimately show ?thesis using Unschedule st
    by (auto simp: settled_def w sched_Remove_correct [OF shared_facts(5) [OF ok]] split: if_splits)
next
  case (SchedSet j t k)
  have w: "refill_wanted (sched_set sh j t) = refill_wanted sh" by (rule refill_wanted_cong) simp_all
  have "claims (sched_set sh j t) k = claims sh k" by (rule claims_same_objects) (simp add: same_objects_def)
  then show ?thesis using SchedSet st
    by (auto simp: settled_def w Schedule_correct [OF shared_facts(5) [OF ok]] split: if_splits)
next
  case (CountRefill k)
  let ?sh = "sh\<lparr>sched := (sched sh)\<lparr>refillsTotal := i64 (refillsTotal (sched sh) + 1)\<rparr>\<rparr>"
  have w: "refill_wanted ?sh = refill_wanted sh" by (rule refill_wanted_cong) simp_all
  have "claims ?sh k = claims sh k" by (rule claims_same_objects) (simp add: same_objects_def)
  then show ?thesis using CountRefill st by (auto simp: settled_def w)
next
  case (DueFind now j k)
  then show ?thesis using st due_find_claims [OF ok] by auto
next
  case (DueTier now j p tier k)
  then show ?thesis using st by (auto intro!: settled_bucket simp: same_objects_def split: option.splits)
next
  case (DueRefill now j b k)
  have "claims (on_bucket sh b (\<lambda>x. ScheduledRefill x now)) k = claims sh k" by (rule claims_same_objects) (simp add: same_objects_def)
  then show ?thesis using st DueRefill by (auto intro!: settled_bucket simp: same_objects_def)
next
  case (BlockClient p)
  then show ?thesis using st by (auto intro!: settled_bucket obj_all_config simp: same_objects_def)
next
  case (UnblockClient p)
  then show ?thesis using st by (auto intro!: settled_bucket obj_all_config simp: same_objects_def)
next
  case (SchedFind p tier j k)
  then show ?thesis using st c by (auto intro!: settled_bucket simp: same_objects_def split: option.splits)
next
  case ClearGlobal
  then show ?thesis using c by simp
qed (use st in \<open>auto intro!: settled_bucket simp: same_objects_def case_prod_beta Let_def split: option.splits if_splits\<close>)

definition sys_covered :: "System \<Rightarrow> bool" where
  "sys_covered S \<longleftrightarrow> (\<forall>c\<in>set (threads S). careful c)
     \<and> (\<forall>i. refill_wanted (shared S) i \<longrightarrow> pending (sched (shared S)) i \<noteq> None \<or> (\<exists>c\<in>set (threads S). i \<in> claims (shared S) c))"

lemma run_thread_covered:
  assumes ok: "sys_ok S" and cov: "sys_covered S" and n: "n < length (threads S)" and rng: "is_range rng"
  shows "sys_covered (run_thread rng S n)"
proof -
  let ?S = "run_thread rng S n" and ?c = "threads S ! n"
  have c: "?c \<in> set (threads S)" using n by simp
  have s: "shared_ok (shared S)" "pc_ok (shared S) ?c" "careful ?c" using ok cov c by (auto simp: sys_ok_def sys_covered_def)
  let ?c' = "snd (thread_step rng (shared S) ?c)"
  have set: "settled (shared S) (shared ?S) ?c ?c' i" for i
    by (rule thread_step_settled [OF s(1) rng s(2,3)]) (simp add: run_thread_eq)
  have c': "?c' \<in> set (threads ?S)" using n by (simp add: run_thread_eq set_update_memI)
  have others: "d \<in> set (threads ?S) \<or> d = ?c" if d: "d \<in> set (threads S)" for d
  proof -
    from d obtain m where m: "m < length (threads S)" "threads S ! m = d" by (auto simp: in_set_conv_nth)
    then have "m \<noteq> n \<Longrightarrow> threads ?S ! m = d \<and> m < length (threads ?S)" by (simp add: run_thread_eq)
    with m show ?thesis by (metis nth_mem)
  qed
  have grow: "claims (shared S) d \<subseteq> claims (shared ?S) d" if "d \<in> set (threads S)" for d
    using that ok by (intro claims_grows run_thread_ok(2) [OF ok n rng]) (simp add: sys_ok_def)
  have "pending (sched (shared ?S)) i \<noteq> None \<or> (\<exists>d\<in>set (threads ?S). i \<in> claims (shared ?S) d)" if "refill_wanted (shared ?S) i" for i
  proof (rule ccontr)
    assume no: "\<not> ?thesis"
    with set [of i] that c' have old: "refill_wanted (shared S) i" "pending (sched (shared S)) i = None" "i \<notin> claims (shared S) ?c"
      by (auto simp: settled_def)
    with cov obtain d where d: "d \<in> set (threads S)" "i \<in> claims (shared S) d" by (auto simp: sys_covered_def)
    with old(3) others have "d \<in> set (threads ?S)" by blast
    with d grow no show False by blast
  qed
  moreover have "careful d" if "d \<in> set (threads ?S)" for d
    using that cov thread_step_careful [OF s(3), of rng "shared S"]
    by (auto simp: sys_covered_def run_thread_eq dest!: set_update_subset_insert [THEN subsetD])
  ultimately show ?thesis by (simp add: sys_covered_def)
qed

lemma sys_reach_covered:
  assumes "sys_reach keeps_refilling opts S" "opts_ok opts"
  shows "sys_covered S"
  using assms(1)
proof (induction rule: sys_reach_induct)
  case init
  have "bptr_at (shared (sys_New opts)) i = None" for i
    by (simp add: bptr_at_def sys_New_def shared_New_def Let_def Option.bind_eq_None_conv case_prod_beta)
  then show ?case by (simp add: sys_covered_def refill_wanted_def sys_New_def)
next
  case (call S x)
  then show ?case using start_careful [of x] by (auto simp: sys_covered_def spawn_def)
next
  case (run S n rng)
  then show ?case using run_thread_covered sys_reach_ok [OF _ assms(2)] by blast
qed

text \<open>
  C6. No bucket drops out of the refill schedule.  As long as administrators only set
  configurations that refill and do not switch the global limit off, every bucket of the store
  that refills is in the schedule, or some goroutine is about to put it there, at every point of
  every interleaving; so when all calls have returned, all of them are scheduled.
\<close>

theorem concurrent_schedule_complete:
  assumes "opts_ok opts" "sys_reach keeps_refilling opts S"
    "bucket_at (store_of (shared S)) i = Some b" "0 < RefillInterval (bucket_config b)"
  shows "pending (sched (shared S)) i \<noteq> None \<or> (\<exists>c\<in>set (threads S). i \<in> claims (shared S) c \<and> (\<forall>res. c \<noteq> Done res))"
proof -
  have "refill_wanted (shared S) i"
    using assms(3,4) by (auto simp: refill_wanted_def bucket_at_store_of refills_def bucket_config_def)
  then have "pending (sched (shared S)) i \<noteq> None \<or> (\<exists>c\<in>set (threads S). i \<in> claims (shared S) c)"
    using sys_reach_covered [OF assms(2,1)] by (simp add: sys_covered_def)
  then show ?thesis by (metis claims.simps empty_iff)
qed


text \<open>A request for a new tier, stopped after the tier was configured and before it is scheduled.\<close>

definition tier_opts :: Options where
  "tier_opts = \<lparr>optMaxClients = 10, optTierDefaults = [(DefaultTier, example_cfg),
     (''gold'', example_cfg\<lparr>MaxTokens := 1\<rparr>)]\<rparr>"

definition gold_request :: "gotime \<Rightarrow> store_op" where
  "gold_request now = SAllow 0 \<lparr>ClientKey = ''alice'', SourceIP = [], Tier = ''gold'', Now = now\<rparr>"

lemma tier_opts_ok: "opts_ok tier_opts"
  by (auto simp: opts_ok_def tier_opts_def gm_lookup_def cfg_safe_def example_cfg_def max_i64_def is_i64_def)

lemma gold_request_ok: "op_ok (gold_request 10)"
  by (simp add: gold_request_def key_ok_def valid_time_def req_time_def IsZero_def zeroTime_def)

definition half_done :: System where
  "half_done = run_schedule (spawn_all (sys_New tier_opts) [gold_request 10]) (replicate 7 0)"

theorem concurrent_schedule_complete_witness:
  "pending (sched (shared half_done)) ''alice|gold'' = None
   \<and> (\<exists>c\<in>set (threads half_done). ''alice|gold'' \<in> claims (shared half_done) c)"
proof -
  have "sys_reach keeps_refilling tier_opts half_done"
    unfolding half_done_def by (rule schedule_reach) (simp_all add: gold_request_ok list_all_iff, simp add: gold_request_def)
  moreover have b: "map_option (\<lambda>b. RefillInterval (bucket_config b)) (bucket_at (store_of (shared half_done)) ''alice|gold'') = Some 100"
    and p: "pending (sched (shared half_done)) ''alice|gold'' = None" by code_simp+
  from b obtain bk where "bucket_at (store_of (shared half_done)) ''alice|gold'' = Some bk" "0 < RefillInterval (bucket_config bk)" by auto
  ultimately show ?thesis using concurrent_schedule_complete [OF tier_opts_ok] p by blast
qed

section \<open>Races\<close>

text \<open>Whether the requests of a system have all been answered, and how many were allowed.\<close>

fun allowed_thread :: "pc \<Rightarrow> bool" where
  "allowed_thread (Done (Some res)) = Allowed res"
| "allowed_thread _ = False"

definition tier_race :: System where
  "tier_race = run_schedule (spawn_all (sys_New tier_opts) [gold_request 10, gold_request 10])
     (replicate 6 0 @ replicate 5 1 @ replicate 8 0 @ replicate 9 1)"

lemma tier_race_answers: "map allowed_thread (threads tier_race) = [True, True]"
  by code_simp

lemma tier_race_charges: "map (\<lambda>(p, b). bslot b) (granted tier_race) = [TierSlot 0 ''gold'', TierSlot 0 ''gold'']"
  by code_simp

text \<open>
  The first requests of a tier can be let through twice.  \<^verbatim>\<open>ensureTier\<close> looks for the
  tier's bucket and configures it in separate steps, and a second configuration replaces the
  first.  Two requests that both find the tier missing are both allowed, at the same instant, by
  a tier with a single token: the bucket that the first was charged to is gone.
\<close>

theorem tier_creation_race:
  "\<exists>S. sys_reach (\<lambda>_. True) tier_opts S \<and> map allowed_thread (threads S) = [True, True]
     \<and> map_option MaxTokens (gm_lookup (ctiers (shared S)) ''gold'') = Some 1
     \<and> map (\<lambda>(p, b). bslot b) (granted S) = [TierSlot 0 ''gold'', TierSlot 0 ''gold'']"
proof -
  have r: "sys_reach (\<lambda>_. True) tier_opts tier_race"
    unfolding tier_race_def by (rule schedule_reach) (simp_all add: gold_request_ok list_all_iff)
  have "ctiers (shared tier_race) = tierDefaults (store_New tier_opts)" using sys_reach_limits [OF r] by simp
  moreover have "map_option MaxTokens (gm_lookup (tierDefaults (store_New tier_opts)) ''gold'') = Some 1" by code_simp
  ultimately have "map_option MaxTokens (gm_lookup (ctiers (shared tier_race)) ''gold'') = Some 1" by (simp only:)
  then show ?thesis by (intro exI [of _ tier_race] conjI r tier_race_answers tier_race_charges)
qed

text \<open>
  Two updates of the same tier at once, one of them to a configuration without refills: the
  first is configured last but one and unscheduled last, so the bucket that stays refills and is
  not in the schedule.
\<close>

definition update_gold :: "duration \<Rightarrow> gotime \<Rightarrow> store_op" where
  "update_gold interval now = SUpdate ''alice'' ''gold'' (example_cfg\<lparr>RefillInterval := interval\<rparr>) now"

definition update_race :: System where
  "update_race = run_schedule (spawn_all (sys_New tier_opts) [update_gold 0 10, update_gold 100 20])
     ([0, 0, 0] @ replicate 7 1 @ [0])"

lemma update_race_answers: "threads update_race = [Done None, Done None]"
  by code_simp

lemma update_race_pending: "pending (sched (shared update_race)) ''alice|gold'' = None"
  by code_simp

lemma update_race_interval:
  "map_option (\<lambda>b. RefillInterval (bucket_config b)) (bucket_at (store_of (shared update_race)) ''alice|gold'') = Some 100"
  by code_simp

theorem update_race_unschedules:
  "\<exists>S b. sys_reach (\<lambda>_. True) tier_opts S \<and> threads S = [Done None, Done None]
     \<and> bucket_at (store_of (shared S)) ''alice|gold'' = Some b \<and> RefillInterval (bucket_config b) = 100
     \<and> pending (sched (shared S)) ''alice|gold'' = None"
proof -
  have "sys_reach (\<lambda>_. True) tier_opts update_race"
    unfolding update_race_def by (rule schedule_reach) (simp_all add: list_all_iff update_gold_def key_ok_def valid_time_def
        cfg_safe_def example_cfg_def max_i64_def is_i64_def)
  with update_race_answers update_race_pending update_race_interval show ?thesis unfolding map_option_eq_Some by blast
qed

text \<open>
  A block that is lost: the client is evicted between the lookup and \<^verbatim>\<open>BlockAll\<close>, which then
  blocks an object nobody can reach; the client's next request makes a new one.
\<close>

definition block_race :: System where
  "block_race = run_schedule (spawn_all (sys_New example_opts)
     [SBlock ''alice'' 10, SBlock ''bob'' 20, SAllow 0 (request ''alice'' 30)]) ([0, 0, 1, 1, 0] @ replicate 12 2)"

lemma block_race_answers: "map allowed_thread (threads block_race) = [False, False, True]"
  by code_simp

lemma block_race_unblocked:
  "map_option mb_IsBlocked (gm_lookup (clients (store_of (shared block_race))) ''alice'') = Some False"
  by code_simp

theorem block_race_lost:
  "\<exists>S. sys_reach (\<lambda>_. True) example_opts S \<and> map allowed_thread (threads S) = [False, False, True]
     \<and> map_option mb_IsBlocked (gm_lookup (clients (store_of (shared S))) ''alice'') = Some False"
proof -
  have r: "sys_reach (\<lambda>_. True) example_opts block_race"
    unfolding block_race_def by (rule schedule_reach) (simp_all add: list_all_iff key_ok_def valid_time_def request_def
        req_time_def IsZero_def zeroTime_def)
  show ?thesis by (intro exI [of _ block_race] conjI r block_race_answers block_race_unblocked)
qed

end
