(* ===== verification/StoreThreadsSolo.thy ===== *)
theory StoreThreadsSolo
  imports StoreThreadsSafe
begin

text \<open>
  The steps of one call, run without interruption, are the operation of theory \<open>Store\<close>: the
  model with pointers and locks refines the atomic one.
\<close>

section \<open>Maps behind pointers\<close>

lemma gm_map_update:
  assumes "gm_ok m" "gm_lookup m k = Some v" "g v = y" "\<And>k' v'. k' \<noteq> k \<Longrightarrow> gm_lookup m k' = Some v' \<Longrightarrow> g v' = f v'"
  shows "gm_map g m = gm_set k y (gm_map f m)"
  using assms
proof (induction m)
  case (Cons kv m)
  obtain k0 v0 where kv: "kv = (k0, v0)" by (cases kv)
  have ok: "gm_ok m" and k0: "k0 \<notin> set (gm_keys m)" using Cons.prems(1) by (auto simp: kv gm_ok_def gm_keys_def)
  show ?case
  proof (cases "k0 = k")
    case True
    have "g v' = f v'" if "(k', v') \<in> set m" for k' v'
    proof -
      have l: "gm_lookup m k' = Some v'" using ok that by (simp add: gm_ok_def gm_lookup_def)
      have "k' \<noteq> k" using that k0 True by (force simp: gm_keys_def)
      with l Cons.prems(4) [of k' v'] True show ?thesis by (simp add: kv gm_lookup_def)
    qed
    then have "gm_map g m = gm_map f m" by (auto simp: gm_map_def)
    with True Cons.prems(2,3) show ?thesis by (simp add: kv gm_map_def gm_set_def gm_lookup_def)
  next
    case False
    have "gm_map g m = gm_set k y (gm_map f m)"
    proof (rule Cons.IH [OF ok])
      show "gm_lookup m k = Some v" using Cons.prems(2) False by (simp add: kv gm_lookup_def)
      fix k' v' assume k': "k' \<noteq> k" "gm_lookup m k' = Some v'"
      have "k' \<noteq> k0" using k'(2) k0 gm_keys_lookup [of k' m] by auto
      with k' Cons.prems(4) [of k' v'] show "g v' = f v'" by (simp add: kv gm_lookup_def)
    qed (rule Cons.prems(3))
    moreover have "g v0 = f v0" using Cons.prems(4) [of k0 v0] False by (simp add: kv gm_lookup_def)
    ultimately show ?thesis using False by (simp add: kv gm_map_def gm_set_def)
  qed
qed simp

lemma gm_map_cong:
  assumes "gm_ok m" "\<And>k v. gm_lookup m k = Some v \<Longrightarrow> g v = f v"
  shows "gm_map g m = gm_map f m"
  using assms by (auto simp: gm_map_def gm_lookup_def gm_ok_def)

lemma gm_map_set: "gm_map f (gm_set k v m) = gm_set k (f v) (gm_map f m)"
  by (induction m) (auto simp: gm_map_def gm_set_def)

lemma gm_map_delete: "gm_map f (gm_delete k m) = gm_delete k (gm_map f m)"
  by (induction m) (auto simp: gm_map_def gm_delete_def AList.delete_eq)

section \<open>The store behind the pointers\<close>

lemma store_of_fields [simp]:
  "clients (store_of sh) = gm_map (client_view sh) (ctable sh)" "maxClients (store_of sh) = climit sh"
  "tierDefaults (store_of sh) = ctiers sh" "scheduler (store_of sh) = Some (sched sh)"
  "globalBucket (store_of sh) = map_option (bheap sh) (gptr sh)" "evictions (store_of sh) = cevictions sh"
  "ipBuckets (store_of sh) = gm_map (bheap sh) (iptable sh)" "ipBucketCap (store_of sh) = iplimit sh"
  "ipLimitEnabled (store_of sh) = ipon sh" "ipConfigPtr (store_of sh) = ipcfg sh"
  by (simp_all add: store_of_def)

lemma client_view_cong:
  assumes "cheap sh' p = cheap sh p" "\<And>t b. gm_lookup (objTiers (cheap sh p)) t = Some b \<Longrightarrow> bheap sh' b = bheap sh b"
    "gm_ok (objTiers (cheap sh p))"
  shows "client_view sh' p = client_view sh p"
  using gm_map_cong [OF assms(3), of "bheap sh'" "bheap sh"] assms by (simp add: client_view_def)

lemma store_of_sched [simp]:
  "store_of (sched_set sh i t) = schedule_id (store_of sh) i t" "store_of (sched_drop sh i) = unschedule_id (store_of sh) i"
proof -
  have "client_view (sched_set sh i t) = client_view sh" "client_view (sched_drop sh i) = client_view sh"
    by (simp_all add: client_view_def fun_eq_iff)
  then show "store_of (sched_set sh i t) = schedule_id (store_of sh) i t" "store_of (sched_drop sh i) = unschedule_id (store_of sh) i"
    by (simp_all add: store_of_def schedule_id_def unschedule_id_def)
qed

text \<open>A bucket that is no tier of a client in the table does not show in the clients.\<close>

lemma views_cong:
  assumes ok: "shared_ok sh" and c: "cheap sh' = cheap sh" "ctable sh' = ctable sh"
    and h: "\<And>b p t. bslot b = TierSlot p t \<Longrightarrow> serial b < bfresh sh \<Longrightarrow> bheap sh' b = bheap sh b"
  shows "gm_map (client_view sh') (ctable sh') = gm_map (client_view sh) (ctable sh)"
  unfolding c(2)
proof (rule gm_map_cong)
  show "gm_ok (ctable sh)" using shared_facts(2) [OF ok] by (simp add: ctable_ok_def)
  fix k p assume "gm_lookup (ctable sh) k = Some p"
  from table_entry(3) [OF ok this] have o: "obj_ok sh p" .
  show "client_view sh' p = client_view sh p"
    by (rule client_view_cong) (use o h c(1) in \<open>auto simp: obj_ok_def blive_def\<close>)
qed

lemma ips_cong:
  assumes ok: "shared_ok sh" and c: "iptable sh' = iptable sh"
    and h: "\<And>b ip. bslot b = IPSlot ip \<Longrightarrow> serial b < bfresh sh \<Longrightarrow> bheap sh' b = bheap sh b"
  shows "gm_map (bheap sh') (iptable sh') = gm_map (bheap sh) (iptable sh)"
  unfolding c using shared_facts(3) [OF ok] h by (intro gm_map_cong) (auto simp: ips_table_ok_def blive_def)

lemma global_cong:
  assumes ok: "shared_ok sh" and c: "gptr sh' = gptr sh"
    and h: "\<And>b. bslot b = GlobalSlot \<Longrightarrow> serial b < bfresh sh \<Longrightarrow> bheap sh' b = bheap sh b"
  shows "map_option (bheap sh') (gptr sh') = map_option (bheap sh) (gptr sh)"
  unfolding c using shared_facts(4) [OF ok] h by (cases "gptr sh") (auto simp: settings_ok_def blive_def)

lemma store_of_global:
  assumes ok: "shared_ok sh" and b: "gptr sh = Some b"
  shows "store_of (on_bucket sh b f) = (store_of sh)\<lparr>globalBucket := Some (f (bheap sh b))\<rparr>"
proof -
  have s: "bslot b = GlobalSlot" using shared_facts(4) [OF ok] b by (simp add: settings_ok_def blive_def)
  have "gm_map (client_view (on_bucket sh b f)) (ctable (on_bucket sh b f)) = gm_map (client_view sh) (ctable sh)"
    by (rule views_cong [OF ok]) (use s in auto)
  moreover have "gm_map (bheap (on_bucket sh b f)) (iptable (on_bucket sh b f)) = gm_map (bheap sh) (iptable sh)"
    by (rule ips_cong [OF ok]) (use s in auto)
  ultimately show ?thesis using b by (simp add: store_of_def)
qed

lemma store_of_ip:
  assumes ok: "shared_ok sh" and b: "gm_lookup (iptable sh) ip = Some b"
  shows "store_of (on_bucket sh b f) =
    (store_of sh)\<lparr>ipBuckets := gm_set ip (f (bheap sh b)) (ipBuckets (store_of sh))\<rparr>"
proof -
  note ips = shared_facts(3) [OF ok, unfolded ips_table_ok_def]
  have s: "bslot b = IPSlot ip" using ips b by (simp add: blive_def)
  have "gm_map (client_view (on_bucket sh b f)) (ctable (on_bucket sh b f)) = gm_map (client_view sh) (ctable sh)"
    by (rule views_cong [OF ok]) (use s in auto)
  moreover have "gm_map (bheap (on_bucket sh b f)) (iptable sh) = gm_set ip (f (bheap sh b)) (gm_map (bheap sh) (iptable sh))"
  proof (rule gm_map_update [where v = b])
    fix ip' b' assume "ip' \<noteq> ip" "gm_lookup (iptable sh) ip' = Some b'"
    then have "b' \<noteq> b" using ips s by (auto simp: blive_def)
    then show "bheap (on_bucket sh b f) b' = bheap sh b'" by simp
  qed (use ips b in simp_all)
  moreover have "map_option (bheap (on_bucket sh b f)) (gptr (on_bucket sh b f)) = map_option (bheap sh) (gptr sh)"
    by (rule global_cong [OF ok]) (use s in auto)
  ultimately show ?thesis by (simp add: store_of_def)
qed

text \<open>A step inside one client object.\<close>

lemma store_of_client:
  assumes ok: "shared_ok sh" and p: "gm_lookup (ctable sh) k = Some p"
    and s: "ctable sh' = ctable sh" "climit sh' = climit sh" "ctiers sh' = ctiers sh" "sched sh' = sched sh" "cevictions sh' = cevictions sh"
      "gptr sh' = gptr sh" "iptable sh' = iptable sh" "iplimit sh' = iplimit sh" "ipon sh' = ipon sh" "ipcfg sh' = ipcfg sh"
    and c: "\<And>q. q \<noteq> p \<Longrightarrow> cheap sh' q = cheap sh q"
    and h: "\<And>b. serial b < bfresh sh \<Longrightarrow> (\<forall>t. bslot b \<noteq> TierSlot p t) \<Longrightarrow> bheap sh' b = bheap sh b"
  shows "store_of sh' = put_client (store_of sh) k (client_view sh' p)"
proof -
  have "gm_map (client_view sh') (ctable sh) = gm_set k (client_view sh' p) (gm_map (client_view sh) (ctable sh))"
  proof (rule gm_map_update [OF _ p refl])
    show "gm_ok (ctable sh)" using shared_facts(2) [OF ok] by (simp add: ctable_ok_def)
    fix k' q assume k': "k' \<noteq> k" "gm_lookup (ctable sh) k' = Some q"
    note q = table_entry [OF ok k'(2)]
    have "q \<noteq> p" using q(2) table_entry(2) [OF ok p] k'(1) by auto
    then show "client_view sh' q = client_view sh q"
      by (intro client_view_cong) (use q(3) c h in \<open>auto simp: obj_ok_def blive_def\<close>)
  qed
  moreover have "gm_map (bheap sh') (iptable sh') = gm_map (bheap sh) (iptable sh)"
    by (rule ips_cong [OF ok s(7)]) (use h in auto)
  moreover have "map_option (bheap sh') (gptr sh') = map_option (bheap sh) (gptr sh)"
    by (rule global_cong [OF ok s(6)]) (use h in auto)
  ultimately show ?thesis by (simp add: store_of_def put_client_def s)
qed

lemma view_lookup: "gm_lookup (buckets (client_view sh p)) t = map_option (bheap sh) (gm_lookup (objTiers (cheap sh p)) t)"
  by (simp add: client_view_def gm_lookup_map)

lemma view_Bucket: "mb_Bucket (client_view sh p) t = map_option (bheap sh) (obj_Bucket sh p t)"
  by (simp add: mb_Bucket_def obj_Bucket_def view_lookup)

lemma store_of_tier:
  assumes ok: "shared_ok sh" and p: "gm_lookup (ctable sh) k = Some p" and b: "gm_lookup (objTiers (cheap sh p)) t = Some b"
  shows "client_view (on_bucket sh b f) p = (client_view sh p)\<lparr>buckets := gm_set t (f (bheap sh b)) (buckets (client_view sh p))\<rparr>"
    "store_of (on_bucket sh b f) = put_client (store_of sh) k (client_view (on_bucket sh b f) p)"
proof -
  note o = table_entry(3) [OF ok p, unfolded obj_ok_def]
  have s: "bslot b = TierSlot p t" using o b by (simp add: blive_def)
  have "gm_map (bheap (on_bucket sh b f)) (objTiers (cheap sh p)) = gm_set t (f (bheap sh b)) (gm_map (bheap sh) (objTiers (cheap sh p)))"
  proof (rule gm_map_update [where v = b])
    fix t' b' assume "t' \<noteq> t" "gm_lookup (objTiers (cheap sh p)) t' = Some b'"
    then have "b' \<noteq> b" using o s by (auto simp: blive_def)
    then show "bheap (on_bucket sh b f) b' = bheap sh b'" by simp
  qed (use o b in simp_all)
  then show "client_view (on_bucket sh b f) p = (client_view sh p)\<lparr>buckets := gm_set t (f (bheap sh b)) (buckets (client_view sh p))\<rparr>"
    by (simp add: client_view_def)
  show "store_of (on_bucket sh b f) = put_client (store_of sh) k (client_view (on_bucket sh b f) p)"
    by (rule store_of_client [OF ok p]) (use s in auto)
qed

lemma store_of_all:
  assumes ok: "shared_ok sh" and p: "gm_lookup (ctable sh) k = Some p"
  shows "store_of (obj_all sh p f) = put_client (store_of sh) k ((client_view sh p)\<lparr>buckets := gm_map f (buckets (client_view sh p))\<rparr>)"
proof -
  note o = table_entry(3) [OF ok p, unfolded obj_ok_def]
  have "gm_map (bheap (obj_all sh p f)) (objTiers (cheap sh p)) = gm_map f (gm_map (bheap sh) (objTiers (cheap sh p)))"
    by (force simp: gm_map_def obj_all_def)
  then have v: "client_view (obj_all sh p f) p = (client_view sh p)\<lparr>buckets := gm_map f (buckets (client_view sh p))\<rparr>"
    by (simp add: client_view_def)
  have "\<exists>t. bslot b = TierSlot p t" if "b \<in> snd ` set (objTiers (cheap sh p))" for b
  proof -
    from that obtain t where "(t, b) \<in> set (objTiers (cheap sh p))" by auto
    then have "gm_lookup (objTiers (cheap sh p)) t = Some b" using o by (simp add: gm_ok_def gm_lookup_def)
    with o show ?thesis by (auto simp: blive_def)
  qed
  then have "store_of (obj_all sh p f) = put_client (store_of sh) k (client_view (obj_all sh p f) p)"
    by (intro store_of_client [OF ok p]) (auto simp: obj_all_def)
  with v show ?thesis by simp
qed

lemma store_of_Configure:
  assumes ok: "shared_ok sh" and p: "gm_lookup (ctable sh) k = Some p"
  shows "client_view (obj_Configure sh p t cfg now) p = Configure (client_view sh p) t cfg now"
    "store_of (obj_Configure sh p t cfg now) = put_client (store_of sh) k (Configure (client_view sh p) t cfg now)"
proof -
  note o = table_entry(3) [OF ok p, unfolded obj_ok_def]
  have "gm_map (bheap (obj_Configure sh p t cfg now)) (objTiers (cheap sh p)) = gm_map (bheap sh) (objTiers (cheap sh p))"
  proof (rule gm_map_cong)
    fix u b assume "gm_lookup (objTiers (cheap sh p)) u = Some b"
    then have "serial b < bfresh sh" using o by (simp add: blive_def)
    then show "bheap (obj_Configure sh p t cfg now) b = bheap sh b" by auto
  qed (use o in simp)
  then show v: "client_view (obj_Configure sh p t cfg now) p = Configure (client_view sh p) t cfg now"
    by (simp add: client_view_def Configure_def gm_map_set)
  have "store_of (obj_Configure sh p t cfg now) = put_client (store_of sh) k (client_view (obj_Configure sh p t cfg now) p)"
    by (rule store_of_client [OF ok p]) (auto simp: obj_Configure_def Let_def)
  with v show "store_of (obj_Configure sh p t cfg now) = put_client (store_of sh) k (Configure (client_view sh p) t cfg now)" by simp
qed


section \<open>Sections under a lock\<close>

lemma client_access_of: "client_access (store_of sh) = table_access sh"
  by (simp add: client_access_def table_access_def gm_lookup_map fun_eq_iff split: option.split)

lemma ip_access_of: "ip_access (store_of sh) = ip_table_access sh"
  by (simp add: ip_access_def ip_table_access_def gm_lookup_map fun_eq_iff split: option.split)

lemma view_tables [simp]:
  "client_view (sh\<lparr>ctable := m, cevictions := n\<rparr>) = client_view sh" "client_view (sh\<lparr>iptable := ips\<rparr>) = client_view sh"
  "client_view (sh\<lparr>ctable := m\<rparr>) = client_view sh"
  by (simp_all add: client_view_def fun_eq_iff)

lemma store_of_drops: "store_of (fold (\<lambda>x sh. sched_drop sh (f x)) xs sh) = fold (\<lambda>x s. unschedule_id s (f x)) xs (store_of sh)"
  by (induction xs arbitrary: sh) simp_all

lemma view_tiers [simp]: "gm_keys (buckets (client_view sh p)) = gm_keys (objTiers (cheap sh p))"
  by (simp add: client_view_def)

lemma gm_len_map [simp]: "gm_len (gm_map f m) = gm_len m"
  by (simp add: gm_len_def gm_map_def)

lemma store_of_evict: "store_of (lock_evict rng sh) = evictLRULocked rng (store_of sh)"
proof -
  let ?k = "oldest (table_access sh) (rng (gm_keys (ctable sh)))"
  have "store_of (sh\<lparr>ctable := gm_delete ?k (ctable sh), cevictions := i64 (cevictions sh + 1)\<rparr>) =
      (store_of sh)\<lparr>clients := gm_delete ?k (clients (store_of sh)), evictions := i64 (evictions (store_of sh) + 1)\<rparr>"
    by (simp add: store_of_def gm_map_delete)
  then show ?thesis
    unfolding lock_evict_def evictLRULocked_def Let_def client_access_of
    by (simp add: gm_lookup_map store_of_drops Tiers_def split: option.split)
qed

lemma store_of_room: "store_of (make_room rng sh) = room_for rng (store_of sh)"
  by (simp add: make_room_def room_for_def store_of_evict)

lemma store_of_add_client:
  assumes ok: "shared_ok sh"
  shows "store_of (add_client sh key cfg now) = put_client (store_of sh) key (Configure (mb_New key) DefaultTier cfg now)"
    "client_view (add_client sh key cfg now) (cfresh sh) = Configure (mb_New key) DefaultTier cfg now"
proof -
  let ?sh = "add_client sh key cfg now"
  show v: "client_view ?sh (cfresh sh) = Configure (mb_New key) DefaultTier cfg now"
    by (simp add: client_view_def Configure_def mb_New_def gm_map_def gm_set_def)
  have "gm_map (client_view ?sh) (ctable sh) = gm_map (client_view sh) (ctable sh)"
  proof (rule gm_map_cong)
    show "gm_ok (ctable sh)" using shared_facts(2) [OF ok] by (simp add: ctable_ok_def)
    fix k p assume k: "gm_lookup (ctable sh) k = Some p"
    note p = table_entry [OF ok k]
    have "objTiers (cheap ?sh p) = objTiers (cheap sh p)" "objKey (cheap ?sh p) = objKey (cheap sh p)" using p(1) by simp_all
    then have c: "cheap ?sh p = cheap sh p" by simp
    show "client_view ?sh p = client_view sh p"
    proof (rule client_view_cong [OF c])
      fix t b assume "gm_lookup (objTiers (cheap sh p)) t = Some b"
      then have "serial b < bfresh sh" using p(3) by (simp add: obj_ok_def blive_def)
      then show "bheap ?sh b = bheap sh b" by auto
    qed (use p(3) in \<open>simp add: obj_ok_def\<close>)
  qed
  then have "gm_map (client_view ?sh) (ctable ?sh) = gm_set key (Configure (mb_New key) DefaultTier cfg now) (gm_map (client_view sh) (ctable sh))"
    by (simp add: gm_map_set v)
  moreover have "gm_map (bheap ?sh) (iptable ?sh) = gm_map (bheap sh) (iptable sh)"
    by (rule ips_cong [OF ok]) auto
  moreover have "map_option (bheap ?sh) (gptr ?sh) = map_option (bheap sh) (gptr sh)"
    by (rule global_cong [OF ok]) auto
  ultimately show "store_of ?sh = put_client (store_of sh) key (Configure (mb_New key) DefaultTier cfg now)"
    by (simp add: store_of_def put_client_def)
qed

lemma lock_client_refines:
  assumes ok: "shared_ok sh" and rng: "is_range rng" and r: "lock_client rng sh key now = (sh', p)"
  shows "\<exists>new. getOrCreateClient rng (store_of sh) key now = (store_of sh', client_view sh' p, new)"
    "gm_lookup (ctable sh') key = Some p"
proof -
  have "(\<exists>new. getOrCreateClient rng (store_of sh) key now = (store_of sh', client_view sh' p, new)) \<and> gm_lookup (ctable sh') key = Some p"
  proof (cases "gm_lookup (ctable sh) key")
    case (Some q)
    with r show ?thesis by (auto simp: lock_client_def getOrCreateClient_def gm_lookup_map)
  next
    case None
    then have N: "gm_lookup (clients (store_of sh)) key = None" by (simp add: gm_lookup_map)
    let ?sh1 = "make_room rng sh"
    note a = store_of_add_client [OF make_room_ok(1) [OF ok rng]]
    have vs: "client_view (sched_set x i t) = client_view x" for x i t by (simp add: client_view_def fun_eq_iff)
    show ?thesis using r
      by (auto simp: lock_client_new [OF None] getOrCreateClient_new [OF N] Let_def a store_of_room [symmetric] vs
          schedule_bucket_def gm_lookup_set split: if_splits)
  qed
  then show "\<exists>new. getOrCreateClient rng (store_of sh) key now = (store_of sh', client_view sh' p, new)"
    "gm_lookup (ctable sh') key = Some p" by blast+
qed

lemma store_of_evict_ip: "store_of (lock_evict_ip rng sh) = evictOldestIPLocked rng (store_of sh)"
  unfolding lock_evict_ip_def evictOldestIPLocked_def Let_def ip_access_of
  by (simp add: gm_map_delete) (simp add: store_of_def gm_map_delete)

lemma store_of_add_ip:
  assumes ok: "shared_ok sh"
  shows "store_of (add_ip sh ip cfg now) = (store_of sh)\<lparr>ipBuckets := gm_set ip (bucket_New cfg now) (ipBuckets (store_of sh))\<rparr>"
proof -
  let ?sh = "add_ip sh ip cfg now"
  have "gm_map (client_view ?sh) (ctable ?sh) = gm_map (client_view sh) (ctable sh)" by (rule views_cong [OF ok]) auto
  moreover have "map_option (bheap ?sh) (gptr ?sh) = map_option (bheap sh) (gptr sh)" by (rule global_cong [OF ok]) auto
  moreover have "gm_map (bheap ?sh) (iptable sh) = gm_map (bheap sh) (iptable sh)"
  proof (rule gm_map_cong)
    show "gm_ok (iptable sh)" using shared_facts(3) [OF ok] by (simp add: ips_table_ok_def)
    fix k b assume "gm_lookup (iptable sh) k = Some b"
    then have "serial b < bfresh sh" using shared_facts(3) [OF ok] by (auto simp: ips_table_ok_def blive_def)
    then show "bheap ?sh b = bheap sh b" by auto
  qed
  ultimately show ?thesis by (simp add: store_of_def gm_map_set)
qed

lemma lock_ip_refines:
  assumes ok: "shared_ok sh" and rng: "is_range rng" and r: "lock_ip rng sh ip now = (sh', b)"
  shows "getOrCreateIPBucket rng (store_of sh) ip now = (store_of sh', bheap sh' b)" "gm_lookup (iptable sh') ip = Some b"
proof -
  have "getOrCreateIPBucket rng (store_of sh) ip now = (store_of sh', bheap sh' b) \<and> gm_lookup (iptable sh') ip = Some b"
  proof (cases "gm_lookup (iptable sh) ip")
    case (Some q)
    with r show ?thesis by (auto simp: lock_ip_def getOrCreateIPBucket_def gm_lookup_map)
  next
    case None
    have room: "store_of (make_ip_room rng sh) =
        (if gm_len (ipBuckets (store_of sh)) \<ge> ipBucketCap (store_of sh) then evictOldestIPLocked rng (store_of sh) else store_of sh)"
      by (simp add: make_ip_room_def store_of_evict_ip)
    note a = store_of_add_ip [OF make_ip_room_ok(1) [OF ok rng]]
    have "getOrCreateIPBucket rng (store_of sh) ip now =
        (schedule_bucket ((store_of (make_ip_room rng sh))\<lparr>ipBuckets := gm_set ip (bucket_New (ip_config sh) now)
           (ipBuckets (store_of (make_ip_room rng sh)))\<rparr>) (ipIDPrefix @ ip) (ip_config sh) (Some (bucket_New (ip_config sh) now)),
         bucket_New (ip_config sh) now)"
      using None unfolding getOrCreateIPBucket_def room Let_def by (simp add: gm_lookup_map ip_config_def)
    then show ?thesis using r
      by (auto simp: lock_ip_new [OF None] Let_def a schedule_bucket_def gm_lookup_set split: if_splits)
  qed
  then show "getOrCreateIPBucket rng (store_of sh) ip now = (store_of sh', bheap sh' b)" "gm_lookup (iptable sh') ip = Some b" by blast+
qed

lemma store_of_clear: "store_of (fold lock_clear_ip ips sh) = fold clear_ip ips (store_of sh)"
proof (induction ips arbitrary: sh)
  case (Cons ip ips)
  have "client_view (sched_drop sh (ipIDPrefix @ ip)) = client_view sh" by (simp add: client_view_def fun_eq_iff)
  then have "store_of (lock_clear_ip ip sh) = clear_ip ip (store_of sh)"
    by (simp add: lock_clear_ip_def clear_ip_def Let_def) (simp add: store_of_def unschedule_id_def gm_map_delete)
  with Cons show ?case by simp
qed simp

end
