(* ===== verification/StoreThreadsCalls.thy ===== *)
theory StoreThreadsCalls
  imports StoreThreadsSolo
begin

text \<open>
  A call of the store whose goroutine is not interrupted: it comes to an end, and what it leaves
  and returns is what the operation of theory \<open>Store\<close> leaves and returns.  So the theorems about
  the atomic store are theorems about the store of pointers and locks as long as calls do not
  overlap, and what overlap adds is the subject of the other theories on threads.
\<close>

section \<open>Uninterrupted runs\<close>

inductive finishes :: "string range_order \<Rightarrow> Shared \<Rightarrow> pc \<Rightarrow> Shared \<Rightarrow> AllowResult option \<Rightarrow> bool" for rng where
  stop: "finishes rng sh (Done res) sh res"
| step: "thread_step rng sh c = (sh1, c1) \<Longrightarrow> finishes rng sh1 c1 sh' res \<Longrightarrow> finishes rng sh c sh' res"

lemma finishes_step: "thread_step rng sh c = (sh1, c1) \<Longrightarrow> finishes rng sh c = finishes rng sh1 c1"
proof (intro ext iffI)
  fix sh' res assume st: "thread_step rng sh c = (sh1, c1)" and "finishes rng sh c sh' res"
  from this(2) show "finishes rng sh1 c1 sh' res"
    by cases (use st in \<open>auto intro: finishes.stop\<close>)
qed (rule finishes.step)

lemma finishes_Done [simp]: "finishes rng sh (Done res) sh' res' \<longleftrightarrow> sh' = sh \<and> res' = res"
proof
  assume "finishes rng sh (Done res) sh' res'"
  then show "sh' = sh \<and> res' = res" by (induction sh "Done res" sh' res') auto
qed (auto intro: finishes.stop)

lemma finishes_outcome [simp]:
  "finishes rng sh (rejected wait reason) sh' res' \<longleftrightarrow>
     sh' = sh \<and> res' = Some \<lparr>Allowed = False, RemainingTokens = 0, RetryAfter = wait, Reason = reason\<rparr>"
  "finishes rng sh (accepted n) sh' res' \<longleftrightarrow>
     sh' = sh \<and> res' = Some \<lparr>Allowed = True, RemainingTokens = n, RetryAfter = 0, Reason = ''ok''\<rparr>"
  by (simp_all add: rejected_def accepted_def)

lemma finishes_simps [simp]:
  "finishes rng sh (LoadGlobal r) = finishes rng sh (case gptr sh of None \<Rightarrow> TestIP r | Some b \<Rightarrow> ChargeGlobal r b)"
  "finishes rng sh (TestIP r) = finishes rng sh (if ipon sh \<and> SourceIP r \<noteq> [] then FindIP r else FindClient (ForAllow r))"
  "finishes rng sh (FindIP r) =
     finishes rng sh (case gm_lookup (iptable sh) (SourceIP r) of Some b \<Rightarrow> ChargeIP r b | None \<Rightarrow> MakeIP r)"
  "finishes rng sh (FindClient u) =
     finishes rng sh (case gm_lookup (ctable sh) (purpose_key u) of Some p \<Rightarrow> have_client u p | None \<Rightarrow> MakeClient u)"
  "finishes rng sh (TestBlocked r p) =
     finishes rng sh (if mb_IsBlocked (client_view sh p) then rejected Second ''blocked'' else TestTier r p)"
  "finishes rng sh (TestTier r p) =
     finishes rng sh (if Tier r = [] \<or> Tier r = DefaultTier \<or> obj_Bucket sh p (Tier r) \<noteq> None then PickBucket r p
       else case gm_lookup (ctiers sh) (Tier r) of None \<Rightarrow> PickBucket r p | Some cfg \<Rightarrow> AddTier r p cfg)"
  "finishes rng sh (PickBucket r p) =
     finishes rng sh (case obj_charged sh p (Tier r) of None \<Rightarrow> rejected Second ''client_limit'' | Some b \<Rightarrow> Charge r p b)"
  "finishes rng sh (FindRemaining r p) =
     finishes rng sh (case obj_Bucket sh p (Tier r) of Some b \<Rightarrow> ReadRemaining b | None \<Rightarrow> FindDefaultRemaining p)"
  "finishes rng sh (FindDefaultRemaining p) =
     finishes rng sh (case obj_Bucket sh p DefaultTier of Some b \<Rightarrow> ReadRemaining b | None \<Rightarrow> accepted 0)"
  "finishes rng sh (ReadRemaining b) = finishes rng sh (accepted (TokensRemaining (bheap sh b)))"
  "finishes rng sh (BlockClient p) = finishes rng (obj_all sh p bucket_Block) (Done None)"
  "finishes rng sh (FindBlocked key) =
     finishes rng sh (case gm_lookup (ctable sh) key of None \<Rightarrow> Done None | Some p \<Rightarrow> UnblockClient p)"
  "finishes rng sh (UnblockClient p) = finishes rng (obj_all sh p bucket_Unblock) (Done None)"
  "finishes rng sh ClearGlobal = finishes rng (sh\<lparr>gptr := None\<rparr>) (Unschedule globalBucketID (Done None))"
  "finishes rng sh (StoreIPFlag on cfg) = finishes rng (sh\<lparr>ipon := on\<rparr>) (StoreIPConfig on cfg)"
  "finishes rng sh (StoreIPConfig on cfg) = finishes rng (sh\<lparr>ipcfg := Some cfg\<rparr>) (if on then Done None else ClearIPs)"
  "finishes rng sh ClearIPs = finishes rng (fold lock_clear_ip (rng (gm_keys (iptable sh))) sh) (Done None)"
  "finishes rng sh (DueFind now i k) = finishes rng sh (due_find sh now i k)"
  "finishes rng sh (DueTier now i p tier k) =
     finishes rng sh (case obj_Bucket sh p tier of None \<Rightarrow> CountRefill k | Some b \<Rightarrow> DueRefill now i b k)"
  "finishes rng sh (DueRefill now i b k) = finishes rng (on_bucket sh b (\<lambda>x. ScheduledRefill x now)) (DueNext i b k)"
  "finishes rng sh (DueNext i b k) = finishes rng sh (CountRefill (SchedSet i (NextRefillTime (bheap sh b)) k))"
  "finishes rng sh (CountRefill k) =
     finishes rng (sh\<lparr>sched := (sched sh)\<lparr>refillsTotal := i64 (refillsTotal (sched sh) + 1)\<rparr>\<rparr>) k"
  "finishes rng sh (Unschedule i k) = finishes rng (sched_drop sh i) k"
  "finishes rng sh (SchedFind p tier i k) =
     finishes rng sh (case obj_Bucket sh p tier of None \<Rightarrow> k | Some b \<Rightarrow> SchedTime b i k)"
  "finishes rng sh (SchedTime b i k) = finishes rng sh (SchedSet i (NextRefillTime (bheap sh b)) k)"
  "finishes rng sh (SchedSet i t k) = finishes rng (sched_set sh i t) k"
  by (rule finishes_step, simp)+

lemma finishes_Configure [simp]:
  "finishes rng sh (AddTier r p cfg) = finishes rng (obj_Configure sh p (Tier r) cfg (Now r))
     (if RefillInterval cfg > 0 then SchedFind p (Tier r) (encodeID (objKey (cheap sh p)) (Tier r)) (PickBucket r p)
      else PickBucket r p)"
  "finishes rng sh (Reconfigure key tier cfg now p) = finishes rng (obj_Configure sh p tier cfg now)
     (Unschedule (encodeID key (tier_name tier))
        (if RefillInterval cfg > 0 then SchedFind p tier (encodeID key (tier_name tier)) (Done None) else Done None))"
  "finishes rng sh (StoreGlobal cfg now) =
     finishes rng ((alloc_bucket sh GlobalSlot cfg now)\<lparr>gptr := Some (BPtr GlobalSlot (bfresh sh))\<rparr>)
      (Unschedule globalBucketID
        (if RefillInterval cfg > 0 then SchedTime (BPtr GlobalSlot (bfresh sh)) globalBucketID (Done None) else Done None))"
  by (rule finishes_step, simp)+

lemma finishes_charge:
  assumes "bucket_Allow (bheap sh b) (Now r) = (b', allowed, wait)"
  shows "finishes rng sh (ChargeGlobal r b) =
      finishes rng (on_bucket sh b (\<lambda>_. b')) (if allowed then TestIP r else rejected wait ''global_limit'')"
    "finishes rng sh (ChargeIP r b) =
      finishes rng (on_bucket sh b (\<lambda>_. b')) (if allowed then FindClient (ForAllow r) else rejected wait ''ip_limit'')"
    "finishes rng sh (Charge r p b) =
      finishes rng (on_bucket sh b (\<lambda>_. b')) (if allowed then FindRemaining r p else rejected wait ''client_limit'')"
  by (rule finishes_step, simp add: assms)+

section \<open>The gates of Allow\<close>

lemma call_client:
  assumes ok: "shared_ok sh" and rng: "is_range rng" and u: "purpose_ok u"
  obtains sh1 p new where "finishes rng sh (FindClient u) = finishes rng sh1 (have_client u p)" "shared_ok sh1"
    "gm_lookup (ctable sh1) (purpose_key u) = Some p"
    "getOrCreateClient rng (store_of sh) (purpose_key u) (purpose_now u) = (store_of sh1, client_view sh1 p, new)"
proof (cases "gm_lookup (ctable sh) (purpose_key u)")
  case (Some p)
  then show ?thesis using ok by (intro that [of sh p False]) (simp_all add: getOrCreateClient_def gm_lookup_map)
next
  case None
  obtain sh1 p where l: "lock_client rng sh (purpose_key u) (purpose_now u) = (sh1, p)" by fastforce
  note k = purpose_facts [OF u]
  have "finishes rng sh (FindClient u) = finishes rng sh (MakeClient u)" using None by simp
  also have "\<dots> = finishes rng sh1 (have_client u p)" by (rule finishes_step) (simp add: l)
  finally show ?thesis
    using that lock_client_ok(1) [OF ok rng _ _ l] lock_client_refines [OF ok rng l] k by (elim exE conjE) simp
qed

lemma call_tier:
  assumes ok: "shared_ok sh" and r: "req_ok r" and p: "gm_lookup (ctable sh) (ClientKey r) = Some p"
  obtains sh1 where "finishes rng sh (TestTier r p) = finishes rng sh1 (PickBucket r p)" "shared_ok sh1"
    "gm_lookup (ctable sh1) (ClientKey r) = Some p"
    "ensureTier (store_of sh) (client_view sh p) (Tier r) (Now r) = (store_of sh1, client_view sh1 p)"
proof (cases "Tier r = [] \<or> Tier r = DefaultTier \<or> obj_Bucket sh p (Tier r) \<noteq> None \<or> gm_lookup (ctiers sh) (Tier r) = None")
  case True
  then show ?thesis using ok p
    by (intro that [of sh]) (auto simp: ensureTier_def view_Bucket simp del: finishes_simps(7) split: option.split)
next
  case False
  then obtain cfg where cfg: "gm_lookup (ctiers sh) (Tier r) = Some cfg" by auto
  let ?c = "obj_Configure sh p (Tier r) cfg (Now r)"
  let ?t = "encodeID (ClientKey r) (Tier r)"
  let ?sh = "if RefillInterval cfg > 0 then sched_set ?c ?t (NextRefillTime (bucket_New cfg (Now r))) else ?c"
  note e = table_entry [OF ok p]
  have key: "mb_Key (client_view sh p) = ClientKey r" "objKey (cheap sh p) = ClientKey r"
    using e(2) by (simp_all add: mb_Key_def client_view_def)
  have "cfg_safe cfg" using shared_facts(4) [OF ok] cfg by (auto simp: settings_ok_def)
  then have c: "shared_ok ?c" using r by (intro Configure_ok' [OF ok e(1)]) (simp_all add: req_ok_def)
  have v: "client_view ?sh p = Configure (client_view sh p) (Tier r) cfg (Now r)"
    using store_of_Configure(1) [OF ok p] by (simp add: client_view_def)
  have m: "mb_Bucket (Configure (client_view sh p) (Tier r) cfg (Now r)) (Tier r) = Some (bucket_New cfg (Now r))"
    by (simp add: mb_Bucket_def)
  show ?thesis
  proof (rule that [of ?sh])
    show "finishes rng sh (TestTier r p) = finishes rng ?sh (PickBucket r p)"
      using False cfg key by (simp del: finishes_simps(7))
    show "shared_ok ?sh" using c sched_step_ok(1) [OF c] by simp
    show "gm_lookup (ctable ?sh) (ClientKey r) = Some p" using p by simp
    show "ensureTier (store_of sh) (client_view sh p) (Tier r) (Now r) = (store_of ?sh, client_view ?sh p)"
      unfolding v using False cfg key m store_of_Configure(2) [OF ok p, of "Tier r" cfg "Now r"]
      by (simp add: ensureTier_def view_Bucket schedule_bucket_def Let_def)
  qed
qed

text \<open>The bucket a request is charged to, and the balance reported afterwards.\<close>

lemma obj_charged_view:
  "obj_charged sh p tier = gm_lookup (objTiers (cheap sh p)) (charged_tier (client_view sh p) tier)"
  by (auto simp: obj_charged_def obj_Bucket_def charged_tier_def view_lookup split: option.split)

lemma call_charge:
  assumes ok: "shared_ok sh" and p: "gm_lookup (ctable sh) (ClientKey r) = Some p"
    and a: "mb_Allow (client_view sh p) (Tier r) (Now r) = (cb, allowed, wait)"
  shows "\<exists>sh'. finishes rng sh (PickBucket r p) sh' (Some (if allowed
        then \<lparr>Allowed = True, RemainingTokens = remaining_tokens cb (Tier r), RetryAfter = 0, Reason = ''ok''\<rparr>
        else \<lparr>Allowed = False, RemainingTokens = 0, RetryAfter = wait, Reason = ''client_limit''\<rparr>))
    \<and> store_of sh' = put_client (store_of sh) (ClientKey r) cb"
proof -
  let ?t = "charged_tier (client_view sh p) (Tier r)"
  note o = table_entry(3) [OF ok p, unfolded obj_ok_def]
  have "gm_lookup (objTiers (cheap sh p)) ?t \<noteq> None" using o by (simp add: charged_tier_def view_lookup)
  then obtain b where b: "gm_lookup (objTiers (cheap sh p)) ?t = Some b" by auto
  obtain b' where b': "bucket_Allow (bheap sh b) (Now r) = (b', allowed, wait)"
    and cb: "cb = (client_view sh p)\<lparr>buckets := gm_set ?t b' (buckets (client_view sh p))\<rparr>"
    using a b by (auto simp: mb_Allow_def Let_def view_lookup split: prod.splits)
  let ?sh = "on_bucket sh b (\<lambda>_. b')"
  have v: "client_view ?sh p = cb" and s: "store_of ?sh = put_client (store_of sh) (ClientKey r) cb"
    using store_of_tier [OF ok p b, of "\<lambda>_. b'"] cb by simp_all
  have "remaining_tokens cb (Tier r) = (case obj_Bucket ?sh p (Tier r) of Some b \<Rightarrow> TokensRemaining (bheap ?sh b)
      | None \<Rightarrow> (case obj_Bucket ?sh p DefaultTier of Some b \<Rightarrow> TokensRemaining (bheap ?sh b) | None \<Rightarrow> 0))"
    unfolding remaining_tokens_def v [symmetric] view_Bucket by (simp split: option.split)
  then have "finishes rng sh (PickBucket r p) ?sh (Some (if allowed
        then \<lparr>Allowed = True, RemainingTokens = remaining_tokens cb (Tier r), RetryAfter = 0, Reason = ''ok''\<rparr>
        else \<lparr>Allowed = False, RemainingTokens = 0, RetryAfter = wait, Reason = ''client_limit''\<rparr>))"
    by (simp add: obj_charged_view b finishes_charge [OF b'] split: option.split)
  with s show ?thesis by (intro exI conjI)
qed

lemma call_client_gate:
  assumes ok: "shared_ok sh" and rng: "is_range rng" and r: "req_ok r"
  shows "\<exists>sh' res. finishes rng sh (FindClient (ForAllow r)) sh' (Some res)
    \<and> client_gate rng (store_of sh) (ClientKey r) (Tier r) (Now r) = (store_of sh', res)"
proof -
  have u: "purpose_ok (ForAllow r)" using r by simp
  obtain sh1 p new where f: "finishes rng sh (FindClient (ForAllow r)) = finishes rng sh1 (TestBlocked r p)" "shared_ok sh1"
      "gm_lookup (ctable sh1) (ClientKey r) = Some p"
      "getOrCreateClient rng (store_of sh) (ClientKey r) (Now r) = (store_of sh1, client_view sh1 p, new)"
    by (rule call_client [OF ok rng u]) simp
  show ?thesis
  proof (cases "mb_IsBlocked (client_view sh1 p)")
    case True
    then show ?thesis unfolding f(1) by (simp add: client_gate_def f(4))
  next
    case False
    obtain sh2 where t: "finishes rng sh1 (TestTier r p) = finishes rng sh2 (PickBucket r p)" "shared_ok sh2"
        "gm_lookup (ctable sh2) (ClientKey r) = Some p"
        "ensureTier (store_of sh1) (client_view sh1 p) (Tier r) (Now r) = (store_of sh2, client_view sh2 p)"
      by (rule call_tier [OF f(2) r f(3)])
    obtain cb allowed wait where a: "mb_Allow (client_view sh2 p) (Tier r) (Now r) = (cb, allowed, wait)"
      by (cases "mb_Allow (client_view sh2 p) (Tier r) (Now r)")
    have "finishes rng sh1 (TestBlocked r p) = finishes rng sh2 (PickBucket r p)"
      unfolding t(1) [symmetric] using False by (subst finishes_simps(5)) simp
    moreover obtain sh' where "finishes rng sh2 (PickBucket r p) sh' (Some (if allowed
          then \<lparr>Allowed = True, RemainingTokens = remaining_tokens cb (Tier r), RetryAfter = 0, Reason = ''ok''\<rparr>
          else \<lparr>Allowed = False, RemainingTokens = 0, RetryAfter = wait, Reason = ''client_limit''\<rparr>))"
        "store_of sh' = put_client (store_of sh2) (ClientKey r) cb"
      using call_charge [OF t(2,3) a, of rng] by (elim exE conjE) (rule that)
    ultimately show ?thesis unfolding f(1) using False
      by (intro exI [of _ sh'] exI) (auto simp: client_gate_def f(4) t(4) a Let_def simp del: finishes_simps)
  qed
qed

lemma call_ip_gate:
  assumes ok: "shared_ok sh" and rng: "is_range rng" and r: "req_ok r"
  obtains sh1 allowed wait where "ip_gate rng (store_of sh) (SourceIP r) (Now r) = (store_of sh1, allowed, wait)" "shared_ok sh1"
    "finishes rng sh (TestIP r) = finishes rng sh1 (if allowed then FindClient (ForAllow r) else rejected wait ''ip_limit'')"
proof (cases "ipon sh \<and> SourceIP r \<noteq> []")
  case False
  then show ?thesis using ok by (intro that [of sh True 0]) (auto simp: ip_gate_def simp del: finishes_simps(4))
next
  case True
  obtain sh1 b where l: "lock_ip rng sh (SourceIP r) (Now r) = (sh1, b)" by fastforce
  have f: "finishes rng sh (TestIP r) = finishes rng sh1 (ChargeIP r b)"
  proof (cases "gm_lookup (iptable sh) (SourceIP r)")
    case None
    have "finishes rng sh (MakeIP r) = finishes rng sh1 (ChargeIP r b)" by (rule finishes_step) (simp add: l)
    with None True show ?thesis by simp
  next
    case (Some q)
    with True l show ?thesis by (simp add: lock_ip_def)
  qed
  note k = lock_ip_ok(1) [OF ok rng _ _ l] lock_ip_refines [OF ok rng l]
  have ok1: "shared_ok sh1" using k(1) True r by (simp add: req_ok_def)
  obtain b' allowed wait where a: "bucket_Allow (bheap sh1 b) (Now r) = (b', allowed, wait)"
    by (cases "bucket_Allow (bheap sh1 b) (Now r)")
  have "bucket_ok b'" using bucket_Allow_ok [OF shared_facts(6) [OF ok1, of b], of "Now r"] r a by (simp add: req_ok_def)
  then have "shared_ok (on_bucket sh1 b (\<lambda>_. b'))" by (intro on_bucket_ok [OF ok1])
  moreover have "ip_gate rng (store_of sh) (SourceIP r) (Now r) = (store_of (on_bucket sh1 b (\<lambda>_. b')), allowed, wait)"
    using True a by (simp add: ip_gate_def k(2) store_of_ip [OF ok1 k(3)])
  ultimately show ?thesis
    using f by (intro that [of "on_bucket sh1 b (\<lambda>_. b')" allowed wait]) (simp_all only: finishes_charge [OF a])
qed

lemma call_global_gate:
  assumes ok: "shared_ok sh" and r: "req_ok r"
  obtains sh1 allowed wait where "global_gate (store_of sh) (Now r) = (store_of sh1, allowed, wait)" "shared_ok sh1"
    "finishes rng sh (LoadGlobal r) = finishes rng sh1 (if allowed then TestIP r else rejected wait ''global_limit'')"
proof (cases "gptr sh")
  case None
  then show ?thesis using ok by (intro that [of sh True 0]) (simp_all add: global_gate_def del: finishes_simps(2))
next
  case (Some b)
  obtain b' allowed wait where a: "bucket_Allow (bheap sh b) (Now r) = (b', allowed, wait)"
    by (cases "bucket_Allow (bheap sh b) (Now r)")
  have "bucket_ok b'" using bucket_Allow_ok [OF shared_facts(6) [OF ok, of b], of "Now r"] r a by (simp add: req_ok_def)
  then have "shared_ok (on_bucket sh b (\<lambda>_. b'))" by (intro on_bucket_ok [OF ok])
  moreover have "global_gate (store_of sh) (Now r) = (store_of (on_bucket sh b (\<lambda>_. b')), allowed, wait)"
    using Some a by (simp add: global_gate_def store_of_global [OF ok Some])
  ultimately show ?thesis using Some
    by (intro that [of "on_bucket sh b (\<lambda>_. b')" allowed wait]) (simp_all add: finishes_charge [OF a] del: finishes_simps(2))
qed

lemma call_Allow:
  assumes ok: "shared_ok sh" and rng: "is_range rng" and x: "op_ok (SAllow wall r)"
  shows "\<exists>sh' res. finishes rng sh (start (SAllow wall r)) sh' (Some res)
    \<and> store_Allow rng wall (store_of sh) r = (store_of sh', res)"
proof -
  let ?r = "r\<lparr>Now := req_time wall r\<rparr>"
  have r: "req_ok ?r" using x by (simp add: req_ok_def)
  obtain sh1 allowed1 wait1 where g: "global_gate (store_of sh) (Now ?r) = (store_of sh1, allowed1, wait1)" "shared_ok sh1"
      "finishes rng sh (LoadGlobal ?r) = finishes rng sh1 (if allowed1 then TestIP ?r else rejected wait1 ''global_limit'')"
    by (rule call_global_gate [OF ok r])
  obtain sh2 allowed2 wait2 where i: "ip_gate rng (store_of sh1) (SourceIP ?r) (Now ?r) = (store_of sh2, allowed2, wait2)" "shared_ok sh2"
      "finishes rng sh1 (TestIP ?r) = finishes rng sh2 (if allowed2 then FindClient (ForAllow ?r) else rejected wait2 ''ip_limit'')"
    by (rule call_ip_gate [OF g(2) rng r])
  have t: "(if IsZero (Now r) then wall else Now r) = req_time wall r" by (simp add: req_time_def)
  show ?thesis
    using g i call_client_gate [OF i(2) rng r]
    by (cases allowed1; cases allowed2) (auto simp: store_Allow_def t simp del: finishes_simps)
qed

section \<open>Administration\<close>

lemma call_Update:
  assumes ok: "shared_ok sh" and rng: "is_range rng" and x: "op_ok (SUpdate key tier cfg now)"
  shows "\<exists>sh'. finishes rng sh (start (SUpdate key tier cfg now)) sh' None
    \<and> UpdateClientConfig rng (store_of sh) key tier cfg now = store_of sh'"
proof -
  let ?t = "tier_name tier"
  have u: "purpose_ok (ForUpdate key ?t cfg now)" using x by (simp add: tier_name_def DefaultTier_def)
  obtain sh1 p new where f: "finishes rng sh (FindClient (ForUpdate key ?t cfg now)) = finishes rng sh1 (Reconfigure key ?t cfg now p)"
      "shared_ok sh1" "gm_lookup (ctable sh1) key = Some p"
      "getOrCreateClient rng (store_of sh) key now = (store_of sh1, client_view sh1 p, new)"
    by (rule call_client [OF ok rng u]) simp
  have m: "mb_Bucket (Configure (client_view sh1 p) ?t cfg now) ?t = Some (bucket_New cfg now)" by (simp add: mb_Bucket_def)
  let ?c = "sched_drop (obj_Configure sh1 p ?t cfg now) (encodeID key ?t)"
  let ?sh = "if RefillInterval cfg > 0 then sched_set ?c (encodeID key ?t) (NextRefillTime (bucket_New cfg now)) else ?c"
  have o: "obj_Bucket ?c p ?t = Some (BPtr (TierSlot p ?t) (bfresh sh1))" by (simp add: obj_Bucket_def gm_lookup_set)
  have "finishes rng sh1 (Reconfigure key ?t cfg now p) ?sh None" by (simp add: o)
  moreover have "UpdateClientConfig rng (store_of sh) key tier cfg now = store_of ?sh"
    using store_of_Configure(2) [OF f(2,3), of ?t cfg now] m
    by (simp add: UpdateClientConfig_def EnsureClient_def f(4) tier_name_def [symmetric] schedule_bucket_def Let_def)
  ultimately show ?thesis by (intro exI [of _ ?sh]) (simp add: f(1) del: finishes_simps finishes_Configure)
qed

lemma call_Block:
  assumes ok: "shared_ok sh" and rng: "is_range rng" and x: "op_ok (SBlock key now)"
  shows "\<exists>sh'. finishes rng sh (start (SBlock key now)) sh' None \<and> store_Block rng (store_of sh) key now = store_of sh'"
proof -
  have u: "purpose_ok (ForBlock key now)" using x by simp
  obtain sh1 p new where f: "finishes rng sh (FindClient (ForBlock key now)) = finishes rng sh1 (BlockClient p)"
      "shared_ok sh1" "gm_lookup (ctable sh1) key = Some p"
      "getOrCreateClient rng (store_of sh) key now = (store_of sh1, client_view sh1 p, new)"
    by (rule call_client [OF ok rng u]) simp
  have "finishes rng sh1 (BlockClient p) (obj_all sh1 p bucket_Block) None" by simp
  then show ?thesis
    by (intro exI [of _ "obj_all sh1 p bucket_Block"])
      (simp add: f store_Block_def EnsureClient_def store_of_all [OF f(2,3)] BlockAll_def del: finishes_simps)
qed

lemma call_Unblock:
  assumes ok: "shared_ok sh"
  shows "\<exists>sh'. finishes rng sh (start (SUnblock key)) sh' None \<and> store_Unblock (store_of sh) key = store_of sh'"
proof (cases "gm_lookup (ctable sh) key")
  case (Some p)
  then show ?thesis by (simp add: store_Unblock_def gm_lookup_map store_of_all [OF ok Some] UnblockAll_def)
qed (simp add: store_Unblock_def gm_lookup_map)

lemma store_of_new_global:
  assumes ok: "shared_ok sh"
  shows "store_of ((alloc_bucket sh GlobalSlot cfg now)\<lparr>gptr := Some (BPtr GlobalSlot (bfresh sh))\<rparr>)
    = (store_of sh)\<lparr>globalBucket := Some (bucket_New cfg now)\<rparr>"
proof -
  let ?sh = "(alloc_bucket sh GlobalSlot cfg now)\<lparr>gptr := Some (BPtr GlobalSlot (bfresh sh))\<rparr>"
  have "gm_map (client_view ?sh) (ctable ?sh) = gm_map (client_view sh) (ctable sh)" by (rule views_cong [OF ok]) auto
  moreover have "gm_map (bheap ?sh) (iptable ?sh) = gm_map (bheap sh) (iptable sh)" by (rule ips_cong [OF ok]) auto
  ultimately show ?thesis by (simp add: store_of_def)
qed

lemma call_SetGlobal:
  assumes ok: "shared_ok sh"
  shows "\<exists>sh'. finishes rng sh (start (SSetGlobal cfg now)) sh' None \<and> SetGlobalConfig (store_of sh) cfg now = store_of sh'"
proof -
  let ?c = "sched_drop ((alloc_bucket sh GlobalSlot cfg now)\<lparr>gptr := Some (BPtr GlobalSlot (bfresh sh))\<rparr>) globalBucketID"
  let ?sh = "if RefillInterval cfg > 0 then sched_set ?c globalBucketID (NextRefillTime (bucket_New cfg now)) else ?c"
  have "finishes rng sh (start (SSetGlobal cfg now)) ?sh None" by simp
  moreover have "SetGlobalConfig (store_of sh) cfg now = store_of ?sh"
    by (simp add: SetGlobalConfig_def Let_def schedule_bucket_def store_of_new_global [OF ok])
  ultimately show ?thesis by (intro exI conjI)
qed

lemma view_settings [simp]:
  "client_view (sh\<lparr>gptr := g\<rparr>) = client_view sh" "client_view (sh\<lparr>ipon := on\<rparr>) = client_view sh"
  "client_view (sh\<lparr>ipcfg := c\<rparr>) = client_view sh" "client_view (sh\<lparr>sched := sc\<rparr>) = client_view sh"
  by (simp_all add: client_view_def fun_eq_iff)

lemma call_DisableGlobal:
  "\<exists>sh'. finishes rng sh (start SDisableGlobal) sh' None \<and> DisableGlobal (store_of sh) = store_of sh'"
proof -
  have e: "store_of (sh\<lparr>gptr := None\<rparr>) = (store_of sh)\<lparr>globalBucket := None\<rparr>" by (simp add: store_of_def)
  show ?thesis by (simp add: DisableGlobal_def e)
qed

lemma call_SetIP:
  "\<exists>sh'. finishes rng sh (start (SSetIP on cfg)) sh' None \<and> SetIPLimit rng (store_of sh) on cfg = store_of sh'"
proof -
  have e: "store_of (sh\<lparr>ipon := on, ipcfg := Some cfg\<rparr>) = (store_of sh)\<lparr>ipLimitEnabled := on, ipConfigPtr := Some cfg\<rparr>" for on
    by (simp add: store_of_def client_view_def fun_eq_iff)
  show ?thesis by (simp add: SetIPLimit_def store_of_clear e)
qed

section \<open>A pass of the scheduler\<close>

lemma scheduler_swap: "put_client (s\<lparr>scheduler := x\<rparr>) k cb = (put_client s k cb)\<lparr>scheduler := x\<rparr>"
  by (simp add: put_client_def)

text \<open>One due entry, up to the point where the refill is counted.\<close>

lemma call_OnDue:
  assumes ok: "shared_ok sh" and now: "valid_time now"
  obtains sh1 nxt lv where "\<forall>x. OnDue ((store_of sh)\<lparr>scheduler := x\<rparr>) i now = ((store_of sh1)\<lparr>scheduler := x\<rparr>, nxt, lv)"
    "sched sh1 = sched sh" "shared_ok sh1"
    "\<forall>k. finishes rng sh (DueFind now i k) = finishes rng sh1 (CountRefill (if lv then SchedSet i nxt k else k))"
proof -
  note result = that
  have gone: ?thesis if "\<And>x. OnDue ((store_of sh)\<lparr>scheduler := x\<rparr>) i now = ((store_of sh)\<lparr>scheduler := x\<rparr>, zeroTime, False)"
      "\<And>k. finishes rng sh (DueFind now i k) = finishes rng sh (CountRefill k)"
    by (rule result [of sh zeroTime False]) (use that(1,2) ok in simp_all)
  have due: ?thesis if b: "\<And>x. OnDue ((store_of sh)\<lparr>scheduler := x\<rparr>) i now =
        ((store_of (on_bucket sh b (\<lambda>y. ScheduledRefill y now)))\<lparr>scheduler := x\<rparr>, NextRefillTime (ScheduledRefill (bheap sh b) now), True)"
      "\<And>k. finishes rng sh (DueFind now i k) = finishes rng sh (DueRefill now i b k)" for b
  proof (rule result [of "on_bucket sh b (\<lambda>y. ScheduledRefill y now)" "NextRefillTime (ScheduledRefill (bheap sh b) now)" True])
    show "shared_ok (on_bucket sh b (\<lambda>y. ScheduledRefill y now))"
      by (intro on_bucket_ok [OF ok] ScheduledRefill_ok shared_facts(6) [OF ok] now)
  qed (use b in simp_all)
  consider (g) "i = globalBucketID" | (ip) "i \<noteq> globalBucketID" "HasPrefix i ipIDPrefix" | (none) "i \<noteq> globalBucketID" "\<not> HasPrefix i ipIDPrefix" "decodeID i = None"
    | (c) key tier where "i \<noteq> globalBucketID" "\<not> HasPrefix i ipIDPrefix" "decodeID i = Some (key, tier)" by fastforce
  then show ?thesis
  proof cases
    case g
    show ?thesis
    proof (cases "gptr sh")
      case None
      with g show ?thesis by (intro gone) (simp_all add: OnDue_def due_find_def)
    next
      case (Some b)
      with g show ?thesis
        by (intro due [of b]) (simp_all add: OnDue_def due_find_def Let_def store_of_global [OF ok Some])
    qed
  next
    case ip
    show ?thesis
    proof (cases "gm_lookup (iptable sh) (TrimPrefix i ipIDPrefix)")
      case None
      with ip show ?thesis by (intro gone) (simp_all add: OnDue_def due_find_def gm_lookup_map Let_def)
    next
      case (Some b)
      with ip show ?thesis
        by (intro due [of b]) (simp_all add: OnDue_def due_find_def gm_lookup_map Let_def store_of_ip [OF ok Some])
    qed
  next
    case none
    then show ?thesis by (intro gone) (simp_all add: OnDue_def due_find_def)
  next
    case c
    show ?thesis
    proof (cases "gm_lookup (ctable sh) key")
      case None
      with c show ?thesis by (intro gone) (simp_all add: OnDue_def due_find_def gm_lookup_map)
    next
      case (Some p)
      show ?thesis
      proof (cases "obj_Bucket sh p tier")
        case None
        with c Some show ?thesis by (intro gone) (simp_all add: OnDue_def due_find_def gm_lookup_map view_Bucket)
      next
        case b: (Some b)
        note t = store_of_tier [OF ok Some b [unfolded obj_Bucket_def], of "\<lambda>y. ScheduledRefill y now"]
        show ?thesis using c Some b
          by (intro due [of b]) (simp_all add: OnDue_def due_find_def gm_lookup_map view_Bucket Let_def t scheduler_swap)
      qed
    qed
  qed
qed

lemma call_pass:
  assumes "shared_ok sh" "valid_time now"
  shows "\<exists>sh'. finishes rng sh (pass_of now (map entryId es)) sh' None
    \<and> (\<forall>x. fold (runDue OnDue now) es (sched sh, (store_of sh)\<lparr>scheduler := x\<rparr>) = (sched sh', (store_of sh')\<lparr>scheduler := x\<rparr>))"
  using assms
proof (induction es arbitrary: sh)
  case Nil
  then show ?case by (simp add: pass_of_def)
next
  case (Cons e es)
  let ?k = "pass_of now (map entryId es)"
  obtain sh1 nxt ok1 where d: "\<forall>x. OnDue ((store_of sh)\<lparr>scheduler := x\<rparr>) (entryId e) now = ((store_of sh1)\<lparr>scheduler := x\<rparr>, nxt, ok1)"
      "sched sh1 = sched sh" "shared_ok sh1"
      "\<forall>k. finishes rng sh (DueFind now (entryId e) k) = finishes rng sh1 (CountRefill (if ok1 then SchedSet (entryId e) nxt k else k))"
    by (rule call_OnDue [OF Cons.prems, where i = "entryId e" and rng = rng])
  let ?c = "sh1\<lparr>sched := (sched sh1)\<lparr>refillsTotal := i64 (refillsTotal (sched sh1) + 1)\<rparr>\<rparr>"
  let ?sh = "if ok1 then sched_set ?c (entryId e) nxt else ?c"
  note c = sched_step_ok(3) [OF d(3), of "i64 (refillsTotal (sched sh1) + 1)"]
  have ok: "shared_ok ?sh" using c sched_step_ok(1) [OF c] by simp
  have f: "finishes rng sh (pass_of now (map entryId (e # es))) = finishes rng ?sh ?k"
    using spec [OF d(4), of ?k] by (simp add: pass_of_def del: finishes_simps(18))
  have v: "(store_of ?sh)\<lparr>scheduler := x\<rparr> = (store_of sh1)\<lparr>scheduler := x\<rparr>" for x
    by (simp add: schedule_id_def)
  have "runDue OnDue now e (sched sh, (store_of sh)\<lparr>scheduler := x\<rparr>) = (sched ?sh, (store_of ?sh)\<lparr>scheduler := x\<rparr>)" for x
    unfolding v by (simp add: runDue_def d(1) Let_def d(2) [symmetric])
  with Cons.IH [OF ok Cons.prems(2)] show ?case unfolding f by simp
qed

lemma call_Tick:
  assumes ok: "shared_ok sh" and x: "op_ok (STick now)"
  shows "\<exists>sh'. finishes rng sh (start (STick now)) sh' None \<and> store_tick (store_of sh) now = store_of sh'"
proof -
  obtain sc es where p: "popDue (sched sh) now = (sc, es)" by fastforce
  let ?sh = "sh\<lparr>sched := sc\<rparr>"
  have t: "shared_ok ?sh"
    using thread_step_ok [OF ok is_range_id, of "PopDue now" ?sh "pass_of now (map entryId es)"] x p by simp
  have now: "valid_time now" using x by simp
  obtain sh' where s: "finishes rng ?sh (pass_of now (map entryId es)) sh' None"
    and f: "\<forall>y. fold (runDue OnDue now) es (sched ?sh, (store_of ?sh)\<lparr>scheduler := y\<rparr>) = (sched sh', (store_of sh')\<lparr>scheduler := y\<rparr>)"
    using call_pass [OF t now, of rng es] by (elim exE conjE) (rule that)
  have "finishes rng sh (PopDue now) = finishes rng ?sh (pass_of now (map entryId es))"
    by (rule finishes_step) (simp add: p)
  moreover have e: "(store_of ?sh)\<lparr>scheduler := Some (sched sh)\<rparr> = store_of sh" by (simp add: store_of_def)
  have "fold (runDue OnDue now) es (sc, store_of sh) = (sched sh', (store_of sh')\<lparr>scheduler := Some (sched sh)\<rparr>)"
    using spec [OF f, of "Some (sched sh)"] unfolding e by simp
  then have "store_tick (store_of sh) now = store_of sh'"
    by (simp add: store_tick_def processDue_def p)
  ultimately show ?thesis using s by (intro exI [of _ sh']) simp
qed

section \<open>Every call\<close>

lemma call_admin:
  assumes "shared_ok sh" "is_range rng" "op_ok x" "\<forall>wall r. x \<noteq> SAllow wall r"
  shows "\<exists>sh'. finishes rng sh (start x) sh' None \<and> store_of sh' = store_step (store_of sh) (rng, x)"
proof (cases x)
  case (STick now)
  with call_Tick [OF assms(1), of now rng] assms(3) show ?thesis by (auto simp del: start.simps)
next
  case (SUpdate key tier cfg now)
  with call_Update [OF assms(1,2), of key tier cfg now] assms(3) show ?thesis by (auto simp del: start.simps)
next
  case (SBlock key now)
  with call_Block [OF assms(1,2), of key now] assms(3) show ?thesis by (auto simp del: start.simps)
next
  case (SUnblock key)
  with call_Unblock [OF assms(1), of rng key] show ?thesis by (auto simp del: start.simps)
next
  case (SSetGlobal cfg now)
  with call_SetGlobal [OF assms(1), of rng cfg now] show ?thesis by (auto simp del: start.simps)
next
  case SDisableGlobal
  with call_DisableGlobal [of rng sh] show ?thesis by (auto simp del: start.simps)
next
  case (SSetIP on cfg)
  with call_SetIP [of rng sh on cfg] show ?thesis by (auto simp del: start.simps)
qed (use assms(4) in simp)

text \<open>What a call returns: the decision of \<^verbatim>\<open>Allow\<close>, and nothing for the rest.\<close>

fun call_result :: "string range_order \<Rightarrow> BucketStore \<Rightarrow> store_op \<Rightarrow> AllowResult option" where
  "call_result rng s (SAllow wall r) = Some (snd (store_Allow rng wall s r))"
| "call_result rng s _ = None"

lemma call_refines:
  assumes "shared_ok sh" "is_range rng" "op_ok x"
  shows "\<exists>sh'. finishes rng sh (start x) sh' (call_result rng (store_of sh) x) \<and> store_of sh' = store_step (store_of sh) (rng, x)"
proof (cases "\<exists>wall r. x = SAllow wall r")
  case True
  then obtain wall r where x: "x = SAllow wall r" by (elim exE)
  obtain sh' res where f: "finishes rng sh (start (SAllow wall r)) sh' (Some res)" and a: "store_Allow rng wall (store_of sh) r = (store_of sh', res)"
    using call_Allow [OF assms(1,2) assms(3) [unfolded x]] by (elim exE conjE) (rule that)
  show ?thesis using f by (intro exI [of _ sh']) (simp add: x a del: start.simps)
next
  case False
  then have "\<forall>wall r. x \<noteq> SAllow wall r" by simp
  moreover have "call_result rng (store_of sh) x = None" using False by (cases x) simp_all
  ultimately show ?thesis using call_admin [OF assms] by simp
qed

lemma finishes_system:
  assumes "finishes rng sh c sh' res" "shared S = sh" "threads S = ts @ [c]"
  shows "\<exists>n. shared (((\<lambda>S. run_thread rng S (length ts)) ^^ n) S) = sh'
    \<and> threads (((\<lambda>S. run_thread rng S (length ts)) ^^ n) S) = ts @ [Done res]"
  using assms
proof (induction arbitrary: S)
  case (stop sh res)
  then show ?case by (intro exI [of _ 0]) simp
next
  case (step sh c sh1 c1 sh' res)
  let ?S = "run_thread rng S (length ts)"
  have "shared ?S = sh1" "threads ?S = ts @ [c1]" using step.hyps(1) step.prems by (simp_all add: run_thread_eq)
  then obtain n where "shared (((\<lambda>S. run_thread rng S (length ts)) ^^ n) ?S) = sh'"
      "threads (((\<lambda>S. run_thread rng S (length ts)) ^^ n) ?S) = ts @ [Done res]"
    using step.IH by blast
  then show ?case by (intro exI [of _ "Suc n"]) (simp add: funpow_Suc_right del: funpow.simps)
qed

text \<open>
  C4. Locks and pointers refine the atomic store.  Take any state that concurrent use of the store
  can reach, with other calls stopped anywhere in their course, and let one more call run without
  interruption: it comes to an end, the other goroutines are where they were, the buckets reached
  through the tables are those the atomic operation of theory \<open>Store\<close> computes from the buckets
  that were reachable before, and a request gets the decision that \<open>store_Allow\<close> takes there.
\<close>

theorem uninterrupted_call:
  assumes "opts_ok opts" "sys_reach allowed opts S" "is_range rng" "op_ok x"
  shows "\<exists>n S'. S' = ((\<lambda>S'. run_thread rng S' (length (threads S))) ^^ n) (spawn S x)
    \<and> threads S' = threads S @ [Done (call_result rng (store_of (shared S)) x)]
    \<and> store_of (shared S') = store_step (store_of (shared S)) (rng, x)"
proof -
  have "shared_ok (shared S)" using sys_reach_ok [OF assms(2,1)] by (simp add: sys_ok_def)
  then obtain sh' where f: "finishes rng (shared S) (start x) sh' (call_result rng (store_of (shared S)) x)"
      "store_of sh' = store_step (store_of (shared S)) (rng, x)"
    using call_refines assms(3,4) by blast
  obtain n where n: "shared (((\<lambda>S'. run_thread rng S' (length (threads S))) ^^ n) (spawn S x)) = sh'"
      "threads (((\<lambda>S'. run_thread rng S' (length (threads S))) ^^ n) (spawn S x)) =
        threads S @ [Done (call_result rng (store_of (shared S)) x)]"
    using finishes_system [OF f(1), of "spawn S x" "threads S"] by (auto simp: spawn_def)
  show ?thesis by (intro exI conjI) (rule refl, rule n(2), rule f(2) [folded n(1)])
qed

text \<open>A second request, while a first one has stopped between finding no client and creating it.\<close>

definition first_stopped :: System where
  "first_stopped = run_schedule (spawn_all (sys_New example_opts) [SAllow 0 (request ''alice'' 10)]) [0, 0, 0]"

theorem uninterrupted_call_witness:
  "threads first_stopped = [MakeClient (ForAllow (request ''alice'' 10))]
   \<and> (\<exists>n S'. S' = ((\<lambda>S'. run_thread (\<lambda>ks. ks) S' 1) ^^ n) (spawn first_stopped (SAllow 0 (request ''bob'' 20)))
      \<and> threads S' = [MakeClient (ForAllow (request ''alice'' 10)),
           Done (call_result (\<lambda>ks. ks) (store_of (shared first_stopped)) (SAllow 0 (request ''bob'' 20)))]
      \<and> store_of (shared S') = fst (store_Allow (\<lambda>ks. ks) 0 (store_of (shared first_stopped)) (request ''bob'' 20)))"
proof -
  have t: "threads first_stopped = [MakeClient (ForAllow (request ''alice'' 10))]" by code_simp
  have "sys_reach (\<lambda>_. True) example_opts first_stopped"
    unfolding first_stopped_def
    by (rule schedule_reach) (simp_all add: key_ok_def valid_time_def request_def req_time_def IsZero_def zeroTime_def)
  moreover have "op_ok (SAllow 0 (request ''bob'' 20))"
    by (simp add: key_ok_def valid_time_def request_def req_time_def IsZero_def zeroTime_def)
  ultimately show ?thesis
    using uninterrupted_call [OF example_opts_ok _ is_range_id, of "\<lambda>_. True" first_stopped "SAllow 0 (request ''bob'' 20)"] t
    by (simp del: op_ok.simps call_result.simps)
qed

end
