(* ===== verification/RunLoop.thy ===== *)
theory RunLoop
  imports Scheduler
begin

text \<open>
  The scheduler's goroutine (\<^verbatim>\<open>Scheduler.Run\<close> in
  \<^verbatim>\<open>internal/scheduler/scheduler.go\<close>) as a step relation, interleaved with other
  goroutines that call \<^verbatim>\<open>Schedule\<close> and \<^verbatim>\<open>Remove\<close>, with the passage of time
  and with the cancellation of the context.

  A step of the loop is one critical section, one callback or one blocking
  \<^verbatim>\<open>select\<close>.  \<^verbatim>\<open>nextWait\<close> reads the clock before the timer is armed, so the phases
  remember both instants: the loop sleeps until \<open>armed + wait\<close>, where \<open>wait\<close> was
  computed at \<open>read\<close>.
\<close>

section \<open>The loop\<close>

datatype phase =
    Computing
  | Arming (readAt: gotime) (waitFor: duration)
  | Waiting (readAt: gotime) (armedAt: gotime) (waitFor: duration)
  | Locking gotime
  | Processing gotime "refillEntry list"
  | Returned gotime string gotime bool "refillEntry list"
  | Stopped

record 's run =
  sched :: Scheduler
  phase :: phase
  clock :: gotime
  env :: 's
  cancelled :: bool

definition run_init :: "Scheduler \<Rightarrow> gotime \<Rightarrow> 's \<Rightarrow> 's run" where
  "run_init s now e = \<lparr>sched = s, phase = Computing, clock = now, env = e, cancelled = False\<rparr>"

text \<open>The steps of \<^verbatim>\<open>Run\<close> and of the \<^verbatim>\<open>processDue\<close> it calls.  \<^verbatim>\<open>select\<close>
  picks any of its cases that is ready.\<close>

inductive loop_step :: "'s RefillFunc \<Rightarrow> 's run \<Rightarrow> 's run \<Rightarrow> bool" for onDue where
  compute: "phase r = Computing \<Longrightarrow>
     loop_step onDue r (r\<lparr>phase := Arming (clock r) (nextWait (sched r) (clock r))\<rparr>)"
| arm: "phase r = Arming c w \<Longrightarrow> loop_step onDue r (r\<lparr>phase := Waiting c (clock r) w\<rparr>)"
| wake: "phase r = Waiting c a w \<Longrightarrow> wakeup (sched r) \<Longrightarrow>
     loop_step onDue r (r\<lparr>phase := Computing, sched := (sched r)\<lparr>wakeup := False\<rparr>\<rparr>)"
| fire: "phase r = Waiting c a w \<Longrightarrow> a + w \<le> clock r \<Longrightarrow>
     loop_step onDue r (r\<lparr>phase := Locking (clock r)\<rparr>)"
| stop: "phase r = Waiting c a w \<Longrightarrow> cancelled r \<Longrightarrow> loop_step onDue r (r\<lparr>phase := Stopped\<rparr>)"
| pop: "phase r = Locking now \<Longrightarrow> popDue (sched r) now = (s1, es) \<Longrightarrow>
     loop_step onDue r (r\<lparr>phase := Processing now es, sched := s1\<rparr>)"
| call: "phase r = Processing now (e # es) \<Longrightarrow> onDue (env r) (entryId e) now = (env1, next, ok) \<Longrightarrow>
     loop_step onDue r (r\<lparr>phase := Returned now (entryId e) next ok es, env := env1,
       sched := (sched r)\<lparr>refillsTotal := i64 (refillsTotal (sched r) + 1)\<rparr>\<rparr>)"
| resched: "phase r = Returned now i next ok es \<Longrightarrow>
     loop_step onDue r (r\<lparr>phase := Processing now es,
       sched := (if ok then Schedule (sched r) i next else sched r)\<rparr>)"
| again: "phase r = Processing now [] \<Longrightarrow> loop_step onDue r (r\<lparr>phase := Computing\<rparr>)"

text \<open>What the rest of the program may do meanwhile.\<close>

inductive other_step :: "'s run \<Rightarrow> 's run \<Rightarrow> bool" where
  schedule: "other_step r (r\<lparr>sched := Schedule (sched r) i t\<rparr>)"
| remove: "other_step r (r\<lparr>sched := sched_Remove (sched r) i\<rparr>)"
| env: "other_step r (r\<lparr>env := e\<rparr>)"
| tick: "0 \<le> d \<Longrightarrow> other_step r (r\<lparr>clock := clock r + d\<rparr>)"
| cancel: "other_step r (r\<lparr>cancelled := True\<rparr>)"

inductive run_reach :: "'s RefillFunc \<Rightarrow> 's run \<Rightarrow> 's run \<Rightarrow> bool" for onDue r0 where
  init: "run_reach onDue r0 r0"
| loop: "run_reach onDue r0 r \<Longrightarrow> loop_step onDue r r' \<Longrightarrow> run_reach onDue r0 r'"
| other: "run_reach onDue r0 r \<Longrightarrow> other_step r r' \<Longrightarrow> run_reach onDue r0 r'"

section \<open>No wake-up is lost\<close>

text \<open>While the loop is about to sleep or asleep with a wait computed at instant \<open>c\<close>,
  every entry that would end the sleep earlier has left a token in the channel.\<close>

definition wait_ok :: "Scheduler \<Rightarrow> gotime \<Rightarrow> duration \<Rightarrow> bool" where
  "wait_ok s c w \<longleftrightarrow> wakeup s \<or> (\<forall>i t. pending s i = Some t \<longrightarrow> c + w \<le> max t c)"

fun phase_ok :: "'s run \<Rightarrow> phase \<Rightarrow> bool" where
  "phase_ok r (Arming c w) = (c \<le> clock r \<and> 0 \<le> w \<and> wait_ok (sched r) c w)"
| "phase_ok r (Waiting c a w) = (c \<le> a \<and> a \<le> clock r \<and> 0 \<le> w \<and> wait_ok (sched r) c w)"
| "phase_ok r (Locking now) = (now \<le> clock r)"
| "phase_ok r (Processing now es) = (now \<le> clock r)"
| "phase_ok r (Returned now i next ok es) = (now \<le> clock r)"
| "phase_ok r _ = True"

definition run_inv :: "'s run \<Rightarrow> bool" where
  "run_inv r \<longleftrightarrow> sched_ok (sched r) \<and> phase_ok r (phase r)"

lemma wait_ok_computed: "sched_ok s \<Longrightarrow> wait_ok s c (nextWait s c)"
  by (simp add: wait_ok_def nextWait_bounds)

lemma wait_ok_Schedule: "sched_ok s \<Longrightarrow> wait_ok (Schedule s i t) c w"
  by (simp add: wait_ok_def Schedule_correct)

lemma wait_ok_Remove: "sched_ok s \<Longrightarrow> wait_ok s c w \<Longrightarrow> wait_ok (sched_Remove s i) c w"
  by (auto simp: wait_ok_def sched_Remove_correct)

lemma phase_ok_sched:
  assumes "phase_ok r p" "\<And>c w. wait_ok (sched r) c w \<Longrightarrow> wait_ok s c w"
  shows "phase_ok (r\<lparr>sched := s\<rparr>) p"
  using assms by (cases p) auto

lemma phase_ok_mono:
  assumes "phase_ok r p" "clock r \<le> clock r'" "sched r' = sched r"
  shows "phase_ok r' p"
  using assms by (cases p) auto

lemma sched_ok_fields [simp]:
  "sched_ok (s\<lparr>wakeup := b\<rparr>) = sched_ok s" "sched_ok (s\<lparr>refillsTotal := n\<rparr>) = sched_ok s"
  by (simp_all add: sched_ok_def)

lemma run_inv_loop:
  assumes "run_inv r" "loop_step onDue r r'"
  shows "run_inv r'"
  using assms(2)
proof (cases rule: loop_step.cases)
  case compute
  with assms(1) show ?thesis by (simp add: run_inv_def wait_ok_computed nextWait_bounds)
next
  case (pop now s1 es)
  with assms(1) popDue_correct [of "sched r" now s1 es] show ?thesis
    by (simp add: run_inv_def popped_ok_def)
next
  case (resched now i nx ok es)
  with assms(1) show ?thesis by (simp add: run_inv_def Schedule_correct)
qed (use assms(1) in \<open>auto simp: run_inv_def\<close>)

lemma run_inv_other:
  assumes "run_inv r" "other_step r r'"
  shows "run_inv r'"
  using assms(2)
proof (cases rule: other_step.cases)
  case (schedule i t)
  with assms(1) show ?thesis
    by (simp add: run_inv_def Schedule_correct phase_ok_sched wait_ok_Schedule)
next
  case (remove i)
  with assms(1) show ?thesis
    by (simp add: run_inv_def sched_Remove_correct phase_ok_sched wait_ok_Remove)
qed (use assms(1) in \<open>auto simp: run_inv_def intro: phase_ok_mono\<close>)

lemma run_reach_inv:
  assumes "run_reach onDue (run_init s now e) r" "sched_ok s"
  shows "run_inv r"
  using assms(1)
proof induction
  case init
  with assms(2) show ?case by (simp add: run_inv_def run_init_def)
qed (blast intro: run_inv_loop run_inv_other)+


text \<open>A run in which the loop goes to sleep for an hour on an empty heap and another
  goroutine then schedules a client.\<close>

definition asleep :: "unit run" where
  "asleep = (run_init sched_New 0 ())\<lparr>phase := Waiting 0 0 Hour\<rparr>"

definition overdue :: "unit run" where
  "overdue = asleep\<lparr>sched := Schedule sched_New ''a'' 5, clock := 7\<rparr>"

lemma asleep_reachable: "run_reach f (run_init sched_New 0 ()) asleep"
proof -
  let ?r = "run_init sched_New 0 ()"
  have "loop_step f ?r (?r\<lparr>phase := Arming 0 Hour\<rparr>)"
    using loop_step.compute [of ?r f] nextWait_bounds(3) [OF sched_New_ok, of 0] by (simp add: run_init_def)
  then have "run_reach f ?r (?r\<lparr>phase := Arming 0 Hour\<rparr>)" by (blast intro: run_reach.intros)
  moreover have "loop_step f (?r\<lparr>phase := Arming 0 Hour\<rparr>) asleep"
    using loop_step.arm [of "?r\<lparr>phase := Arming 0 Hour\<rparr>" 0 Hour f] by (simp add: asleep_def run_init_def)
  ultimately show ?thesis by (rule run_reach.loop)
qed

lemma overdue_reachable: "run_reach f (run_init sched_New 0 ()) overdue"
proof -
  let ?s = "asleep\<lparr>sched := Schedule sched_New ''a'' 5\<rparr>"
  have "other_step asleep ?s"
    using other_step.schedule [of asleep "''a''" 5] by (simp add: asleep_def run_init_def)
  moreover have "other_step ?s overdue"
    using other_step.tick [of 7 ?s] by (simp add: overdue_def asleep_def run_init_def)
  ultimately show ?thesis by (blast intro: asleep_reachable run_reach.other)
qed


end
