(* ===== verification/Float64.thy ===== *)
theory Float64
  imports GoPrelude Complex_Main "HOL-Library.Log_Nat"
begin

text \<open>
  Go's \<^verbatim>\<open>float64\<close> as the components use it: finite values, here rationals, with every
  operation followed by rounding to the nearest number of 53 significant bits, ties to even.
  The modelled code only adds, divides and compares values far from the limits of the
  exponent, so infinities, NaN and subnormal numbers do not arise.

  The contract \<open>rounding\<close> lists what the clients rely on; \<open>rnd\<close> satisfies it.
\<close>

type_synonym float64 = rat

section \<open>Rounding\<close>

definition pow2 :: "int \<Rightarrow> rat" where
  "pow2 e = 2 powi e"

text \<open>The binary exponent of a positive rational, from the bit length of its integer part
  or of the integer part of its inverse.\<close>

definition expo :: "rat \<Rightarrow> int" where
  "expo x = (if 1 \<le> x then int (floorlog 2 (nat \<lfloor>x\<rfloor>)) - 1
             else - int (floorlog 2 (nat (\<lceil>1 / x\<rceil> - 1))))"

definition round_even :: "rat \<Rightarrow> int" where
  "round_even x = (let f = \<lfloor>x\<rfloor>; r = x - of_int f in
     if r < 1 / 2 then f else if r > 1 / 2 then f + 1 else if even f then f else f + 1)"

definition rnd_pos :: "rat \<Rightarrow> rat" where
  "rnd_pos x = (let u = pow2 (expo x - 52) in of_int (round_even (x / u)) * u)"

definition rnd :: "rat \<Rightarrow> float64" where
  "rnd x = (if x = 0 then 0 else if x < 0 then - rnd_pos (- x) else rnd_pos x)"

definition fadd :: "float64 \<Rightarrow> float64 \<Rightarrow> float64" where "fadd a b = rnd (a + b)"
definition fdiv :: "float64 \<Rightarrow> float64 \<Rightarrow> float64" where "fdiv a b = rnd (a / b)"
definition float_of :: "int \<Rightarrow> float64" where "float_of i = rnd (of_int i)"

text \<open>\<^verbatim>\<open>Duration.Seconds\<close>\<close>

definition Seconds :: "duration \<Rightarrow> float64" where
  "Seconds d = fadd (float_of (go_div d Second)) (fdiv (float_of (go_rem d Second)) 1000000000)"

section \<open>The exponent\<close>

lemma pow2_pos [simp]: "0 < pow2 e"
  by (simp add: pow2_def)

lemma pow2_add: "pow2 (a + b) = pow2 a * pow2 b"
  unfolding pow2_def by (rule power_int_add) simp

lemma pow2_1 [simp]: "pow2 0 = 1" "pow2 1 = 2"
  by (simp_all add: pow2_def)

lemma pow2_nat: "pow2 (int n) = 2 ^ n"
  by (simp add: pow2_def)

lemma pow2_mono: "a \<le> b \<Longrightarrow> pow2 a \<le> pow2 b"
proof -
  assume "a \<le> b"
  then obtain n where b: "b = a + int n" by (metis zle_iff_zadd)
  have "pow2 a * 1 \<le> pow2 a * 2 ^ n" by (rule mult_left_mono) (simp_all add: less_imp_le)
  then show ?thesis by (simp add: b pow2_add pow2_nat)
qed

lemma floorlog_rat:
  assumes "0 < (m :: nat)"
  shows "(2 :: rat) ^ (floorlog 2 m - 1) \<le> of_nat m" "of_nat (m + 1) \<le> (2 :: rat) ^ floorlog 2 m" "0 < floorlog 2 m"
proof -
  have b: "2 ^ (floorlog 2 m - 1) \<le> m" "m < 2 ^ floorlog 2 m"
    using floorlog_bounds [of m 2] assms by auto
  then show "(2 :: rat) ^ (floorlog 2 m - 1) \<le> of_nat m" by (metis of_nat_le_iff of_nat_numeral of_nat_power)
  from b(2) have "m + 1 \<le> 2 ^ floorlog 2 m" by simp
  then show "of_nat (m + 1) \<le> (2 :: rat) ^ floorlog 2 m" by (metis of_nat_le_iff of_nat_numeral of_nat_power)
  show "0 < floorlog 2 m" using assms floorlog_eq_zero_iff [of 2 m] by (cases "floorlog 2 m") auto
qed

lemma expo_bounds:
  assumes "0 < x"
  shows "pow2 (expo x) \<le> x" "x < pow2 (expo x + 1)"
proof -
  have "pow2 (expo x) \<le> x \<and> x < pow2 (expo x + 1)"
  proof (cases "1 \<le> x")
    case True
    define m where "m = nat \<lfloor>x\<rfloor>"
    have m: "0 < m" "of_nat m \<le> x" "x < of_nat (m + 1)" using True by (simp_all add: m_def) linarith+
    note F = floorlog_rat [OF m(1)]
    have e: "expo x = int (floorlog 2 m - 1)" using True F(3) by (simp add: expo_def m_def)
    have "pow2 (expo x) \<le> x" using F(1) m(2) unfolding e pow2_nat by (rule order_trans)
    moreover have "expo x + 1 = int (floorlog 2 m)" using F(3) by (simp add: e)
    then have "x < pow2 (expo x + 1)" using F(2) m(3) unfolding pow2_nat by (metis order_less_le_trans pow2_nat)
    ultimately show ?thesis by simp
  next
    case False
    define m where "m = nat (\<lceil>1 / x\<rceil> - 1)"
    have "1 < 1 / x" using False assms by simp
    then have "1 < \<lceil>1 / x\<rceil>" by linarith
    then have m: "0 < m" "int (m + 1) = \<lceil>1 / x\<rceil>" unfolding m_def by linarith+
    then have "of_nat (m + 1) = (of_int \<lceil>1 / x\<rceil> :: rat)" by (metis of_int_of_nat_eq)
    then have y: "of_nat m < 1 / x" "1 / x \<le> of_nat (m + 1)" by linarith+
    note F = floorlog_rat [OF m(1)]
    have e: "expo x = - int (floorlog 2 m)" using False by (simp add: expo_def m_def)
    have p: "pow2 (- int k) = 1 / 2 ^ k" for k by (simp add: pow2_def power_int_minus divide_inverse)
    have "1 / x \<le> 2 ^ floorlog 2 m" using y(2) F(2) by (rule order_trans)
    then have "pow2 (expo x) \<le> x" using assms unfolding e p by (simp add: field_simps)
    moreover have "(2 :: rat) ^ (floorlog 2 m - 1) < 1 / x" using F(1) y(1) by (rule order_le_less_trans)
    then have "x < 1 / 2 ^ (floorlog 2 m - 1)" using assms by (simp add: field_simps)
    moreover have "expo x + 1 = - int (floorlog 2 m - 1)" using F(3) by (simp add: e)
    ultimately show ?thesis using p by metis
  qed
  then show "pow2 (expo x) \<le> x" "x < pow2 (expo x + 1)" by simp_all
qed

section \<open>Rounding is monotone\<close>

lemma round_even_mono: "x \<le> y \<Longrightarrow> round_even x \<le> round_even y"
proof -
  assume xy: "x \<le> y"
  have b: "\<lfloor>z\<rfloor> \<le> round_even z" "round_even z \<le> \<lfloor>z\<rfloor> + 1" for z by (simp_all add: round_even_def Let_def)
  show ?thesis
  proof (cases "\<lfloor>x\<rfloor> = \<lfloor>y\<rfloor>")
    case True
    then show ?thesis using xy by (auto simp: round_even_def Let_def)
  next
    case False
    then have "\<lfloor>x\<rfloor> + 1 \<le> \<lfloor>y\<rfloor>" using floor_mono [OF xy] by simp
    with b(2) [of x] b(1) [of y] show ?thesis by simp
  qed
qed

lemma round_even_int [simp]: "round_even (of_int i) = i"
  by (simp add: round_even_def)

lemma rnd_pos_bounds:
  assumes "0 < x"
  shows "pow2 (expo x) \<le> rnd_pos x" "rnd_pos x \<le> pow2 (expo x + 1)"
proof -
  let ?u = "pow2 (expo x - 52)"
  have u: "pow2 (expo x) = 2 ^ 52 * ?u" "pow2 (expo x + 1) = 2 ^ 53 * ?u"
    using pow2_add [of 52 "expo x - 52"] pow2_add [of 53 "expo x - 52"] pow2_nat [of 52] pow2_nat [of 53]
    by (simp_all add: add.commute)
  have "of_int (2 ^ 52) \<le> x / ?u" "x / ?u \<le> of_int (2 ^ 53)"
    using expo_bounds [OF assms] unfolding u by (simp_all add: pos_le_divide_eq pos_divide_le_eq)
  then have r: "2 ^ 52 \<le> round_even (x / ?u)" "round_even (x / ?u) \<le> 2 ^ 53"
    using round_even_mono [of "of_int (2 ^ 52)" "x / ?u"] round_even_mono [of "x / ?u" "of_int (2 ^ 53)"]
    by (simp_all only: round_even_int)
  have "of_int (2 ^ 52) \<le> (of_int (round_even (x / ?u)) :: rat)" "(of_int (round_even (x / ?u)) :: rat) \<le> of_int (2 ^ 53)"
    using r by (simp_all only: of_int_le_iff)
  then show "pow2 (expo x) \<le> rnd_pos x" "rnd_pos x \<le> pow2 (expo x + 1)"
    unfolding u rnd_pos_def Let_def by (simp_all add: mult_right_mono less_imp_le)
qed

lemma expo_mono:
  assumes "0 < x" "x \<le> y"
  shows "expo x \<le> expo y"
proof (rule ccontr)
  assume "\<not> ?thesis"
  then have "pow2 (expo y + 1) \<le> pow2 (expo x)" by (intro pow2_mono) simp
  with expo_bounds [of x] expo_bounds [of y] assms show False by linarith
qed

lemma rnd_pos_mono:
  assumes "0 < x" "x \<le> y"
  shows "rnd_pos x \<le> rnd_pos y"
proof (cases "expo x = expo y")
  case True
  have "round_even (x / pow2 (expo y - 52)) \<le> round_even (y / pow2 (expo y - 52))"
    using assms(2) by (intro round_even_mono divide_right_mono) (simp_all add: less_imp_le)
  then show ?thesis unfolding rnd_pos_def True Let_def by (simp add: mult_right_mono less_imp_le)
next
  case False
  then have "pow2 (expo x + 1) \<le> pow2 (expo y)" using expo_mono [OF assms] by (intro pow2_mono) simp
  with rnd_pos_bounds(2) [OF assms(1)] rnd_pos_bounds(1) [of y] assms show ?thesis by linarith
qed

lemma rnd_pos_pos: "0 < x \<Longrightarrow> 0 < rnd_pos x"
  using rnd_pos_bounds(1) [of x] pow2_pos [of "expo x"] by linarith

lemma rnd_mono: "x \<le> y \<Longrightarrow> rnd x \<le> rnd y"
  using rnd_pos_mono [of x y] rnd_pos_mono [of "- y" "- x"] rnd_pos_pos [of y] rnd_pos_pos [of "- x"]
  by (auto simp: rnd_def)

lemma expo_unique:
  assumes "pow2 e \<le> x" "x < pow2 (e + 1)"
  shows "expo x = e"
proof -
  have x: "0 < x" using assms(1) pow2_pos [of e] by linarith
  have "\<not> e + 1 \<le> expo x" using pow2_mono [of "e + 1" "expo x"] expo_bounds(1) [OF x] assms(2) by linarith
  moreover have "\<not> expo x + 1 \<le> e" using pow2_mono [of "expo x + 1" e] expo_bounds(2) [OF x] assms(1) by linarith
  ultimately show ?thesis by simp
qed

text \<open>Integers of at most 53 bits are exact.\<close>

lemma rnd_nonneg: "0 \<le> x \<Longrightarrow> 0 \<le> rnd x"
  using rnd_mono [of 0 x] by (simp add: rnd_def)

lemma rnd_pos_scaled:
  assumes "x = of_int m * pow2 (expo x - 52)"
  shows "rnd_pos x = x"
proof -
  have "x / pow2 (expo x - 52) = of_int m"
    using assms pow2_pos [of "expo x - 52"] by (metis less_irrefl nonzero_mult_div_cancel_right)
  then show ?thesis using assms by (simp add: rnd_pos_def Let_def)
qed

lemma rnd_pos_idem:
  assumes "0 < x"
  shows "rnd_pos (rnd_pos x) = rnd_pos x"
proof (cases "rnd_pos x < pow2 (expo x + 1)")
  case True
  have "expo (rnd_pos x) = expo x" by (rule expo_unique [OF rnd_pos_bounds(1) [OF assms] True])
  then show ?thesis by (intro rnd_pos_scaled [of _ "round_even (x / pow2 (expo x - 52))"]) (simp add: rnd_pos_def Let_def)
next
  case False
  then have eq: "rnd_pos x = pow2 (expo x + 1)" using rnd_pos_bounds(2) [OF assms] by simp
  have "pow2 (expo x + 1) < pow2 (expo x + 1 + 1)" using pow2_add [of "expo x + 1" 1] by simp
  then have "expo (rnd_pos x) = expo x + 1" unfolding eq by (intro expo_unique) simp_all
  moreover have "pow2 (expo x + 1) = of_int (2 ^ 52) * pow2 (expo x + 1 - 52)"
    using pow2_add [of 52 "expo x + 1 - 52"] pow2_nat [of 52] by (simp add: add.commute)
  ultimately show ?thesis by (intro rnd_pos_scaled [of _ "2 ^ 52"]) (simp add: eq)
qed

lemma rnd_idem: "rnd (rnd x) = rnd x"
  using rnd_pos_idem [of x] rnd_pos_idem [of "- x"] rnd_pos_pos [of x] rnd_pos_pos [of "- x"]
  by (auto simp: rnd_def)

lemma float_of_exact:
  assumes "0 \<le> i" "i < 2 ^ 53"
  shows "float_of i = of_int i"
proof (cases "i = 0")
  case False
  then have x: "0 < (of_int i :: rat)" using assms(1) by simp
  have "pow2 (expo (of_int i)) < pow2 53"
  proof -
    have "(of_int i :: rat) < of_int (2 ^ 53)" using assms(2) by (simp only: of_int_less_iff)
    then show ?thesis using expo_bounds(1) [OF x] pow2_nat [of 53] by simp
  qed
  then have e: "expo (of_int i) \<le> 52" using pow2_mono [of 53 "expo (of_int i)"] by force
  let ?k = "nat (52 - expo (of_int i))"
  have "pow2 (expo (of_int i) - 52) * 2 ^ ?k = pow2 0"
  proof -
    have "pow2 (expo (of_int i) - 52) * pow2 (int ?k) = pow2 0"
      unfolding pow2_add [symmetric] using e by simp
    then show ?thesis by (simp only: pow2_nat)
  qed
  then have "(of_int i :: rat) = of_int (i * 2 ^ ?k) * pow2 (expo (of_int i) - 52)" by (simp add: mult.commute mult.left_commute)
  then have "rnd_pos (of_int i) = of_int i" by (rule rnd_pos_scaled)
  with x show ?thesis by (simp add: float_of_def rnd_def)
qed (simp add: float_of_def rnd_def)

section \<open>What clients rely on\<close>

locale rounding =
  fixes r :: "rat \<Rightarrow> rat"
  assumes mono: "x \<le> y \<Longrightarrow> r x \<le> r y"
    and zero: "r 0 = 0"
begin

lemma nonneg: "0 \<le> x \<Longrightarrow> 0 \<le> r x"
  using mono [of 0 x] zero by simp

lemma quotient_antimono: "0 \<le> a \<Longrightarrow> 0 < b \<Longrightarrow> b \<le> c \<Longrightarrow> r (a / c) \<le> r (a / b)"
  by (intro mono divide_left_mono) auto

lemma sum_mono: "a \<le> a' \<Longrightarrow> b \<le> b' \<Longrightarrow> r (a + b) \<le> r (a' + b')"
  by (intro mono add_mono)

end

interpretation rd: rounding rnd
  by unfold_locales (rule rnd_mono, assumption, simp add: rnd_def)

lemma fadd_nonneg_mono: "0 \<le> a \<Longrightarrow> 0 \<le> b \<Longrightarrow> 0 \<le> fadd a b"
  by (simp add: fadd_def rd.nonneg)

end
