(* ===== verification/Metrics.thy ===== *)
theory Metrics
  imports Float64
begin

text \<open>
  The metrics registry (\<^verbatim>\<open>internal/metrics/metrics.go\<close>): counters with one label, gauges
  and the fixed-bucket latency histogram.  \<open>Exposition\<close> renders them as text.
\<close>

section \<open>Counters and gauges\<close>

record Counter =
  counter_name :: string
  counter_help :: string
  vals :: "(string, int64) gomap"

definition newCounter :: "string \<Rightarrow> string \<Rightarrow> Counter" where
  "newCounter name help = \<lparr>counter_name = name, counter_help = help, vals = []\<rparr>"

definition Inc :: "Counter \<Rightarrow> string \<Rightarrow> Counter" where
  "Inc c label =
     (case gm_lookup (vals c) label of
        Some v \<Rightarrow> c\<lparr>vals := gm_set label (i64 (v + 1)) (vals c)\<rparr>
      | None \<Rightarrow> c\<lparr>vals := gm_set label 1 (vals c)\<rparr>)"

record Gauge =
  gauge_name :: string
  gauge_help :: string
  gauge_v :: int64

definition newGauge :: "string \<Rightarrow> string \<Rightarrow> Gauge" where
  "newGauge name help = \<lparr>gauge_name = name, gauge_help = help, gauge_v = 0\<rparr>"

definition gauge_Set :: "Gauge \<Rightarrow> int64 \<Rightarrow> Gauge" where
  "gauge_Set g v = g\<lparr>gauge_v := v\<rparr>"

definition gauge_Add :: "Gauge \<Rightarrow> int64 \<Rightarrow> Gauge" where
  "gauge_Add g delta = g\<lparr>gauge_v := i64 (gauge_v g + delta)\<rparr>"

section \<open>The histogram\<close>

definition histogramBuckets :: "float64 list" where
  "histogramBuckets = map rnd [5 / 100000, 1 / 10000, 5 / 10000, 1 / 1000, 5 / 1000, 1 / 100, 5 / 100, 1 / 10, 5 / 10, 1]"

record Histogram =
  hist_name :: string
  hist_help :: string
  hist_buckets :: "int64 list"
  hist_sum :: float64
  hist_count :: int64

definition newHistogram :: "string \<Rightarrow> string \<Rightarrow> Histogram" where
  "newHistogram name help = \<lparr>hist_name = name, hist_help = help,
     hist_buckets = replicate (length histogramBuckets) 0, hist_sum = 0, hist_count = 0\<rparr>"

definition Observe :: "Histogram \<Rightarrow> float64 \<Rightarrow> Histogram" where
  "Observe h s = h\<lparr>hist_sum := fadd (hist_sum h) s, hist_count := i64 (hist_count h + 1),
     hist_buckets := map2 (\<lambda>upper n. if s \<le> upper then i64 (n + 1) else n) histogramBuckets (hist_buckets h)\<rparr>"

section \<open>The registry\<close>

record Registry =
  RequestsTotal :: Counter
  RequestLatency :: Histogram
  ActiveClientsGauge :: Gauge
  SchedulerRefills :: Gauge
  SchedulerHeapSize :: Gauge
  EvictionsTotal :: Gauge
  AdminChangesTotal :: Counter
  decisionLabel :: string
  actionLabel :: string

definition NewRegistry :: Registry where
  "NewRegistry = \<lparr>
     RequestsTotal = newCounter ''sentinel_requests_total'' ''Total rate-limit decisions made.'',
     RequestLatency = newHistogram ''sentinel_request_latency_seconds'' ''Decision latency in seconds.'',
     ActiveClientsGauge = newGauge ''sentinel_active_clients'' ''Number of currently tracked clients.'',
     SchedulerRefills = newGauge ''sentinel_scheduler_refills_total'' ''Cumulative scheduled refills processed.'',
     SchedulerHeapSize = newGauge ''sentinel_scheduler_heap_size'' ''Current number of scheduled refill entries.'',
     EvictionsTotal = newGauge ''sentinel_evictions_total'' ''Cumulative LRU client evictions.'',
     AdminChangesTotal = newCounter ''sentinel_admin_changes_total'' ''Total admin API mutations.'',
     decisionLabel = ''decision'', actionLabel = ''action''\<rparr>"

section \<open>Properties\<close>

definition count_of :: "Counter \<Rightarrow> string \<Rightarrow> int64" where
  "count_of c label = (case gm_lookup (vals c) label of Some v \<Rightarrow> v | None \<Rightarrow> 0)"

lemma count_of_Inc:
  "is_i64 (count_of c label + 1) \<Longrightarrow>
   count_of (Inc c label) l = count_of c l + (if l = label then 1 else 0)"
  by (auto simp: count_of_def Inc_def gm_lookup_set i64_id split: option.splits)

lemma histogramBuckets_sorted: "sorted histogramBuckets"
proof -
  have "sorted (map rnd qs)" if "sorted qs" for qs
    using that by (induction qs) (auto intro: rd.mono)
  note this [of "[5 / 100000, 1 / 10000, 5 / 10000, 1 / 1000, 5 / 1000, 1 / 100, 5 / 100, 1 / 10, 5 / 10, 1]"]
  then show ?thesis unfolding histogramBuckets_def by simp
qed

lemma length_histogramBuckets: "length histogramBuckets = 10"
  by (simp add: histogramBuckets_def)

definition below :: "float64 list \<Rightarrow> float64 \<Rightarrow> int" where
  "below xs u = int (length (filter (\<lambda>x. x \<le> u) xs))"

lemma Observe_counts:
  assumes "hist_buckets h = map (below xs) histogramBuckets" "hist_count h = int (length xs)"
    "int (length xs) < max_i64"
  shows "hist_buckets (Observe h x) = map (below (xs @ [x])) histogramBuckets"
    "hist_count (Observe h x) = int (length (xs @ [x]))"
proof -
  have "i64 (below xs u + 1) = below xs u + 1" for u
    using length_filter_le [of "\<lambda>x. x \<le> u" xs] assms(3)
    unfolding below_def max_i64_def by (intro i64_id is_i64I) linarith+
  then have "map2 (\<lambda>u n. if x \<le> u then i64 (n + 1) else n) us (map (below xs) us) = map (below (xs @ [x])) us" for us
    by (induction us) (auto simp: below_def)
  then show "hist_buckets (Observe h x) = map (below (xs @ [x])) histogramBuckets"
    using assms(1) by (simp add: Observe_def)
  show "hist_count (Observe h x) = int (length (xs @ [x]))"
    using assms(2,3) by (simp add: Observe_def i64_id is_i64_def max_i64_def)
qed

lemma observe_all:
  "int (length xs) \<le> max_i64 \<Longrightarrow>
   hist_buckets (fold (\<lambda>x h. Observe h x) xs (newHistogram n d)) = map (below xs) histogramBuckets
   \<and> hist_count (fold (\<lambda>x h. Observe h x) xs (newHistogram n d)) = int (length xs)"
proof (induction xs rule: rev_induct)
  case Nil
  then show ?case by (simp add: newHistogram_def below_def map_replicate_const)
next
  case (snoc x xs)
  then show ?case
    using Observe_counts [of "fold (\<lambda>x h. Observe h x) xs (newHistogram n d)" xs x] by simp
qed

text \<open>
  The histogram is cumulative.  After any number of observations that a 64-bit counter can
  count, every bucket holds exactly the number of samples at or below its bound, so the
  buckets never decrease from one bound to the next and never exceed the total count, which
  is the number of observations.
\<close>

theorem histogram_cumulative:
  assumes "int (length xs) \<le> max_i64" "h = fold (\<lambda>x h. Observe h x) xs (newHistogram n d)"
  shows "length (hist_buckets h) = length histogramBuckets
    \<and> (\<forall>i<length histogramBuckets. hist_buckets h ! i = int (length (filter (\<lambda>x. x \<le> histogramBuckets ! i) xs)))
    \<and> sorted (hist_buckets h) \<and> (\<forall>c\<in>set (hist_buckets h). 0 \<le> c \<and> c \<le> hist_count h)
    \<and> hist_count h = int (length xs)"
proof -
  have H: "hist_buckets h = map (below xs) histogramBuckets" "hist_count h = int (length xs)"
    using observe_all [OF assms(1)] assms(2) by simp_all
  have mono: "below xs u \<le> below xs v" if "u \<le> v" for u v
    unfolding below_def using that
    by (induction xs) auto
  have "sorted (map (below xs) us)" if "sorted us" for us
    using that by (induction us) (auto intro: mono)
  then have "sorted (hist_buckets h)" using H(1) histogramBuckets_sorted by simp
  with H show ?thesis by (auto simp: below_def)
qed

theorem histogram_cumulative_witness:
  "hist_count (fold (\<lambda>x h. Observe h x) [1 / 2, 3, 1 / 1000] (newHistogram ''n'' ''h'')) = 3
   \<and> sorted (hist_buckets (fold (\<lambda>x h. Observe h x) [1 / 2, 3, 1 / 1000] (newHistogram ''n'' ''h'')))"
  using histogram_cumulative [of "[1 / 2, 3, 1 / 1000]" _ "''n''" "''h''", OF _ refl] by (simp add: max_i64_def)

end
