(* ===== verification/GoStrings.thy ===== *)
theory GoStrings
  imports GoPrelude
begin

text \<open>
  Go strings: byte sequences, here lists of \<^typ>\<open>char\<close> (a \<^typ>\<open>char\<close> is one of 256 bytes), with
  the functions of \<^verbatim>\<open>strings\<close>, \<^verbatim>\<open>unicode/utf8\<close> and \<^verbatim>\<open>net\<close> that the
  components use.  A \<^verbatim>\<open>range\<close> loop over a string visits the runes that
  \<open>decode_rune\<close> finds; a byte that starts no valid encoding is the rune U+FFFD, one byte
  wide.
\<close>

section \<open>Bytes\<close>

definition byte :: "char \<Rightarrow> nat" where
  "byte c = of_char c"

definition chr :: "nat \<Rightarrow> char" where
  "chr n = char_of n"

lemma byte_less [simp]: "byte c < 256"
  by (simp add: byte_def)

lemma byte_chr [simp]: "byte (chr n) = n mod 256"
  by (simp add: byte_def chr_def)

lemma chr_byte [simp]: "chr (byte c) = c"
  by (simp add: byte_def chr_def)

lemma byte_inject [simp]: "byte c = byte d \<longleftrightarrow> c = d"
  by (metis chr_byte)

section \<open>UTF-8\<close>

definition RuneError :: nat where
  "RuneError = 65533"

definition cont :: "nat \<Rightarrow> nat \<Rightarrow> nat \<Rightarrow> bool" where
  "cont lo hi b \<longleftrightarrow> lo \<le> b \<and> b \<le> hi"

text \<open>For a leading byte of a multi-byte encoding: its length and the range of the second
  byte, which rules out overlong encodings, surrogates and values past U+10FFFF.\<close>

definition lead :: "nat \<Rightarrow> (nat \<times> nat \<times> nat) option" where
  "lead b =
     (if 194 \<le> b \<and> b \<le> 223 then Some (2, 128, 191)
      else if b = 224 then Some (3, 160, 191)
      else if b = 237 then Some (3, 128, 159)
      else if 225 \<le> b \<and> b \<le> 239 then Some (3, 128, 191)
      else if b = 240 then Some (4, 144, 191)
      else if 241 \<le> b \<and> b \<le> 243 then Some (4, 128, 191)
      else if b = 244 then Some (4, 128, 143)
      else None)"

text \<open>\<^verbatim>\<open>utf8.DecodeRuneInString\<close>: the rune and its width.\<close>

definition decode_rune :: "string \<Rightarrow> nat \<times> nat" where
  "decode_rune s =
     (case map byte s of
        [] \<Rightarrow> (RuneError, 0)
      | b0 # bs \<Rightarrow>
          if b0 < 128 then (b0, 1)
          else (case lead b0 of
                  None \<Rightarrow> (RuneError, 1)
                | Some (n, lo, hi) \<Rightarrow>
                    (case bs of
                       [] \<Rightarrow> (RuneError, 1)
                     | b1 # bs1 \<Rightarrow>
                         if \<not> cont lo hi b1 then (RuneError, 1)
                         else if n = 2 then ((b0 mod 32) * 64 + b1 mod 64, 2)
                         else (case bs1 of
                                 [] \<Rightarrow> (RuneError, 1)
                               | b2 # bs2 \<Rightarrow>
                                   if \<not> cont 128 191 b2 then (RuneError, 1)
                                   else if n = 3 then ((b0 mod 16) * 4096 + (b1 mod 64) * 64 + b2 mod 64, 3)
                                   else (case bs2 of
                                           [] \<Rightarrow> (RuneError, 1)
                                         | b3 # _ \<Rightarrow>
                                             if \<not> cont 128 191 b3 then (RuneError, 1)
                                             else ((b0 mod 8) * 262144 + (b1 mod 64) * 4096
                                                   + (b2 mod 64) * 64 + b3 mod 64, 4))))))"

text \<open>\<^verbatim>\<open>utf8.AppendRune\<close> on a rune that \<open>decode_rune\<close> returned.\<close>

definition encode_rune :: "nat \<Rightarrow> string" where
  "encode_rune r =
     (if r < 128 then [chr r]
      else if r < 2048 then [chr (192 + r div 64), chr (128 + r mod 64)]
      else if r < 65536 then [chr (224 + r div 4096), chr (128 + r div 64 mod 64), chr (128 + r mod 64)]
      else [chr (240 + r div 262144), chr (128 + r div 4096 mod 64), chr (128 + r div 64 mod 64),
            chr (128 + r mod 64)])"

lemma lead_length: "lead b = Some (n, lo, hi) \<Longrightarrow> 2 \<le> n"
  by (auto simp: lead_def split: if_splits)

lemma decode_rune_width:
  assumes "s \<noteq> []"
  shows "1 \<le> snd (decode_rune s)"
  using assms
  by (auto simp: decode_rune_def split: list.splits option.splits if_splits)

lemma decode_rune_bound: "fst (decode_rune s) < 2097152"
proof -
  have m: "x mod 64 < 64" "x mod 8 < 8" "x mod 16 < 16" "x mod 32 < 32" for x :: nat by simp_all
  have "(b0 mod 8) * 262144 + (b1 mod 64) * 4096 + (b2 mod 64) * 64 + b3 mod 64 < 2097152"
    "(b0 mod 16) * 4096 + (b1 mod 64) * 64 + b2 mod 64 < 2097152"
    "(b0 mod 32) * 64 + b1 mod 64 < 2097152" for b0 b1 b2 b3 :: nat
    using m(1) [of b1] m(1) [of b2] m(1) [of b3] m(2) [of b0] m(3) [of b0] m(4) [of b0] by linarith+
  then show ?thesis
    by (auto simp: decode_rune_def RuneError_def split: list.splits option.splits if_splits)
qed

lemma encode_rune_length: "1 \<le> length (encode_rune r)" "length (encode_rune r) \<le> 4"
  by (simp_all add: encode_rune_def)

lemma decode_rune_ascii: "byte c < 128 \<Longrightarrow> decode_rune (c # s) = (byte c, 1)"
  by (simp add: decode_rune_def)

lemma encode_rune_ascii: "r < 128 \<Longrightarrow> encode_rune r = [chr r]"
  by (simp add: encode_rune_def)

text \<open>Every byte of the encoding of a rune that is no ASCII character has its top bit set.\<close>

lemma encode_rune_high:
  assumes "128 \<le> r" "r < 2097152" "c \<in> set (encode_rune r)"
  shows "128 \<le> byte c"
proof -
  have "r div 64 < 32" if "r < 2048" using that by (simp add: div_less_iff_less_mult)
  moreover have "r div 4096 < 16" if "r < 65536" using that by (simp add: div_less_iff_less_mult)
  moreover have "r div 262144 < 8" using assms(2) by (simp add: div_less_iff_less_mult)
  ultimately show ?thesis
    using assms(1,3) by (auto simp: encode_rune_def mod_less split: if_splits)
qed

section \<open>Searching and trimming\<close>

fun last_index :: "char \<Rightarrow> string \<Rightarrow> nat option" where
  "last_index c [] = None"
| "last_index c (x # xs) =
     (case last_index c xs of Some i \<Rightarrow> Some (Suc i) | None \<Rightarrow> if x = c then Some 0 else None)"

fun first_index :: "char \<Rightarrow> string \<Rightarrow> nat option" where
  "first_index c [] = None"
| "first_index c (x # xs) = (if x = c then Some 0 else map_option Suc (first_index c xs))"

text \<open>The part before the first separator: \<^verbatim>\<open>strings.Split(s, sep)[0]\<close>.\<close>

definition before_first :: "char \<Rightarrow> string \<Rightarrow> string" where
  "before_first c s = takeWhile (\<lambda>x. x \<noteq> c) s"

text \<open>The encodings of the runes for which \<^verbatim>\<open>unicode.IsSpace\<close> holds.\<close>

definition space_encodings :: "string list" where
  "space_encodings = map (map chr)
     ([[9], [10], [11], [12], [13], [32], [194, 133], [194, 160], [225, 154, 128]]
      @ map (\<lambda>b. [226, 128, b]) ([128..<139] @ [168, 169, 175])
      @ [[226, 129, 159], [227, 128, 128]])"

definition strip_one :: "string list \<Rightarrow> string \<Rightarrow> string option" where
  "strip_one ps s = map_option (\<lambda>p. drop (length p) s) (find (\<lambda>p. p \<noteq> [] \<and> take (length p) s = p) ps)"

lemma strip_one_shorter: "strip_one ps s = Some s' \<Longrightarrow> length s' < length s"
  by (auto simp: strip_one_def find_Some_iff) (metis diff_less length_greater_0_conv take_eq_Nil)

function strip :: "string list \<Rightarrow> string \<Rightarrow> string" where
  "strip ps s = (case strip_one ps s of None \<Rightarrow> s | Some s' \<Rightarrow> strip ps s')"
  by pat_completeness auto
termination
  by (relation "measure (\<lambda>(ps, s). length s)") (auto dest: strip_one_shorter)

declare strip.simps [simp del]

text \<open>\<^verbatim>\<open>strings.TrimSpace\<close>: the right end is trimmed as the left end of the reversed
  string.\<close>

definition TrimSpace :: "string \<Rightarrow> string" where
  "TrimSpace s = rev (strip (map rev space_encodings) (rev (strip space_encodings s)))"

section \<open>Host and port\<close>

text \<open>\<^verbatim>\<open>net.SplitHostPort\<close>; \<open>None\<close> is an error.\<close>

definition SplitHostPort :: "string \<Rightarrow> (string \<times> string) option" where
  "SplitHostPort hp =
     (case last_index CHR '':'' hp of
        None \<Rightarrow> None
      | Some i \<Rightarrow>
          let result = (\<lambda>host j k.
                if CHR ''['' \<in> set (drop j hp) \<or> CHR '']'' \<in> set (drop k hp) then None
                else Some (host, drop (i + 1) hp))
          in if hd hp = CHR ''[''
             then (case first_index CHR '']'' hp of
                     None \<Rightarrow> None
                   | Some e \<Rightarrow> if e + 1 = i then result (drop 1 (take e hp)) 1 (e + 1) else None)
             else (if CHR '':'' \<in> set (take i hp) then None else result (take i hp) 0 0))"

lemma last_index_append:
  "last_index c (xs @ c # ys) = Some (length xs)" if "c \<notin> set ys"
proof -
  have "last_index c ys = None" using that by (induction ys) auto
  then show ?thesis by (induction xs) simp_all
qed

lemma first_index_append: "c \<notin> set xs \<Longrightarrow> first_index c (xs @ c # ys) = Some (length xs)"
  by (induction xs) auto

lemma SplitHostPort_plain:
  assumes "CHR '':'' \<notin> set h" "CHR ''['' \<notin> set h" "CHR '']'' \<notin> set h" "h \<noteq> []"
    "CHR '':'' \<notin> set p" "CHR ''['' \<notin> set p" "CHR '']'' \<notin> set p"
  shows "SplitHostPort (h @ '':'' @ p) = Some (h, p)"
proof -
  have "last_index CHR '':'' (h @ '':'' @ p) = Some (length h)"
    using last_index_append [of "CHR '':''" p h] assms(5) by simp
  moreover have "hd (h @ '':'' @ p) \<noteq> CHR ''[''" using assms(2,4) by (cases h) auto
  ultimately show ?thesis using assms by (simp add: SplitHostPort_def Let_def)
qed

lemma SplitHostPort_bracket:
  assumes "CHR ''['' \<notin> set h" "CHR '']'' \<notin> set h" "CHR '':'' \<notin> set p" "CHR ''['' \<notin> set p" "CHR '']'' \<notin> set p"
  shows "SplitHostPort (''['' @ h @ '']:'' @ p) = Some (h, p)"
proof -
  have "last_index CHR '':'' ((''['' @ h @ '']'') @ CHR '':'' # p) = Some (length (''['' @ h @ '']''))"
    by (rule last_index_append [OF assms(3)])
  moreover have "first_index CHR '']'' ((''['' @ h) @ CHR '']'' # '':'' @ p) = Some (length (''['' @ h))"
    using assms(2) by (intro first_index_append) auto
  ultimately show ?thesis using assms by (simp add: SplitHostPort_def Let_def)
qed

end
