(* ===== verification/Config.thy ===== *)
theory Config
  imports GoStrings Float64
begin

text \<open>
  The configuration (\<^verbatim>\<open>internal/config/config.go\<close>): its schema and defaults, the parser for
  an indentation-based subset of YAML, the overlay of a file on the defaults, and validation.

  A file is a string of bytes; the file system is an argument that says what opening a path
  gives.  A floating-point setting can be an infinity or NaN, which \<^verbatim>\<open>strconv.ParseFloat\<close>
  accepts by name.
\<close>

section \<open>Schema and defaults\<close>

datatype gofloat = Finite float64 | Infinite bool | NaN

record TLSConfig =
  CertFile :: string
  KeyFile :: string
  ClientCAFile :: string

record ServerConfig =
  ClientPort :: int
  AdminPort :: int
  TLS :: TLSConfig
  AdminTLS :: TLSConfig

record SlidingWindowDefaults =
  swEnabled :: bool
  swWindowDuration :: duration
  swMaxRequests :: int64
  swBufferSize :: int

record BucketDefaults =
  bdMaxTokens :: int64
  bdRefillRate :: int64
  bdRefillInterval :: duration
  bdTokensPerRequest :: int64
  bdSlidingWindow :: "SlidingWindowDefaults option"

record Limits =
  limMaxClients :: int
  limMaxAPIKeyLength :: int
  limMinRefillInterval :: duration
  limMaxRefillInterval :: duration

record SecurityConfig =
  secAdminTokenHash :: string
  secAdminTokenSalt :: string
  secIdentityMode :: string
  secTrustProxyHeaders :: bool
  secEnableIPSecondaryLimit :: bool
  secIPMaxTokens :: int64
  secIPRefillRate :: int64
  secIPRefillInterval :: duration

record Logging =
  logLevel :: string
  logAuditFile :: string
  logRequestSampleRate :: gofloat

record MetricsConfig =
  metEnabled :: bool
  metPort :: int

record FairnessConfig =
  fairEnabled :: bool
  fairDefaultWeight :: gofloat

record GlobalConfig =
  gloEnabled :: bool
  gloMaxTokens :: int64
  gloRefillRate :: int64
  gloRefillInterval :: duration

record Config =
  Server :: ServerConfig
  Defaults :: BucketDefaults
  LimitsSec :: Limits
  SecuritySec :: SecurityConfig
  LoggingSec :: Logging
  MetricsSec :: MetricsConfig
  FairnessSec :: FairnessConfig
  GlobalSec :: GlobalConfig
  TiersSec :: "(string, BucketDefaults) gomap"

definition noTLS :: TLSConfig where
  "noTLS = \<lparr>CertFile = [], KeyFile = [], ClientCAFile = []\<rparr>"

definition Default :: Config where
  "Default = \<lparr>
     Server = \<lparr>ClientPort = 8080, AdminPort = 9090, TLS = noTLS, AdminTLS = noTLS\<rparr>,
     Defaults = \<lparr>bdMaxTokens = 100, bdRefillRate = 10, bdRefillInterval = Second, bdTokensPerRequest = 1,
                 bdSlidingWindow = None\<rparr>,
     LimitsSec = \<lparr>limMaxClients = 100000, limMaxAPIKeyLength = 128,
                  limMinRefillInterval = 10 * Millisecond, limMaxRefillInterval = Hour\<rparr>,
     SecuritySec = \<lparr>secAdminTokenHash = [], secAdminTokenSalt = [],
                    secIdentityMode = ''api_key_with_ip_fallback'', secTrustProxyHeaders = False,
                    secEnableIPSecondaryLimit = False, secIPMaxTokens = 1000, secIPRefillRate = 1000,
                    secIPRefillInterval = Second\<rparr>,
     LoggingSec = \<lparr>logLevel = ''info'', logAuditFile = [], logRequestSampleRate = Finite (rnd (1 / 100))\<rparr>,
     MetricsSec = \<lparr>metEnabled = True, metPort = 9100\<rparr>,
     FairnessSec = \<lparr>fairEnabled = False, fairDefaultWeight = Finite 1\<rparr>,
     GlobalSec = \<lparr>gloEnabled = False, gloMaxTokens = 0, gloRefillRate = 0, gloRefillInterval = 0\<rparr>,
     TiersSec = []\<rparr>"

section \<open>The tree\<close>

datatype yaml = Scalar string | Section "(string \<times> yaml) list"

type_synonym node = "(string, yaml) gomap"

definition child :: "node \<Rightarrow> string \<Rightarrow> node option" where
  "child n key = (case gm_lookup n key of Some (Section c) \<Rightarrow> Some c | _ \<Rightarrow> None)"

definition scalar :: "node \<Rightarrow> string \<Rightarrow> string option" where
  "scalar n key = (case gm_lookup n key of Some (Scalar s) \<Rightarrow> Some s | _ \<Rightarrow> None)"

definition node_str :: "node \<Rightarrow> string \<Rightarrow> string \<Rightarrow> string" where
  "node_str n key def = (case scalar n key of Some s \<Rightarrow> s | None \<Rightarrow> def)"

definition or_default :: "'a \<Rightarrow> (string \<Rightarrow> 'a option) \<Rightarrow> string option \<Rightarrow> 'a" where
  "or_default def parse so = (case so of None \<Rightarrow> def | Some s \<Rightarrow> (case parse s of Some v \<Rightarrow> v | None \<Rightarrow> def))"

text \<open>\<^verbatim>\<open>strconv.ParseInt(s, 10, 64)\<close>\<close>

definition digit :: "char \<Rightarrow> bool" where
  "digit c \<longleftrightarrow> 48 \<le> byte c \<and> byte c \<le> 57"

definition digit_val :: "char \<Rightarrow> nat" where
  "digit_val c = byte c - 48"

definition digits_val :: "string \<Rightarrow> nat" where
  "digits_val ds = fold (\<lambda>c v. v * 10 + digit_val c) ds 0"

definition sign_of :: "string \<Rightarrow> bool \<times> string" where
  "sign_of s = (case s of c # cs \<Rightarrow> if c = CHR ''-'' then (True, cs) else if c = CHR ''+'' then (False, cs) else (False, s)
                 | [] \<Rightarrow> (False, []))"

definition ParseInt :: "string \<Rightarrow> int64 option" where
  "ParseInt s =
     (let (neg, ds) = sign_of s
      in if ds = [] \<or> \<not> list_all digit ds then None
         else let v = (if neg then - int (digits_val ds) else int (digits_val ds))
              in if is_i64 v then Some v else None)"

text \<open>\<^verbatim>\<open>strconv.ParseBool\<close>\<close>

definition ParseBool :: "string \<Rightarrow> bool option" where
  "ParseBool s =
     (if s \<in> {''1'', ''t'', ''T'', ''true'', ''TRUE'', ''True''} then Some True
      else if s \<in> {''0'', ''f'', ''F'', ''false'', ''FALSE'', ''False''} then Some False
      else None)"

definition node_i64 :: "node \<Rightarrow> string \<Rightarrow> int64 \<Rightarrow> int64" where
  "node_i64 n key def = or_default def ParseInt (scalar n key)"

definition node_i :: "node \<Rightarrow> string \<Rightarrow> int \<Rightarrow> int" where
  "node_i n key def = node_i64 n key def"

text \<open>\<^verbatim>\<open>strconv.ParseFloat(s, 64)\<close>: the names of the special values, then decimal and
  hexadecimal literals (\<^verbatim>\<open>readFloat\<close>).  Underscores are dropped and their places checked
  afterwards.\<close>

definition lower :: "char \<Rightarrow> char" where
  "lower c = (if 65 \<le> byte c \<and> byte c \<le> 90 then chr (byte c + 32) else c)"

definition special :: "string \<Rightarrow> gofloat option" where
  "special s =
     (let (neg, r) = sign_of s in
      if map lower r = ''inf'' \<or> map lower r = ''infinity'' then Some (Infinite neg)
      else if map lower s = ''nan'' then Some NaN
      else None)"

definition hex_digit :: "char \<Rightarrow> bool" where
  "hex_digit c \<longleftrightarrow> digit c \<or> 97 \<le> byte (lower c) \<and> byte (lower c) \<le> 102"

definition hex_val :: "char \<Rightarrow> nat" where
  "hex_val c = (if digit c then digit_val c else byte (lower c) - 87)"

definition mantissa_val :: "nat \<Rightarrow> string \<Rightarrow> nat" where
  "mantissa_val b ds = fold (\<lambda>c v. v * b + hex_val c) (filter (\<lambda>c. c \<noteq> CHR ''_'') ds) 0"

fun underscoreOK_from :: "bool \<Rightarrow> char \<Rightarrow> string \<Rightarrow> bool" where
  "underscoreOK_from hex saw [] \<longleftrightarrow> saw \<noteq> CHR ''_''"
| "underscoreOK_from hex saw (c # cs) \<longleftrightarrow>
     (if digit c \<or> hex \<and> hex_digit c then underscoreOK_from hex CHR ''0'' cs
      else if c = CHR ''_'' then saw = CHR ''0'' \<and> underscoreOK_from hex CHR ''_'' cs
      else saw \<noteq> CHR ''_'' \<and> underscoreOK_from hex CHR ''!'' cs)"

definition hex_prefix :: "string \<Rightarrow> bool" where
  "hex_prefix s \<longleftrightarrow> (case s of z # x # _ # _ \<Rightarrow> z = CHR ''0'' \<and> lower x = CHR ''x'' | _ \<Rightarrow> False)"

text \<open>The exponent that follows a mantissa, \<open>None\<close> when it is malformed or something is left
  over; only a decimal literal may leave it out.\<close>

definition read_exponent :: "bool \<Rightarrow> string \<Rightarrow> int option" where
  "read_exponent hex s =
     (case s of
        [] \<Rightarrow> if hex then None else Some 0
      | c # cs \<Rightarrow>
          if lower c \<noteq> (if hex then CHR ''p'' else CHR ''e'') then None
          else let (neg, ds) = sign_of cs in
               if ds = [] \<or> \<not> digit (hd ds) \<or> \<not> list_all (\<lambda>d. digit d \<or> d = CHR ''_'') ds then None
               else Some (if neg then - int (mantissa_val 10 ds) else int (mantissa_val 10 ds)))"

definition readFloat :: "string \<Rightarrow> rat option" where
  "readFloat s0 =
     (let (neg, s) = sign_of s0; hex = hex_prefix s; body = (if hex then drop 2 s else s);
          d = (\<lambda>c. c = CHR ''_'' \<or> (if hex then hex_digit c else digit c)); b = (if hex then 16 else 10 :: nat);
          ip = takeWhile d body; r1 = dropWhile d body;
          (fp, r2) = (if r1 \<noteq> [] \<and> hd r1 = CHR ''.'' then (takeWhile d (tl r1), dropWhile d (tl r1)) else ([], r1))
      in if list_all (\<lambda>c. c = CHR ''_'') (ip @ fp) then None
         else case read_exponent hex r2 of
                None \<Rightarrow> None
              | Some e \<Rightarrow>
                  if CHR ''_'' \<in> set s \<and> \<not> underscoreOK_from hex (if hex then CHR ''0'' else CHR ''^'') body then None
                  else let m = of_nat (mantissa_val b (ip @ fp)) / of_nat b ^ length (filter (\<lambda>c. c \<noteq> CHR ''_'') fp);
                           v = m * (if hex then 2 else 10) powi e
                       in Some (if neg then - v else v))"

definition to_float64 :: "rat \<Rightarrow> float64 option" where
  "to_float64 v =
     (let r = (if \<bar>v\<bar> < pow2 (-1022) then of_int (round_even (v / pow2 (-1074))) * pow2 (-1074) else rnd v)
      in if \<bar>r\<bar> < pow2 1024 then Some r else None)"

definition ParseFloat :: "string \<Rightarrow> gofloat option" where
  "ParseFloat s =
     (case special s of
        Some v \<Rightarrow> Some v
      | None \<Rightarrow> (case readFloat s of None \<Rightarrow> None | Some v \<Rightarrow> map_option Finite (to_float64 v)))"

definition node_f64 :: "node \<Rightarrow> string \<Rightarrow> gofloat \<Rightarrow> gofloat" where
  "node_f64 n key def = or_default def ParseFloat (scalar n key)"

definition node_b :: "node \<Rightarrow> string \<Rightarrow> bool \<Rightarrow> bool" where
  "node_b n key def = or_default def ParseBool (scalar n key)"

section \<open>Durations\<close>

text \<open>\<^verbatim>\<open>time.ParseDuration\<close>.  Unsigned 64-bit arithmetic with its overflow checks; the
  fractional part is converted through floating point.\<close>

definition unit_of :: "string \<Rightarrow> int option" where
  "unit_of u =
     (if u = ''ns'' then Some 1
      else if u = ''us'' \<or> u = [chr 194, chr 181, CHR ''s''] \<or> u = [chr 206, chr 188, CHR ''s''] then Some 1000
      else if u = ''ms'' then Some 1000000
      else if u = ''s'' then Some 1000000000
      else if u = ''m'' then Some 60000000000
      else if u = ''h'' then Some 3600000000000
      else None)"

definition two63 :: int where
  "two63 = 9223372036854775808"

text \<open>\<^verbatim>\<open>leadingInt\<close> fails on values above 2^63; \<^verbatim>\<open>leadingFraction\<close> ignores the digits
  after the first that would overflow.\<close>

definition leadingInt :: "string \<Rightarrow> int option" where
  "leadingInt ds = (let v = int (digits_val ds) in if v \<le> two63 then Some v else None)"

fun leadingFraction :: "string \<Rightarrow> int \<Rightarrow> float64 \<Rightarrow> bool \<Rightarrow> int \<times> float64" where
  "leadingFraction [] x scale overflow = (x, scale)"
| "leadingFraction (c # cs) x scale overflow =
     (if overflow then leadingFraction cs x scale overflow
      else if x > (two63 - 1) div 10 then leadingFraction cs x scale True
      else let y = x * 10 + int (digit_val c)
           in if y > two63 then leadingFraction cs x scale True
              else leadingFraction cs y (rnd (scale * 10)) False)"

definition unit_char :: "char \<Rightarrow> bool" where
  "unit_char c \<longleftrightarrow> \<not> (c = CHR ''.'' \<or> digit c)"

text \<open>The digits before and after the point, and what follows them.\<close>

definition split_number :: "string \<Rightarrow> string \<times> string \<times> string" where
  "split_number s =
     (let s1 = dropWhile digit s in
      (takeWhile digit s,
       if s1 \<noteq> [] \<and> hd s1 = CHR ''.'' then (takeWhile digit (tl s1), dropWhile digit (tl s1)) else ([], s1)))"

text \<open>One number with its unit: its value and the rest of the string.\<close>

definition duration_part :: "string \<Rightarrow> (int \<times> string) option" where
  "duration_part s =
     (if s = [] \<or> \<not> (hd s = CHR ''.'' \<or> digit (hd s)) then None
      else let (ip, fp, s2) = split_number s;
               u = takeWhile unit_char s2; s3 = dropWhile unit_char s2;
               (f, scale) = leadingFraction fp 0 1 False
           in case leadingInt ip of
                None \<Rightarrow> None
              | Some v \<Rightarrow>
                  if ip = [] \<and> fp = [] then None
                  else case unit_of u of
                         None \<Rightarrow> None
                       | Some un \<Rightarrow>
                           if v > two63 div un then None
                           else let v1 = v * un;
                                    v2 = (if f > 0 then v1 + \<lfloor>rnd (float_of f * fdiv (float_of un) scale)\<rfloor> else v1)
                                in if v2 > two63 then None else Some (v2, s3))"

lemma split_number_shorter:
  assumes "s \<noteq> []" "hd s = CHR ''.'' \<or> digit (hd s)"
  shows "length (snd (snd (split_number s))) < length s"
proof (cases "digit (hd s)")
  case True
  then have "length (dropWhile digit s) < length s"
    using assms(1) by (cases s) (simp_all add: le_imp_less_Suc length_dropWhile_le)
  moreover have "length (dropWhile digit (tl (dropWhile digit s))) \<le> length (dropWhile digit s)"
    using length_dropWhile_le [of digit "tl (dropWhile digit s)"] by simp
  ultimately show ?thesis by (simp add: split_number_def Let_def)
next
  case False
  then obtain cs where s: "s = CHR ''.'' # cs" using assms by (cases s) auto
  have "\<not> digit CHR ''.''" using False s by simp
  then show ?thesis using length_dropWhile_le [of digit cs] by (simp add: s split_number_def)
qed

lemma duration_part_shorter:
  assumes "duration_part s = Some (v, s')"
  shows "length s' < length s"
proof -
  have "s \<noteq> []" "hd s = CHR ''.'' \<or> digit (hd s)" "s' = dropWhile unit_char (snd (snd (split_number s)))"
    using assms by (auto simp: duration_part_def Let_def case_prod_beta split: if_splits option.splits)
  with split_number_shorter [of s] length_dropWhile_le [of unit_char "snd (snd (split_number s))"]
  show ?thesis by simp
qed

function duration_sum :: "string \<Rightarrow> int \<Rightarrow> int option" where
  "duration_sum s d =
     (if s = [] then Some d
      else case duration_part s of
             None \<Rightarrow> None
           | Some (v, s') \<Rightarrow> if d + v > two63 then None else duration_sum s' (d + v))"
  by pat_completeness auto
termination
  by (relation "measure (\<lambda>(s, d). length s)") (auto dest: duration_part_shorter)

declare duration_sum.simps [simp del]

definition ParseDuration :: "string \<Rightarrow> duration option" where
  "ParseDuration s0 =
     (let (neg, s) = sign_of s0
      in if s = ''0'' then Some 0
         else if s = [] then None
         else case duration_sum s 0 of
                None \<Rightarrow> None
              | Some d \<Rightarrow> if neg then Some (i64 (- d)) else if d > two63 - 1 then None else Some d)"

definition node_dur :: "node \<Rightarrow> string \<Rightarrow> duration \<Rightarrow> duration" where
  "node_dur n key def = or_default def ParseDuration (scalar n key)"

section \<open>Lines\<close>

definition leadingSpaces :: "string \<Rightarrow> nat" where
  "leadingSpaces s = length (takeWhile (\<lambda>c. c = CHR '' '') s)"

fun stripComment_from :: "char option \<Rightarrow> string \<Rightarrow> string" where
  "stripComment_from q [] = []"
| "stripComment_from (Some q) (c # cs) = c # stripComment_from (if c = q then None else Some q) cs"
| "stripComment_from None (c # cs) =
     (if c = CHR 0x22 \<or> c = CHR 0x27 then c # stripComment_from (Some c) cs
      else if c = CHR ''#'' then []
      else c # stripComment_from None cs)"

definition stripComment :: "string \<Rightarrow> string" where
  "stripComment s = stripComment_from None s"

definition unquote :: "string \<Rightarrow> string" where
  "unquote s =
     (if length s \<ge> 2 \<and> (hd s = CHR 0x22 \<and> last s = CHR 0x22 \<or> hd s = CHR 0x27 \<and> last s = CHR 0x27)
      then butlast (tl s) else s)"

text \<open>\<^verbatim>\<open>bufio.ScanLines\<close>: lines without their terminator, one carriage return dropped; the
  empty piece after a final newline is no line.\<close>

fun split_lines :: "string \<Rightarrow> string \<Rightarrow> string list" where
  "split_lines acc [] = (if acc = [] then [] else [rev acc])"
| "split_lines acc (c # cs) =
     (if c = CHR 0x0A then rev acc # split_lines [] cs else split_lines (c # acc) cs)"

definition dropCR :: "string \<Rightarrow> string" where
  "dropCR s = (if s \<noteq> [] \<and> last s = CHR 0x0D then butlast s else s)"

definition maxScanTokenSize :: nat where
  "maxScanTokenSize = 65536"

section \<open>The parser\<close>

datatype parse_error = LineError nat string | TooLong

text \<open>A frame of the parser's stack: its indentation (-1 for the root) and the section it
  fills, named by the keys that lead to it from the root.  The section being filled is
  always on the way of the latest assignments, so the path denotes the map the code points
  to.\<close>

type_synonym frame = "int \<times> string list"

fun put_at :: "string list \<Rightarrow> string \<Rightarrow> yaml \<Rightarrow> node \<Rightarrow> node" where
  "put_at [] key v n = gm_set key v n"
| "put_at (p # ps) key v n =
     (case gm_lookup n p of
        Some (Section c) \<Rightarrow> gm_set p (Section (put_at ps key v c)) n
      | _ \<Rightarrow> n)"

fun pop_frames :: "int \<Rightarrow> frame list \<Rightarrow> frame list" where
  "pop_frames indent (f # g # fs) = (if fst f \<ge> indent then pop_frames indent (g # fs) else f # g # fs)"
| "pop_frames indent fs = fs"

definition parse_line :: "string \<Rightarrow> node \<times> frame list \<Rightarrow> (node \<times> frame list) option" where
  "parse_line raw = (\<lambda>(tree, stack).
     let line = stripComment raw; trimmed = TrimSpace line in
     if trimmed = [] then Some (tree, stack)
     else let indent = int (leadingSpaces line) in
          case first_index CHR '':'' trimmed of
            None \<Rightarrow> None
          | Some i \<Rightarrow>
              let key = TrimSpace (take i trimmed);
                  val = unquote (TrimSpace (drop (i + 1) trimmed));
                  stack1 = pop_frames indent stack;
                  path = snd (hd stack1)
              in if val = []
                 then Some (put_at path key (Section []) tree, (indent, path @ [key]) # stack1)
                 else Some (put_at path key (Scalar val) tree, stack1))"

fun parse_lines :: "nat \<Rightarrow> string list \<Rightarrow> node \<times> frame list \<Rightarrow> parse_error + node" where
  "parse_lines no [] st = Inr (fst st)"
| "parse_lines no (raw # lines) st =
     (if length raw \<ge> maxScanTokenSize then Inl TooLong
      else case parse_line (dropCR raw) st of
             None \<Rightarrow> Inl (LineError (no + 1) (TrimSpace (stripComment (dropCR raw))))
           | Some st' \<Rightarrow> parse_lines (no + 1) lines st')"

definition parseTree :: "string \<Rightarrow> parse_error + node" where
  "parseTree content = parse_lines 0 (split_lines [] content) ([], [(-1, [])])"

section \<open>Overlaying a file on the defaults\<close>

definition parseBucketDefaults :: "node \<Rightarrow> BucketDefaults \<Rightarrow> BucketDefaults" where
  "parseBucketDefaults n base =
     (let tpr = node_i64 n ''tokens_per_request'' (bdTokensPerRequest base);
          out = \<lparr>bdMaxTokens = node_i64 n ''max_tokens'' (bdMaxTokens base),
                 bdRefillRate = node_i64 n ''refill_rate'' (bdRefillRate base),
                 bdRefillInterval = node_dur n ''refill_interval'' (bdRefillInterval base),
                 bdTokensPerRequest = (if tpr \<le> 0 then 1 else tpr),
                 bdSlidingWindow = bdSlidingWindow base\<rparr>
      in case child n ''sliding_window'' of
           None \<Rightarrow> out
         | Some sw \<Rightarrow>
             let b = (case bdSlidingWindow base of Some b \<Rightarrow> b
                        | None \<Rightarrow> \<lparr>swEnabled = False, swWindowDuration = 0, swMaxRequests = 0, swBufferSize = 0\<rparr>)
             in out\<lparr>bdSlidingWindow := Some
                  \<lparr>swEnabled = node_b sw ''enabled'' (swEnabled b),
                   swWindowDuration = node_dur sw ''window_duration'' (swWindowDuration b),
                   swMaxRequests = node_i64 sw ''max_requests'' (swMaxRequests b),
                   swBufferSize = node_i sw ''buffer_size'' (swBufferSize b)\<rparr>\<rparr>)"

definition overlay_server :: "node \<Rightarrow> ServerConfig \<Rightarrow> ServerConfig" where
  "overlay_server n c = \<lparr>
     ClientPort = node_i n ''client_port'' (ClientPort c),
     AdminPort = node_i n ''admin_port'' (AdminPort c),
     TLS = (case child n ''tls'' of None \<Rightarrow> TLS c
              | Some t \<Rightarrow> \<lparr>CertFile = node_str t ''cert_file'' [], KeyFile = node_str t ''key_file'' [], ClientCAFile = []\<rparr>),
     AdminTLS = (case child n ''admin_tls'' of None \<Rightarrow> AdminTLS c
              | Some t \<Rightarrow> \<lparr>CertFile = node_str t ''cert_file'' [], KeyFile = node_str t ''key_file'' [],
                          ClientCAFile = node_str t ''client_ca_file'' []\<rparr>)\<rparr>"

definition overlay_limits :: "node \<Rightarrow> Limits \<Rightarrow> Limits" where
  "overlay_limits n c = \<lparr>
     limMaxClients = node_i n ''max_clients'' (limMaxClients c),
     limMaxAPIKeyLength = node_i n ''max_api_key_length'' (limMaxAPIKeyLength c),
     limMinRefillInterval = node_dur n ''min_refill_interval'' (limMinRefillInterval c),
     limMaxRefillInterval = node_dur n ''max_refill_interval'' (limMaxRefillInterval c)\<rparr>"

definition overlay_security :: "node \<Rightarrow> SecurityConfig \<Rightarrow> SecurityConfig" where
  "overlay_security n c = \<lparr>
     secAdminTokenHash = node_str n ''admin_token_hash'' (secAdminTokenHash c),
     secAdminTokenSalt = node_str n ''admin_token_salt'' (secAdminTokenSalt c),
     secIdentityMode = node_str n ''identity_mode'' (secIdentityMode c),
     secTrustProxyHeaders = node_b n ''trust_proxy_headers'' (secTrustProxyHeaders c),
     secEnableIPSecondaryLimit = node_b n ''enable_ip_secondary_limit'' (secEnableIPSecondaryLimit c),
     secIPMaxTokens = node_i64 n ''ip_max_tokens'' (secIPMaxTokens c),
     secIPRefillRate = node_i64 n ''ip_refill_rate'' (secIPRefillRate c),
     secIPRefillInterval = node_dur n ''ip_refill_interval'' (secIPRefillInterval c)\<rparr>"

definition overlay_logging :: "node \<Rightarrow> Logging \<Rightarrow> Logging" where
  "overlay_logging n c = \<lparr>
     logLevel = node_str n ''level'' (logLevel c),
     logAuditFile = node_str n ''audit_file'' (logAuditFile c),
     logRequestSampleRate = node_f64 n ''request_sample_rate'' (logRequestSampleRate c)\<rparr>"

definition overlay_metrics :: "node \<Rightarrow> MetricsConfig \<Rightarrow> MetricsConfig" where
  "overlay_metrics n c = \<lparr>metEnabled = node_b n ''enabled'' (metEnabled c), metPort = node_i n ''port'' (metPort c)\<rparr>"

definition overlay_fairness :: "node \<Rightarrow> FairnessConfig \<Rightarrow> FairnessConfig" where
  "overlay_fairness n c = \<lparr>
     fairEnabled = node_b n ''enabled'' (fairEnabled c),
     fairDefaultWeight = node_f64 n ''default_weight'' (fairDefaultWeight c)\<rparr>"

definition overlay_global :: "node \<Rightarrow> GlobalConfig \<Rightarrow> GlobalConfig" where
  "overlay_global n c = \<lparr>
     gloEnabled = node_b n ''enabled'' (gloEnabled c),
     gloMaxTokens = node_i64 n ''max_tokens'' (gloMaxTokens c),
     gloRefillRate = node_i64 n ''refill_rate'' (gloRefillRate c),
     gloRefillInterval = node_dur n ''refill_interval'' (gloRefillInterval c)\<rparr>"

definition overlay_tiers :: "node \<Rightarrow> BucketDefaults \<Rightarrow> (string, BucketDefaults) gomap \<Rightarrow> (string, BucketDefaults) gomap" where
  "overlay_tiers n base tiers =
     fold (\<lambda>(name, v) m. case v of Section tn \<Rightarrow> gm_set name (parseBucketDefaults tn base) m | Scalar _ \<Rightarrow> m) n tiers"

definition section_or :: "node \<Rightarrow> string \<Rightarrow> (node \<Rightarrow> 'a \<Rightarrow> 'a) \<Rightarrow> 'a \<Rightarrow> 'a" where
  "section_or tree key f x = (case child tree key of Some n \<Rightarrow> f n x | None \<Rightarrow> x)"

definition overlay :: "node \<Rightarrow> Config \<Rightarrow> Config" where
  "overlay tree c =
     (let defaults = section_or tree ''defaults'' parseBucketDefaults (Defaults c) in
      \<lparr>Server = section_or tree ''server'' overlay_server (Server c),
       Defaults = defaults,
       LimitsSec = section_or tree ''limits'' overlay_limits (LimitsSec c),
       SecuritySec = section_or tree ''security'' overlay_security (SecuritySec c),
       LoggingSec = section_or tree ''logging'' overlay_logging (LoggingSec c),
       MetricsSec = section_or tree ''metrics'' overlay_metrics (MetricsSec c),
       FairnessSec = section_or tree ''fairness'' overlay_fairness (FairnessSec c),
       GlobalSec = section_or tree ''global'' overlay_global (GlobalSec c),
       TiersSec = section_or tree ''tiers'' (\<lambda>n. overlay_tiers n defaults) (TiersSec c)\<rparr>)"

text \<open>What \<^verbatim>\<open>os.Stat\<close> and \<^verbatim>\<open>os.Open\<close> make of a path.\<close>

datatype file_state = NotExist | StatFails | OpenFails | Contents string

datatype load_error = StatError | OpenError | ParseFailed parse_error

definition Load :: "(string \<Rightarrow> file_state) \<Rightarrow> string \<Rightarrow> load_error + Config" where
  "Load fs path =
     (if path = [] then Inr Default
      else case fs path of
             NotExist \<Rightarrow> Inr Default
           | StatFails \<Rightarrow> Inl StatError
           | OpenFails \<Rightarrow> Inl OpenError
           | Contents content \<Rightarrow>
               (case parseTree content of
                  Inl e \<Rightarrow> Inl (ParseFailed e)
                | Inr tree \<Rightarrow> Inr (overlay tree Default)))"

section \<open>Validation\<close>

datatype config_error =
    ClientPortRange int | AdminPortRange int | PortsEqual | MetricsPortRange int | MetricsPortClash
  | MaxTokensNotPositive | RefillRateNegative | MaxClientsNotPositive | SampleRateRange gofloat
  | IdentityModeInvalid string | WeightNotPositive | GlobalMaxTokensNotPositive

text \<open>Comparisons with a constant: those with NaN are false.\<close>

definition gf_less :: "gofloat \<Rightarrow> rat \<Rightarrow> bool" where
  "gf_less x q \<longleftrightarrow> (case x of Finite v \<Rightarrow> v < q | Infinite neg \<Rightarrow> neg | NaN \<Rightarrow> False)"

definition gf_le :: "gofloat \<Rightarrow> rat \<Rightarrow> bool" where
  "gf_le x q \<longleftrightarrow> (case x of Finite v \<Rightarrow> v \<le> q | Infinite neg \<Rightarrow> neg | NaN \<Rightarrow> False)"

definition gf_greater :: "gofloat \<Rightarrow> rat \<Rightarrow> bool" where
  "gf_greater x q \<longleftrightarrow> (case x of Finite v \<Rightarrow> v > q | Infinite neg \<Rightarrow> \<not> neg | NaN \<Rightarrow> False)"

definition bad_port :: "int \<Rightarrow> bool" where
  "bad_port p \<longleftrightarrow> p \<le> 0 \<or> p > 65535"

definition Validate :: "Config \<Rightarrow> config_error option" where
  "Validate c =
     (if bad_port (ClientPort (Server c)) then Some (ClientPortRange (ClientPort (Server c)))
      else if bad_port (AdminPort (Server c)) then Some (AdminPortRange (AdminPort (Server c)))
      else if ClientPort (Server c) = AdminPort (Server c) then Some PortsEqual
      else if metEnabled (MetricsSec c) \<and> bad_port (metPort (MetricsSec c)) then Some (MetricsPortRange (metPort (MetricsSec c)))
      else if metEnabled (MetricsSec c) \<and> (metPort (MetricsSec c) = ClientPort (Server c) \<or> metPort (MetricsSec c) = AdminPort (Server c))
           then Some MetricsPortClash
      else if bdMaxTokens (Defaults c) \<le> 0 then Some MaxTokensNotPositive
      else if bdRefillRate (Defaults c) < 0 then Some RefillRateNegative
      else if limMaxClients (LimitsSec c) \<le> 0 then Some MaxClientsNotPositive
      else if gf_less (logRequestSampleRate (LoggingSec c)) 0 \<or> gf_greater (logRequestSampleRate (LoggingSec c)) 1
           then Some (SampleRateRange (logRequestSampleRate (LoggingSec c)))
      else if secIdentityMode (SecuritySec c) \<notin> {''ip'', ''api_key'', ''api_key_with_ip_fallback''}
           then Some (IdentityModeInvalid (secIdentityMode (SecuritySec c)))
      else if fairEnabled (FairnessSec c) \<and> gf_le (fairDefaultWeight (FairnessSec c)) 0 then Some WeightNotPositive
      else if gloEnabled (GlobalSec c) \<and> gloMaxTokens (GlobalSec c) \<le> 0 then Some GlobalMaxTokensNotPositive
      else None)"

end
