(* ===== verification/GoFormat.thy ===== *)
theory GoFormat
  imports Config
begin

text \<open>
  Go's formatting of integers, quoted strings and floating-point numbers (\<^verbatim>\<open>fmt\<close> and
  \<^verbatim>\<open>strconv\<close>), as far as the metrics page uses them.
\<close>

section \<open>Integers\<close>

fun fmt_nat :: "nat \<Rightarrow> string" where
  "fmt_nat n = (if n < 10 then [chr (48 + n)] else fmt_nat (n div 10) @ [chr (48 + n mod 10)])"

declare fmt_nat.simps [simp del]

text \<open>\<^verbatim>\<open>%d\<close>\<close>

definition fmt_d :: "int64 \<Rightarrow> string" where
  "fmt_d i = (if i < 0 then CHR ''-'' # fmt_nat (nat (- i)) else fmt_nat (nat i))"

lemma digit_chr: "n < 10 \<Longrightarrow> digit (chr (48 + n)) \<and> digit_val (chr (48 + n)) = n"
  by (simp add: digit_def digit_val_def)

lemma digits_val_snoc: "digits_val (ds @ [c]) = digits_val ds * 10 + digit_val c"
  by (simp add: digits_val_def)

lemma fmt_nat_digits: "fmt_nat n \<noteq> [] \<and> list_all digit (fmt_nat n) \<and> digits_val (fmt_nat n) = n"
proof (induction n rule: fmt_nat.induct)
  case (1 n)
  show ?case
  proof (cases "n < 10")
    case True
    then show ?thesis by (simp add: fmt_nat.simps [of n] digit_chr digits_val_def)
  next
    case False
    with 1 digit_chr [of "n mod 10"] show ?thesis by (simp add: fmt_nat.simps [of n] digits_val_snoc)
  qed
qed

lemma sign_of_digit: "digit c \<Longrightarrow> sign_of (c # cs) = (False, c # cs)"
  by (auto simp: sign_of_def digit_def byte_def)

lemma ParseInt_fmt_d:
  assumes "is_i64 i"
  shows "ParseInt (fmt_d i) = Some i"
proof -
  have n: "fmt_nat n \<noteq> []" "list_all digit (fmt_nat n)" "digits_val (fmt_nat n) = n" for n
    using fmt_nat_digits [of n] by simp_all
  have "sign_of (fmt_nat n) = (False, fmt_nat n)" for n
    using n(1,2) [of n] sign_of_digit by (cases "fmt_nat n") auto
  then show ?thesis using assms n by (simp add: ParseInt_def fmt_d_def sign_of_def)
qed

section \<open>Quoted strings\<close>

text \<open>\<^verbatim>\<open>%q\<close>.  A byte of a non-ASCII character is kept, as it is for printable ones.\<close>

definition hex_char :: "nat \<Rightarrow> char" where
  "hex_char n = (if n < 10 then chr (48 + n) else chr (87 + n))"

definition escape :: "char \<Rightarrow> string" where
  "escape c =
     (if c = CHR 0x22 \<or> c = CHR 0x5C then [CHR 0x5C, c]
      else if 32 \<le> byte c \<and> byte c \<noteq> 127 then [c]
      else if 7 \<le> byte c \<and> byte c \<le> 13 then [CHR 0x5C, ''abtnvfr'' ! (byte c - 7)]
      else [CHR 0x5C, CHR ''x'', hex_char (byte c div 16), hex_char (byte c mod 16)])"

definition quote :: "string \<Rightarrow> string" where
  "quote s = CHR 0x22 # concat (map escape s) @ [CHR 0x22]"

section \<open>Floating-point numbers\<close>

text \<open>The position of the decimal point of a positive number: it is at least a tenth of this
  power of ten and less than it.\<close>

definition dec_point :: "rat \<Rightarrow> int" where
  "dec_point x = (if 1 \<le> x then int (floorlog 10 (nat \<lfloor>x\<rfloor>)) else 1 - int (floorlog 10 (nat (\<lceil>1 / x\<rceil> - 1))))"

text \<open>The decimals of \<open>n\<close> digits next to \<open>x\<close> that read back as \<open>x\<close>, the closer first.\<close>

definition near_decimals :: "rat \<Rightarrow> nat \<Rightarrow> int list" where
  "near_decimals x n =
     (let u = 10 powi (dec_point x - int n); lo = \<lfloor>x / u\<rfloor>;
          ms = (if x - of_int lo * u \<le> of_int (lo + 1) * u - x then [lo, lo + 1] else [lo + 1, lo])
      in filter (\<lambda>m. rnd (of_int m * u) = x) ms)"

text \<open>The shortest digits that read back as \<open>x\<close>, and the position of the point; 17 digits
  always suffice.\<close>

definition shortest :: "float64 \<Rightarrow> string \<times> int" where
  "shortest x =
     (case find (\<lambda>n. near_decimals x n \<noteq> []) [1..<18] of
        None \<Rightarrow> ([], 0)
      | Some n \<Rightarrow>
          let ds = fmt_nat (nat (hd (near_decimals x n)))
          in (rev (dropWhile (\<lambda>c. c = CHR ''0'') (rev ds)), int (length ds) + dec_point x - int n))"

definition zeros :: "nat \<Rightarrow> string" where
  "zeros n = replicate n CHR ''0''"

text \<open>Formats \<^verbatim>\<open>%f\<close> and \<^verbatim>\<open>%e\<close> of given digits.\<close>

definition fmtF :: "string \<Rightarrow> int \<Rightarrow> string" where
  "fmtF ds dp =
     (if dp > 0 then take (nat dp) ds @ zeros (nat dp - length ds) else ''0'')
     @ (if int (length ds) > dp then ''.'' @ zeros (nat (- dp)) @ drop (nat dp) ds else [])"

definition fmtE :: "string \<Rightarrow> int \<Rightarrow> string" where
  "fmtE ds dp =
     (let e = dp - 1; es = fmt_nat (nat \<bar>e\<bar>)
      in take 1 ds @ (if length ds > 1 then ''.'' @ drop 1 ds else []) @ ''e'' @ (if e < 0 then ''-'' else ''+'')
         @ zeros (2 - length es) @ es)"

definition with_sign :: "(rat \<Rightarrow> string) \<Rightarrow> rat \<Rightarrow> string" where
  "with_sign f x = (if x = 0 then ''0'' else if x < 0 then CHR ''-'' # f (- x) else f x)"

text \<open>\<^verbatim>\<open>FormatFloat(x, 'f', -1, 64)\<close> and \<^verbatim>\<open>%v\<close>\<close>

definition FormatFloat_f :: "float64 \<Rightarrow> string" where
  "FormatFloat_f = with_sign (\<lambda>x. case shortest x of (ds, dp) \<Rightarrow> fmtF ds dp)"

definition fmt_v :: "float64 \<Rightarrow> string" where
  "fmt_v = with_sign (\<lambda>x. case shortest x of (ds, dp) \<Rightarrow> if dp - 1 < -4 \<or> dp - 1 \<ge> 6 then fmtE ds dp else fmtF ds dp)"

end
