(* ===== verification/ConfigParse.thy ===== *)
theory ConfigParse
  imports Config
begin

text \<open>
  The parser of \<^verbatim>\<open>internal/config/config.go\<close> against a reference printer: a tree is rendered
  the way \<^verbatim>\<open>configs/sentinel.yaml\<close> is written, and parsing gives it back.  The stack
  of the parser is related to the tree by the section its top frame points to
  (\<open>get_at\<close>, \<open>replace_at\<close>).  The second part shows that a loaded configuration
  has values within their machine types.
\<close>

section \<open>Rendering and reading back\<close>

text \<open>Two spaces per level, values in double quotes.\<close>

definition section_line :: "nat \<Rightarrow> string \<Rightarrow> string" where
  "section_line d k = replicate (2 * d) CHR '' '' @ k @ '':''"

definition scalar_line :: "nat \<Rightarrow> string \<Rightarrow> string \<Rightarrow> string" where
  "scalar_line d k v = replicate (2 * d) CHR '' '' @ k @ '': '' @ CHR 0x22 # v @ [CHR 0x22]"

fun render :: "nat \<Rightarrow> node \<Rightarrow> string list" where
  "render d [] = []"
| "render d ((k, Scalar v) # n) = scalar_line d k v # render d n"
| "render d ((k, Section c) # n) = section_line d k # render (Suc d) c @ render d n"

definition render_file :: "node \<Rightarrow> string" where
  "render_file n = concat (map (\<lambda>l. l @ [CHR 0x0A]) (render 0 n))"

definition plain :: "char \<Rightarrow> bool" where
  "plain c \<longleftrightarrow> 33 \<le> byte c \<and> byte c \<le> 126"

definition unmarked :: "char \<Rightarrow> bool" where
  "unmarked c \<longleftrightarrow> c \<notin> {CHR ''#'', CHR 0x22, CHR 0x27}"

definition yaml_key :: "string \<Rightarrow> bool" where
  "yaml_key k \<longleftrightarrow> k \<noteq> [] \<and> list_all plain k \<and> list_all unmarked k \<and> CHR '':'' \<notin> set k"

definition yaml_value :: "string \<Rightarrow> bool" where
  "yaml_value v \<longleftrightarrow> v \<noteq> [] \<and> CHR 0x22 \<notin> set v \<and> CHR 0x0A \<notin> set v"

fun node_ok :: "node \<Rightarrow> bool" where
  "node_ok [] \<longleftrightarrow> True"
| "node_ok ((k, Scalar v) # n) \<longleftrightarrow> yaml_key k \<and> k \<notin> fst ` set n \<and> yaml_value v \<and> node_ok n"
| "node_ok ((k, Section c) # n) \<longleftrightarrow> yaml_key k \<and> k \<notin> fst ` set n \<and> node_ok c \<and> node_ok n"

section \<open>Trimming a line\<close>

lemma space_encodings_ends:
  assumes "p \<in> set space_encodings"
  shows "p \<noteq> [] \<and> \<not> plain (hd p) \<and> \<not> plain (last p)"
proof -
  have "list_all (\<lambda>p. p \<noteq> [] \<and> \<not> plain (hd p) \<and> \<not> plain (last p)) space_encodings"
    by (simp add: space_encodings_def upt_rec plain_def)
  then show ?thesis using assms by (simp add: list_all_iff)
qed

lemma space_encodings_space:
  "[CHR '' ''] \<in> set space_encodings"
  "p \<in> set space_encodings \<Longrightarrow> hd p = CHR '' '' \<Longrightarrow> p = [CHR '' '']"
proof -
  have c: "CHR '' '' = chr 32" by (simp add: chr_def char_of_def bit_simps)
  have "list_all (\<lambda>p. byte (hd p) = 32 \<longrightarrow> p = [chr 32]) space_encodings"
    by (simp add: space_encodings_def upt_rec)
  then show "p \<in> set space_encodings \<Longrightarrow> hd p = CHR '' '' \<Longrightarrow> p = [CHR '' '']"
    unfolding c by (auto simp: list_all_iff)
  show "[CHR '' ''] \<in> set space_encodings"
    unfolding c by (simp add: space_encodings_def)
qed

lemma strip_plain:
  assumes "\<And>p. p \<in> set ps \<Longrightarrow> \<not> plain (hd p)" "s \<noteq> []" "plain (hd s)"
  shows "strip ps s = s"
proof -
  have "p = [] \<or> take (length p) s \<noteq> p" if "p \<in> set ps" for p
    using assms(1) [OF that] assms(2,3) by (cases p; cases s) auto
  then have "strip_one ps s = None" by (auto simp: strip_one_def find_None_iff)
  then show ?thesis by (simp add: strip.simps)
qed

lemma strip_space: "strip space_encodings (CHR '' '' # s) = strip space_encodings s"
proof -
  let ?P = "\<lambda>p. p \<noteq> [] \<and> take (length p) (CHR '' '' # s) = p"
  have "find ?P space_encodings \<noteq> None"
    using space_encodings_space(1) by (auto simp: find_None_iff)
  then obtain p where p: "find ?P space_encodings = Some p" by auto
  then have "p \<in> set space_encodings" "?P p" by (auto simp: find_Some_iff)
  moreover from this(2) have "hd p = CHR '' ''" by (cases p) simp_all
  ultimately have "p = [CHR '' '']" using space_encodings_space(2) by blast
  with p have "strip_one space_encodings (CHR '' '' # s) = Some s" by (simp add: strip_one_def)
  then show ?thesis by (simp add: strip.simps [of _ "CHR '' '' # s"])
qed

lemma TrimSpace_line:
  assumes "s \<noteq> []" "plain (hd s)" "plain (last s)"
  shows "TrimSpace (replicate n CHR '' '' @ s) = s"
proof -
  have "strip space_encodings s = s"
    using space_encodings_ends assms by (intro strip_plain) auto
  then have "strip space_encodings (replicate n CHR '' '' @ s) = s"
    by (induction n) (simp_all add: strip_space)
  moreover have "strip (map rev space_encodings) (rev s) = rev s"
  proof (rule strip_plain)
    show "\<not> plain (hd p)" if "p \<in> set (map rev space_encodings)" for p
      using that space_encodings_ends by (auto simp: hd_rev)
  qed (use assms in \<open>auto simp: hd_rev\<close>)
  ultimately show ?thesis by (simp add: TrimSpace_def)
qed

lemma TrimSpace_Nil: "TrimSpace [] = []"
proof -
  have "strip ps [] = []" for ps
  proof -
    have "find (\<lambda>p. p \<noteq> [] \<and> [] = p) ps = None" by (auto simp: find_None_iff)
    then show ?thesis by (simp add: strip.simps strip_one_def)
  qed
  then show ?thesis by (simp add: TrimSpace_def)
qed

lemmas TrimSpace_plain = TrimSpace_line [where n = 0, simplified]

section \<open>Reading one rendered line\<close>

lemma unmarked_chars [simp]: "unmarked CHR '':''" "unmarked CHR '' ''"
  by (simp_all add: unmarked_def)

lemma stripComment_append:
  assumes "list_all unmarked xs"
  shows "stripComment_from None (xs @ ys) = xs @ stripComment_from None ys"
  using assms by (induction xs) (simp_all add: unmarked_def)

lemma list_all_replicate: "P c \<Longrightarrow> list_all P (replicate n c)"
  by (induction n) simp_all

lemma stripComment_quoted:
  "CHR 0x22 \<notin> set v \<Longrightarrow> stripComment_from (Some CHR 0x22) (v @ [CHR 0x22]) = v @ [CHR 0x22]"
  by (induction v) auto

lemma stripComment_section:
  assumes "yaml_key k"
  shows "stripComment (section_line d k) = section_line d k"
proof -
  have "list_all unmarked (section_line d k)"
    using assms by (simp add: section_line_def yaml_key_def list_all_replicate)
  from stripComment_append [OF this, of "[]"] show ?thesis by (simp add: stripComment_def)
qed

lemma stripComment_scalar:
  assumes "yaml_key k" "yaml_value v"
  shows "stripComment (scalar_line d k v) = scalar_line d k v"
proof -
  have "list_all unmarked (replicate (2 * d) CHR '' '' @ k @ '': '')"
    using assms(1) by (simp add: yaml_key_def list_all_replicate)
  from stripComment_append [OF this, of "CHR 0x22 # v @ [CHR 0x22]"] stripComment_quoted [of v] assms(2)
  show ?thesis by (simp add: stripComment_def scalar_line_def yaml_value_def)
qed

lemma yaml_key_plain: "yaml_key k \<Longrightarrow> k \<noteq> [] \<and> plain (hd k) \<and> plain (last k) \<and> CHR '':'' \<notin> set k"
  by (simp add: yaml_key_def list_all_iff)

lemma plain_chars [simp]: "plain CHR '':''" "plain CHR 0x22"
  by (simp_all add: plain_def byte_def)

lemma leadingSpaces_line: "s \<noteq> [] \<Longrightarrow> plain (hd s) \<Longrightarrow> leadingSpaces (replicate n CHR '' '' @ s) = n"
  by (cases s) (auto simp: leadingSpaces_def plain_def byte_def takeWhile_append)

lemma parse_line_section:
  assumes "yaml_key k" "pop_frames (2 * int d) S = (i, P) # R"
  shows "parse_line (section_line d k) (t, S) =
           Some (put_at P k (Section []) t, (2 * int d, P @ [k]) # (i, P) # R)"
proof -
  note k = yaml_key_plain [OF assms(1)]
  have "TrimSpace (section_line d k) = k @ '':''"
    unfolding section_line_def using k by (intro TrimSpace_line) auto
  moreover have "leadingSpaces (section_line d k) = 2 * d"
    unfolding section_line_def using k by (intro leadingSpaces_line) auto
  moreover have "first_index CHR '':'' (k @ '':'') = Some (length k)"
    using k by (simp add: first_index_append)
  moreover note TrimSpace_Nil
  moreover have "unquote [] = []" by (simp add: unquote_def)
  ultimately show ?thesis
    using k assms TrimSpace_plain [of k]
    by (simp add: parse_line_def Let_def stripComment_section)
qed

lemma parse_line_scalar:
  assumes "yaml_key k" "yaml_value v" "pop_frames (2 * int d) S = (i, P) # R"
  shows "parse_line (scalar_line d k v) (t, S) = Some (put_at P k (Scalar v) t, (i, P) # R)"
proof -
  note k = yaml_key_plain [OF assms(1)]
  let ?q = "CHR 0x22 # v @ [CHR 0x22]"
  have "TrimSpace (scalar_line d k v) = k @ CHR '':'' # CHR '' '' # ?q"
    unfolding scalar_line_def using k TrimSpace_line [of "k @ CHR '':'' # CHR '' '' # ?q" "2 * d"] by auto
  moreover have "leadingSpaces (scalar_line d k v) = 2 * d"
    unfolding scalar_line_def using k by (intro leadingSpaces_line) auto
  moreover have "first_index CHR '':'' (k @ CHR '':'' # CHR '' '' # ?q) = Some (length k)"
    using k by (simp add: first_index_append)
  moreover have "TrimSpace (CHR '' '' # ?q) = ?q"
    using TrimSpace_line [of ?q 1] by simp
  moreover have "unquote ?q = v" by (simp add: unquote_def)
  ultimately show ?thesis
    using k assms TrimSpace_plain [of k]
    by (simp add: parse_line_def Let_def stripComment_scalar yaml_value_def)
qed

lemma dropCR_lines: "dropCR (section_line d k) = section_line d k" "dropCR (scalar_line d k v) = scalar_line d k v"
  by (simp_all add: dropCR_def section_line_def scalar_line_def)

section \<open>The section a frame points to\<close>

fun get_at :: "string list \<Rightarrow> node \<Rightarrow> node option" where
  "get_at [] n = Some n"
| "get_at (p # ps) n = (case gm_lookup n p of Some (Section c) \<Rightarrow> get_at ps c | _ \<Rightarrow> None)"

fun replace_at :: "string list \<Rightarrow> node \<Rightarrow> node \<Rightarrow> node" where
  "replace_at [] m n = m"
| "replace_at (p # ps) m n =
     (case gm_lookup n p of Some (Section c) \<Rightarrow> gm_set p (Section (replace_at ps m c)) n | _ \<Rightarrow> n)"

lemma gm_set_set: "gm_set k v (gm_set k w m) = gm_set k v m"
  by (induction m) (auto simp: gm_set_def)

lemma gm_set_same: "gm_lookup m k = Some v \<Longrightarrow> gm_set k v m = m"
  by (induction m) (auto simp: gm_set_def gm_lookup_def split: if_splits)

lemma gm_set_new: "gm_lookup m k = None \<Longrightarrow> gm_set k v m = m @ [(k, v)]"
  by (induction m) (auto simp: gm_set_def gm_lookup_def split: if_splits)

lemma put_at_replace: "get_at P t = Some m \<Longrightarrow> put_at P k v t = replace_at P (gm_set k v m) t"
  by (induction P arbitrary: t) (auto split: option.splits yaml.splits)

lemma replace_at_get: "get_at P t = Some m \<Longrightarrow> replace_at P m t = t"
  by (induction P arbitrary: t) (auto simp: gm_set_same split: option.splits yaml.splits)

lemma get_at_replace: "get_at P t = Some m \<Longrightarrow> get_at P (replace_at P m' t) = Some m'"
  by (induction P arbitrary: t) (auto simp: gm_lookup_set split: option.splits yaml.splits)

lemma replace_at_replace: "get_at P t = Some m \<Longrightarrow> replace_at P m1 (replace_at P m2 t) = replace_at P m1 t"
  by (induction P arbitrary: t) (auto simp: gm_lookup_set gm_set_set split: option.splits yaml.splits)

lemma get_at_snoc: "get_at P t = Some m \<Longrightarrow> get_at (P @ [k]) t = child m k"
  by (induction P arbitrary: t) (auto simp: child_def split: option.splits yaml.splits)

lemma replace_at_snoc:
  "get_at P t = Some m \<Longrightarrow> child m k = Some c \<Longrightarrow> replace_at (P @ [k]) c' t = replace_at P (gm_set k (Section c') m) t"
  by (induction P arbitrary: t) (auto simp: child_def split: option.splits yaml.splits)

lemma replace_section:
  assumes "get_at P t = Some m" "gm_lookup m k = None"
  shows "replace_at (P @ [k]) c (replace_at P (m @ [(k, Section [])]) t) = replace_at P (m @ [(k, Section c)]) t"
proof -
  let ?t = "replace_at P (m @ [(k, Section [])]) t"
  have g: "get_at P ?t = Some (m @ [(k, Section [])])" by (rule get_at_replace [OF assms(1)])
  have "gm_lookup (m @ [(k, Section [])]) k = Some (Section [])"
    using assms(2) by (simp add: gm_lookup_def map_add_def)
  moreover have "gm_set k (Section c) (m @ [(k, Section [])]) = m @ [(k, Section c)]"
    using assms(2) by (metis gm_set_new gm_set_set)
  ultimately show ?thesis
    using replace_at_snoc [OF g, of k] replace_at_replace [OF assms(1)] by (simp add: child_def)
qed

section \<open>The stack\<close>

lemma pop_frames_pop: "j \<le> i \<Longrightarrow> pop_frames j (pop_frames i S) = pop_frames j S"
  by (induction i S rule: pop_frames.induct) auto

lemma pop_frames_top: "pop_frames i S = f # R \<Longrightarrow> j \<le> k \<Longrightarrow> pop_frames j ((k, P) # f # R) = pop_frames j (f # R)"
  by simp

lemma gm_lookup_disjoint: "fst ` set m \<inter> fst ` set ((k, v) # n) = {} \<Longrightarrow> gm_lookup m k = None"
  by (auto simp: gm_lookup_def map_of_eq_None_iff)

lemma parse_render:
  assumes "node_ok n" "get_at P t = Some m" "fst ` set m \<inter> fst ` set n = {}"
    "pop_frames (2 * int d) S = (i, P) # R" "i < 2 * int d"
    "list_all (\<lambda>l. length l < maxScanTokenSize) (render d n)"
  shows "\<exists>S'. (\<forall>j \<le> 2 * int d. pop_frames j S' = pop_frames j S) \<and>
           parse_lines no (render d n @ rest) (t, S) =
           parse_lines (no + length (render d n)) rest (replace_at P (m @ n) t, S')"
  using assms
proof (induction d n arbitrary: P t m S i R no rest rule: render.induct)
  case (1 d)
  then show ?case by (auto simp: replace_at_get)
next
  case (2 d k v n)
  let ?t = "replace_at P (m @ [(k, Scalar v)]) t" and ?S = "pop_frames (2 * int d) S"
  have new: "gm_lookup m k = None" by (rule gm_lookup_disjoint [OF 2(4)])
  have step: "parse_line (scalar_line d k v) (t, S) = Some (?t, ?S)"
    using parse_line_scalar 2(2,5) put_at_replace [OF 2(3)] gm_set_new [OF new] by simp
  have idem: "pop_frames (2 * int d) ?S = (i, P) # R"
    using pop_frames_pop [of "2 * int d" "2 * int d" S] 2(5) by simp
  have "\<exists>S'. (\<forall>j \<le> 2 * int d. pop_frames j S' = pop_frames j ?S) \<and>
      parse_lines (no + 1) (render d n @ rest) (?t, ?S) =
      parse_lines (no + 1 + length (render d n)) rest (replace_at P ((m @ [(k, Scalar v)]) @ n) ?t, S')"
    using 2(2,4,6,7) idem by (intro 2(1) get_at_replace [OF 2(3)]) auto
  then show ?case
    using step 2(7) by (auto simp: pop_frames_pop dropCR_lines replace_at_replace [OF 2(3)])
next
  case (3 d k c n)
  let ?t1 = "replace_at P (m @ [(k, Section [])]) t" and ?S1 = "(2 * int d, P @ [k]) # (i, P) # R"
  let ?t2 = "replace_at P (m @ [(k, Section c)]) t"
  have new: "gm_lookup m k = None" by (rule gm_lookup_disjoint [OF 3(5)])
  have step: "parse_line (section_line d k) (t, S) = Some (?t1, ?S1)"
    using parse_line_section 3(3,6) put_at_replace [OF 3(4)] gm_set_new [OF new] by simp
  have "get_at (P @ [k]) ?t1 = Some []"
    using get_at_snoc [OF get_at_replace [OF 3(4)]] new by (simp add: child_def gm_lookup_def map_add_def)
  then obtain S2 where S2: "\<forall>j \<le> 2 * int (Suc d). pop_frames j S2 = pop_frames j ?S1"
    "parse_lines (no + 1) (render (Suc d) c @ render d n @ rest) (?t1, ?S1) =
     parse_lines (no + 1 + length (render (Suc d) c)) (render d n @ rest) (?t2, S2)"
    using 3(1) [of "P @ [k]" ?t1 "[]" ?S1 "2 * int d" "(i, P) # R" "no + 1" "render d n @ rest"] 3(3,8)
      replace_section [OF 3(4) new] by auto
  have pop: "pop_frames j S2 = pop_frames j S" if "j \<le> 2 * int d" for j
    using S2(1) that 3(6) pop_frames_pop [of j "2 * int d" S] by simp
  obtain S3 where S3: "\<forall>j \<le> 2 * int d. pop_frames j S3 = pop_frames j S2"
    "parse_lines (no + 1 + length (render (Suc d) c)) (render d n @ rest) (?t2, S2) =
     parse_lines (no + 1 + length (render (Suc d) c) + length (render d n)) rest
       (replace_at P ((m @ [(k, Section c)]) @ n) ?t2, S3)"
    using 3(2) [of P ?t2 "m @ [(k, Section c)]" S2 i R "no + 1 + length (render (Suc d) c)" rest]
      get_at_replace [OF 3(4)] 3(3,5,6,7,8) pop by auto
  show ?case
    using step S2(2) S3 pop 3(8)
    by (intro exI [of _ S3]) (simp add: dropCR_lines replace_at_replace [OF 3(4)] add.assoc)
qed

section \<open>The file\<close>

lemma split_lines_line: "CHR 0x0A \<notin> set l \<Longrightarrow> split_lines acc (l @ CHR 0x0A # s) = (rev acc @ l) # split_lines [] s"
  by (induction l arbitrary: acc) auto

lemma split_lines_concat:
  "\<forall>l \<in> set ls. CHR 0x0A \<notin> set l \<Longrightarrow> split_lines [] (concat (map (\<lambda>l. l @ [CHR 0x0A]) ls)) = ls"
  by (induction ls) (simp_all add: split_lines_line)

lemma yaml_key_newline: "yaml_key k \<Longrightarrow> CHR 0x0A \<notin> set k"
  by (auto simp: yaml_key_def list_all_iff plain_def byte_def)

lemma render_no_newline: "node_ok n \<Longrightarrow> l \<in> set (render d n) \<Longrightarrow> CHR 0x0A \<notin> set l"
  by (induction d n rule: render.induct)
    (auto simp: scalar_line_def section_line_def yaml_value_def yaml_key_newline)

text \<open>
  C36. The parser reads back what it is meant to read.  Any tree whose keys are printable words
  (without colon, hash or quotes), distinct within a section, and whose values are non-empty
  strings without newline or double quote, written with two spaces of indentation per level
  and quoted values on lines within the scanner's limit, parses to exactly that tree: nesting,
  order, and every byte of every value are kept.
\<close>

theorem config_round_trip:
  assumes "node_ok n" "list_all (\<lambda>l. length l < maxScanTokenSize) (render 0 n)"
  shows "parseTree (render_file n) = Inr n"
proof -
  have "split_lines [] (render_file n) = render 0 n"
    unfolding render_file_def using render_no_newline [OF assms(1)] by (intro split_lines_concat) blast
  moreover obtain S' where "parse_lines 0 (render 0 n @ []) ([], [(-1, [])]) =
      parse_lines (0 + length (render 0 n)) [] (replace_at [] ([] @ n) [], S')"
    using parse_render [OF assms(1), of "[]" "[]" "[]" 0 "[(-1, [])]" "-1" "[]" 0 "[]"] assms(2) by auto
  ultimately show ?thesis by (simp add: parseTree_def)
qed

theorem config_round_trip_witness:
  "parseTree (render_file [(''server'', Section [(''port'', Scalar ''80 #1'')]), (''x'', Scalar ''on'')])
     = Inr [(''server'', Section [(''port'', Scalar ''80 #1'')]), (''x'', Scalar ''on'')]"
  by (rule config_round_trip)
    (simp_all add: yaml_key_def yaml_value_def plain_def unmarked_def byte_def scalar_line_def section_line_def
      maxScanTokenSize_def)

section \<open>Machine types\<close>

lemma ParseInt_typed: "ParseInt s = Some v \<Longrightarrow> is_i64 v"
  by (auto simp: ParseInt_def Let_def case_prod_beta split: if_splits)

lemma leadingFraction_nonneg:
  "0 \<le> x \<Longrightarrow> 0 \<le> sc \<Longrightarrow> 0 \<le> fst (leadingFraction cs x sc ov) \<and> 0 \<le> snd (leadingFraction cs x sc ov)"
proof (induction cs x sc ov rule: leadingFraction.induct)
  case (2 c cs x sc ov)
  have "0 \<le> rnd (sc * 10)" using 2 by (simp add: rnd_nonneg)
  with 2 show ?case by (simp add: Let_def)
qed simp

lemma duration_part_nonneg:
  assumes "duration_part s = Some (v, s')"
  shows "0 \<le> v"
proof -
  obtain ip fp s2 where sn: "split_number s = (ip, fp, s2)" by (metis prod_cases3)
  obtain f sc where lf: "leadingFraction fp 0 1 False = (f, sc)" by fastforce
  have nn: "0 \<le> f" "0 \<le> sc" using leadingFraction_nonneg [of 0 1 fp False] lf by auto
  have "0 \<le> un" if "unit_of u = Some un" for u un
    using that by (auto simp: unit_of_def split: if_splits)
  moreover have "0 \<le> \<lfloor>rnd (float_of f * fdiv (float_of un) sc)\<rfloor>" if "0 \<le> un" for un
  proof -
    have "0 \<le> float_of f * fdiv (float_of un) sc"
      using nn that by (simp add: float_of_def fdiv_def rnd_nonneg)
    then show ?thesis by (simp add: rnd_nonneg)
  qed
  ultimately show ?thesis
    using assms sn lf
    by (auto simp: duration_part_def Let_def leadingInt_def split: if_splits option.splits)
qed

lemma duration_sum_range: "duration_sum s d = Some r \<Longrightarrow> 0 \<le> d \<Longrightarrow> d \<le> two63 \<Longrightarrow> 0 \<le> r \<and> r \<le> two63"
proof (induction s d rule: duration_sum.induct)
  case (1 s d)
  then show ?case
    by (subst (asm) duration_sum.simps) (auto dest: duration_part_nonneg split: if_splits option.splits)
qed

lemma ParseDuration_typed: "ParseDuration s = Some d \<Longrightarrow> is_i64 d"
  using duration_sum_range [of "snd (sign_of s)" 0]
  by (auto simp: ParseDuration_def Let_def case_prod_beta two63_def is_i64I split: if_splits option.splits)

lemma ParseDuration_zero: "is_i64 0"
  by (simp add: is_i64_def)

lemma node_i64_typed: "is_i64 def \<Longrightarrow> is_i64 (node_i64 n key def)"
  by (auto simp: node_i64_def or_default_def ParseInt_typed split: option.splits)

lemma node_dur_typed: "is_i64 def \<Longrightarrow> is_i64 (node_dur n key def)"
  by (auto simp: node_dur_def or_default_def ParseDuration_typed split: option.splits)

lemmas node_typed = node_i64_typed node_dur_typed

definition defaults_typed :: "BucketDefaults \<Rightarrow> bool" where
  "defaults_typed b \<longleftrightarrow> is_i64 (bdMaxTokens b) \<and> is_i64 (bdRefillRate b) \<and> is_i64 (bdRefillInterval b)
     \<and> is_i64 (bdTokensPerRequest b) \<and> 1 \<le> bdTokensPerRequest b
     \<and> (case bdSlidingWindow b of None \<Rightarrow> True
          | Some w \<Rightarrow> is_i64 (swWindowDuration w) \<and> is_i64 (swMaxRequests w) \<and> is_i64 (swBufferSize w))"

definition tiers_typed :: "(string, BucketDefaults) gomap \<Rightarrow> bool" where
  "tiers_typed m \<longleftrightarrow> gm_ok m \<and> (\<forall>name b. gm_lookup m name = Some b \<longrightarrow> defaults_typed b)"

definition config_typed :: "Config \<Rightarrow> bool" where
  "config_typed c \<longleftrightarrow> is_i64 (ClientPort (Server c)) \<and> is_i64 (AdminPort (Server c))
     \<and> defaults_typed (Defaults c)
     \<and> is_i64 (limMaxClients (LimitsSec c)) \<and> is_i64 (limMaxAPIKeyLength (LimitsSec c))
     \<and> is_i64 (limMinRefillInterval (LimitsSec c)) \<and> is_i64 (limMaxRefillInterval (LimitsSec c))
     \<and> is_i64 (secIPMaxTokens (SecuritySec c)) \<and> is_i64 (secIPRefillRate (SecuritySec c))
     \<and> is_i64 (secIPRefillInterval (SecuritySec c)) \<and> is_i64 (metPort (MetricsSec c))
     \<and> is_i64 (gloMaxTokens (GlobalSec c)) \<and> is_i64 (gloRefillRate (GlobalSec c))
     \<and> is_i64 (gloRefillInterval (GlobalSec c))
     \<and> tiers_typed (TiersSec c)"

lemma Default_typed: "config_typed Default"
  by (simp add: config_typed_def Default_def tiers_typed_def defaults_typed_def is_i64_def Second_def Millisecond_def Hour_def)

lemma parseBucketDefaults_typed:
  assumes "defaults_typed base"
  shows "defaults_typed (parseBucketDefaults n base)"
proof -
  have "is_i64 0" "is_i64 1" by (simp_all add: is_i64_def)
  with assms show ?thesis
    by (auto simp: defaults_typed_def parseBucketDefaults_def Let_def node_i_def intro!: node_typed
        split: option.splits)
qed

lemma overlay_tiers_typed:
  assumes "tiers_typed m" "defaults_typed base"
  shows "tiers_typed (overlay_tiers n base m)"
proof -
  have set: "tiers_typed (gm_set name b m)" if "tiers_typed m" "defaults_typed b" for name b m
    using that by (simp add: tiers_typed_def gm_lookup_set)
  show ?thesis
    using assms(1) unfolding overlay_tiers_def
    by (induction n arbitrary: m)
      (auto simp: set parseBucketDefaults_typed [OF assms(2)] split: yaml.splits)
qed

lemma overlay_typed:
  assumes "config_typed c"
  shows "config_typed (overlay n c)"
proof -
  have d: "defaults_typed (section_or n ''defaults'' parseBucketDefaults (Defaults c))"
    using assms by (auto simp: config_typed_def section_or_def parseBucketDefaults_typed split: option.splits)
  have t: "tiers_typed (TiersSec (overlay n c))"
    using assms overlay_tiers_typed [OF _ d]
    by (simp add: config_typed_def overlay_def Let_def section_or_def [of n "''tiers''"] split: option.splits)
  show ?thesis
    using assms d t
    by (simp add: config_typed_def overlay_def Let_def section_or_def overlay_server_def overlay_limits_def
        overlay_security_def overlay_metrics_def overlay_global_def node_i_def node_typed split: option.splits)
qed

lemma Load_typed: "Load fs path = Inr c \<Longrightarrow> config_typed c"
  by (auto simp: Load_def Default_typed overlay_typed split: if_splits file_state.splits sum.splits)



end
