(* ===== verification/Exposition.thy ===== *)
theory Exposition
  imports Metrics GoFormat ConfigParse "HOL-Library.List_Lexorder" "HOL-Library.Char_ord"
begin

text \<open>
  The metrics page (\<^verbatim>\<open>internal/metrics/metrics.go\<close>, the \<^verbatim>\<open>write\<close> methods and
  \<^verbatim>\<open>Handler\<close>): the registry in the Prometheus text format.  \<open>scrape\<close> is a reference
  reader of labelled samples, and the page reads back as the counts it was made of.
\<close>

section \<open>Writing\<close>

definition NL :: string where
  "NL = [CHR 0x0A]"

definition header :: "string \<Rightarrow> string \<Rightarrow> string \<Rightarrow> string" where
  "header name help kind = ''# HELP '' @ name @ '' '' @ help @ NL @ ''# TYPE '' @ name @ '' '' @ kind @ NL"

definition sample :: "string \<Rightarrow> string \<Rightarrow> string \<Rightarrow> int64 \<Rightarrow> string" where
  "sample name labelName l v = name @ ''{'' @ labelName @ ''='' @ quote l @ ''} '' @ fmt_d v"

definition plain_sample :: "string \<Rightarrow> string \<Rightarrow> string" where
  "plain_sample name v = name @ '' '' @ v"

definition counter_line :: "Counter \<Rightarrow> string \<Rightarrow> string \<Rightarrow> string" where
  "counter_line c labelName l =
     (let v = (case gm_lookup (vals c) l of Some v \<Rightarrow> v | None \<Rightarrow> 0) in
      (if l = [] \<or> labelName = [] then plain_sample (counter_name c) (fmt_d v)
       else sample (counter_name c) labelName l v) @ NL)"

definition counter_write :: "string range_order \<Rightarrow> Counter \<Rightarrow> string \<Rightarrow> string" where
  "counter_write rng c labelName =
     header (counter_name c) (counter_help c) ''counter''
     @ concat (map (counter_line c labelName) (sort (rng (gm_keys (vals c)))))"

definition gauge_write :: "Gauge \<Rightarrow> string" where
  "gauge_write g = header (gauge_name g) (gauge_help g) ''gauge'' @ plain_sample (gauge_name g) (fmt_d (gauge_v g)) @ NL"

definition histogram_write :: "Histogram \<Rightarrow> string" where
  "histogram_write h =
     header (hist_name h) (hist_help h) ''histogram''
     @ concat (map2 (\<lambda>upper n. sample (hist_name h @ ''_bucket'') ''le'' (FormatFloat_f upper) n @ NL)
         histogramBuckets (hist_buckets h))
     @ sample (hist_name h @ ''_bucket'') ''le'' ''+Inf'' (hist_count h) @ NL
     @ plain_sample (hist_name h @ ''_sum'') (fmt_v (hist_sum h)) @ NL
     @ plain_sample (hist_name h @ ''_count'') (fmt_d (hist_count h)) @ NL"

text \<open>The page, or the status 405 for a request that is not a GET.\<close>

definition metrics_Handler :: "string range_order \<Rightarrow> Registry \<Rightarrow> string \<Rightarrow> int + string" where
  "metrics_Handler rng r reqMethod =
     (if reqMethod \<noteq> ''GET'' then Inl 405
      else Inr (counter_write rng (RequestsTotal r) (decisionLabel r)
        @ histogram_write (RequestLatency r)
        @ gauge_write (ActiveClientsGauge r)
        @ gauge_write (SchedulerRefills r)
        @ gauge_write (SchedulerHeapSize r)
        @ gauge_write (EvictionsTotal r)
        @ counter_write rng (AdminChangesTotal r) (actionLabel r)))"

section \<open>Reading\<close>

definition scrape_line :: "string \<Rightarrow> string \<times> int64 option" where
  "scrape_line s =
     (let r = tl (dropWhile (\<lambda>c. c \<noteq> CHR 0x22) s)
      in (takeWhile (\<lambda>c. c \<noteq> CHR 0x22) r, ParseInt (drop 3 (dropWhile (\<lambda>c. c \<noteq> CHR 0x22) r))))"

definition scrape :: "string \<Rightarrow> (string \<times> int64 option) list" where
  "scrape text = map scrape_line (filter (\<lambda>l. take 1 l \<noteq> ''#'') (split_lines [] text))"

text \<open>Text that may stand in a line: no quotes, backslashes or control characters.\<close>

definition word_char :: "char \<Rightarrow> bool" where
  "word_char c \<longleftrightarrow> 32 \<le> byte c \<and> byte c \<noteq> 127 \<and> c \<noteq> CHR 0x22 \<and> c \<noteq> CHR 0x5C"

definition word_text :: "string \<Rightarrow> bool" where
  "word_text s \<longleftrightarrow> list_all word_char s"

lemma word_text_simps [simp]:
  "word_text []" "word_text (c # s) \<longleftrightarrow> word_char c \<and> word_text s" "word_text (s @ t) \<longleftrightarrow> word_text s \<and> word_text t"
  by (simp_all add: word_text_def)

lemma word_text_notin:
  assumes "word_text s"
  shows "CHR 0x22 \<notin> set s" "CHR 0x0A \<notin> set s"
proof -
  have "\<not> word_char CHR 0x22" "\<not> word_char CHR 0x0A" by (simp_all add: word_char_def byte_def)
  with assms show "CHR 0x22 \<notin> set s" "CHR 0x0A \<notin> set s" unfolding word_text_def list_all_iff by blast+
qed

lemma quote_word: "word_text s \<Longrightarrow> quote s = CHR 0x22 # s @ [CHR 0x22]"
proof -
  have "word_text s \<Longrightarrow> concat (map escape s) = s"
    by (induction s) (simp_all add: escape_def word_char_def)
  then show "word_text s \<Longrightarrow> quote s = CHR 0x22 # s @ [CHR 0x22]" by (simp add: quote_def)
qed

lemma digit_word: "digit c \<Longrightarrow> word_char c"
  by (auto simp: digit_def word_char_def byte_def)

lemma fmt_d_word: "word_text (fmt_d v)"
proof -
  have "word_text (fmt_nat n)" for n
    using fmt_nat_digits [of n] digit_word by (auto simp: word_text_def list_all_iff)
  then show ?thesis by (simp add: fmt_d_def) (simp add: word_char_def byte_def)
qed

lemma upto_char:
  "c \<notin> set xs \<Longrightarrow> dropWhile (\<lambda>d. d \<noteq> c) (xs @ c # ys) = c # ys"
  "c \<notin> set xs \<Longrightarrow> takeWhile (\<lambda>d. d \<noteq> c) (xs @ c # ys) = xs"
  by (induction xs) auto

lemma scrape_line_quoted:
  "CHR 0x22 \<notin> set p \<Longrightarrow> CHR 0x22 \<notin> set l \<Longrightarrow>
   scrape_line (p @ CHR 0x22 # l @ CHR 0x22 # ''} '' @ t) = (l, ParseInt t)"
  unfolding scrape_line_def by (simp add: upto_char)

lemma scrape_line_sample:
  assumes "word_text name" "word_text labelName" "word_text l" "is_i64 v"
  shows "scrape_line (sample name labelName l v) = (l, Some v)" (is ?R)
    and "CHR 0x0A \<notin> set (sample name labelName l v)" (is ?N)
proof -
  have p: "word_text (name @ ''{'' @ labelName @ ''='')"
    using assms by (simp add: word_char_def byte_def)
  note q = word_text_notin(1)
  have s: "sample name labelName l v = (name @ ''{'' @ labelName @ ''='') @ CHR 0x22 # l @ CHR 0x22 # ''} '' @ fmt_d v"
    by (simp add: sample_def quote_word [OF assms(3)])
  show ?R
    unfolding s using scrape_line_quoted [OF q [OF p] q [OF assms(3)]] ParseInt_fmt_d [OF assms(4)] by simp
  show ?N
    unfolding s using word_text_notin(2) [OF p] word_text_notin(2) [OF assms(3)] word_text_notin(2) [OF fmt_d_word, of v]
    by simp
qed

text \<open>The lines of a page: comments are skipped, samples are read in order.\<close>

lemma scrape_lines:
  assumes "word_text h1" "word_text h2" "\<And>l. l \<in> set ls \<Longrightarrow> CHR 0x0A \<notin> set (f l) \<and> take 1 (f l) \<noteq> ''#''"
  shows "scrape (CHR ''#'' # h1 @ NL @ CHR ''#'' # h2 @ NL @ concat (map (\<lambda>l. f l @ NL) ls)) = map (scrape_line \<circ> f) ls"
proof -
  have "split_lines [] (concat (map (\<lambda>l. f l @ NL) ls)) = map f ls"
    using split_lines_concat [of "map f ls"] assms(3) by (simp add: NL_def comp_def)
  moreover have "split_lines [] ((CHR ''#'' # h) @ CHR 0x0A # s) = (CHR ''#'' # h) # split_lines [] s" if "word_text h" for h s
    using split_lines_line [of "CHR ''#'' # h" "[]" s] word_text_notin(2) [OF that] by simp
  ultimately have "split_lines [] (CHR ''#'' # h1 @ NL @ CHR ''#'' # h2 @ NL @ concat (map (\<lambda>l. f l @ NL) ls))
      = (CHR ''#'' # h1) # (CHR ''#'' # h2) # map f ls"
    using assms(1,2) by (simp add: NL_def)
  moreover have "filter (\<lambda>l. take 1 l \<noteq> ''#'') (map f ls) = map f ls"
    using assms(3) by (simp add: filter_id_conv)
  ultimately show ?thesis by (simp add: scrape_def)
qed

lemma counter_scrape:
  assumes "word_text (counter_name c)" "take 1 (counter_name c) \<notin> {[], ''#''}" "word_text (counter_help c)"
    "word_text labelName" "labelName \<noteq> []" "is_range rng"
    "\<And>l v. gm_lookup (vals c) l = Some v \<Longrightarrow> l \<noteq> [] \<and> word_text l \<and> is_i64 v"
  shows "scrape (counter_write rng c labelName) = map (\<lambda>l. (l, gm_lookup (vals c) l)) (sort (rng (gm_keys (vals c))))"
proof -
  let ?f = "\<lambda>l. sample (counter_name c) labelName l (case gm_lookup (vals c) l of Some v \<Rightarrow> v | None \<Rightarrow> 0)"
  let ?ls = "sort (rng (gm_keys (vals c)))"
  have key: "\<exists>v. gm_lookup (vals c) l = Some v" if "l \<in> set ?ls" for l
    using that is_range_set [OF assms(6)] by (simp add: gm_keys_lookup)
  have line: "counter_line c labelName l = ?f l @ NL" if "l \<in> set ?ls" for l
    using key [OF that] assms(5,7) by (auto simp: counter_line_def)
  have read: "scrape_line (?f l) = (l, gm_lookup (vals c) l) \<and> CHR 0x0A \<notin> set (?f l) \<and> take 1 (?f l) \<noteq> ''#''"
    if l: "l \<in> set ?ls" for l
  proof -
    obtain v where v: "gm_lookup (vals c) l = Some v" using key [OF l] by blast
    then have "word_text l" "is_i64 v" using assms(7) by blast+
    moreover have "take 1 (?f l) \<noteq> ''#''" using assms(2) by (cases "counter_name c") (simp_all add: sample_def)
    ultimately show ?thesis using scrape_line_sample [OF assms(1,4)] v by simp
  qed
  have lines: "map (counter_line c labelName) ?ls = map (\<lambda>l. ?f l @ NL) ?ls" using line by simp
  let ?h1 = "'' HELP '' @ counter_name c @ '' '' @ counter_help c" and ?h2 = "'' TYPE '' @ counter_name c @ '' counter''"
  have w: "counter_write rng c labelName =
      CHR ''#'' # ?h1 @ NL @ CHR ''#'' # ?h2 @ NL @ concat (map (\<lambda>l. ?f l @ NL) ?ls)"
    unfolding counter_write_def lines by (simp add: header_def)
  have "word_text ?h1" "word_text ?h2" using assms(1,3) by (simp_all add: word_char_def byte_def)
  then have "scrape (counter_write rng c labelName) = map (scrape_line \<circ> ?f) ?ls"
    unfolding w using read by (intro scrape_lines) blast+
  with read show ?thesis by simp
qed

lemma Inc_all:
  assumes "int (length ls) \<le> max_i64"
  shows "gm_ok (vals (fold (\<lambda>l c. Inc c l) ls (newCounter n d)))
    \<and> gm_lookup (vals (fold (\<lambda>l c. Inc c l) ls (newCounter n d))) l =
        (if l \<in> set ls then Some (int (count_list ls l)) else None)
    \<and> counter_name (fold (\<lambda>l c. Inc c l) ls (newCounter n d)) = n
    \<and> counter_help (fold (\<lambda>l c. Inc c l) ls (newCounter n d)) = d"
  using assms
proof (induction ls arbitrary: l rule: rev_induct)
  case Nil
  then show ?case by (simp add: newCounter_def)
next
  case (snoc x ls)
  have "int (count_list ls x) + 1 \<le> max_i64" using snoc(2) count_le_length [of ls x] by simp
  then have "i64 (int (count_list ls x) + 1) = int (count_list ls x) + 1"
    unfolding max_i64_def by (intro i64_id is_i64I) simp_all
  then show ?case
    using snoc(1) [of x] snoc(1) [of l] snoc(2) by (auto simp: Inc_def gm_lookup_set split: option.split)
qed

text \<open>
  C38. The metrics page tells the truth.  After any sequence of decisions, as many as a 64-bit
  counter can count, reading the page back gives every label that occurred, once and in
  order, with exactly the number of times it was counted.
\<close>

theorem metrics_page_reads_back:
  assumes "is_range rng" "int (length ls) \<le> max_i64" "list_all (\<lambda>l. l \<noteq> [] \<and> word_text l) ls"
  shows "scrape (counter_write rng (fold (\<lambda>l c. Inc c l) ls (RequestsTotal NewRegistry)) (decisionLabel NewRegistry))
    = map (\<lambda>l. (l, Some (int (count_list ls l)))) (sort (remdups ls))"
proof -
  define c where "c = fold (\<lambda>l c. Inc c l) ls (RequestsTotal NewRegistry)"
  have C: "gm_ok (vals c)" "\<And>l. gm_lookup (vals c) l = (if l \<in> set ls then Some (int (count_list ls l)) else None)"
    "counter_name c = ''sentinel_requests_total''" "counter_help c = ''Total rate-limit decisions made.''"
    using Inc_all [OF assms(2)] by (simp_all add: c_def NewRegistry_def)
  have "set (gm_keys (vals c)) = set ls" using C(2) by (auto simp: gm_keys_lookup split: if_splits)
  moreover have "distinct (rng (gm_keys (vals c)))"
    using C(1) assms(1) by (metis gm_ok_keys is_range_def mset_eq_imp_distinct_iff)
  ultimately have ls: "sort (rng (gm_keys (vals c))) = sort (remdups ls)"
    by (intro sorted_distinct_set_unique) (simp_all add: is_range_set [OF assms(1)])
  have "int (count_list ls l) \<le> max_i64" for l using assms(2) count_le_length [of ls l] by simp
  then have "scrape (counter_write rng c ''decision'') = map (\<lambda>l. (l, gm_lookup (vals c) l)) (sort (rng (gm_keys (vals c))))"
    using assms(1,3)
    by (intro counter_scrape)
      (auto simp: C word_char_def byte_def list_all_iff is_i64_def max_i64_def split: if_splits)
  also have "\<dots> = map (\<lambda>l. (l, Some (int (count_list ls l)))) (sort (remdups ls))"
    unfolding ls by (simp add: C(2))
  finally show ?thesis by (simp add: c_def NewRegistry_def)
qed

theorem metrics_page_reads_back_witness:
  "scrape (counter_write (\<lambda>ks. ks) (fold (\<lambda>l c. Inc c l) [''reject'', ''allow'', ''reject''] (RequestsTotal NewRegistry))
     (decisionLabel NewRegistry)) = [(''allow'', Some 1), (''reject'', Some 2)]"
  using metrics_page_reads_back [OF is_range_id, of "[''reject'', ''allow'', ''reject'']"]
  by (simp add: max_i64_def word_char_def byte_def less_list_code less_eq_list_code less_char_def less_eq_char_def)

end
