(* ===== verification/Sha256.thy ===== *)
theory Sha256
  imports GoStrings
begin

text \<open>
  \<^verbatim>\<open>crypto/sha256\<close> and \<^verbatim>\<open>encoding/hex\<close> as far as \<^verbatim>\<open>HashToken\<close> uses them: the
  digest of a byte string (FIPS 180-4) on 32-bit words, and lower-case hexadecimal.
\<close>

unbundle bit_operations_syntax

type_synonym w32 = "32 word"

section \<open>The compression function\<close>

text \<open>The constants are the first 32 bits of the fractional parts of the cube roots of the first
  64 primes and of the square roots of the first eight; the roots are found bit by bit.\<close>

fun root_bits :: "nat \<Rightarrow> nat \<Rightarrow> nat \<Rightarrow> nat \<Rightarrow> nat" where
  "root_bits k n 0 acc = acc"
| "root_bits k n (Suc b) acc = root_bits k n b (if (acc + 2 ^ b) ^ k \<le> n then acc + 2 ^ b else acc)"

definition small_primes :: "nat list" where
  "small_primes = filter (\<lambda>n. list_all (\<lambda>m. n mod m \<noteq> 0) [2..<n]) [2..<312]"

definition K256 :: "w32 list" where
  "K256 = map (\<lambda>p. word_of_nat (root_bits 3 (p * 2 ^ 96) 35 0)) small_primes"

definition H0 :: "w32 list" where
  "H0 = map (\<lambda>p. word_of_nat (root_bits 2 (p * 2 ^ 64) 35 0)) (take 8 small_primes)"

definition rotr :: "nat \<Rightarrow> w32 \<Rightarrow> w32" where
  "rotr n w = drop_bit n w OR push_bit (32 - n) w"

definition sigma0 :: "w32 \<Rightarrow> w32" where
  "sigma0 x = rotr 7 x XOR rotr 18 x XOR drop_bit 3 x"

definition sigma1 :: "w32 \<Rightarrow> w32" where
  "sigma1 x = rotr 17 x XOR rotr 19 x XOR drop_bit 10 x"

definition Sigma0 :: "w32 \<Rightarrow> w32" where
  "Sigma0 x = rotr 2 x XOR rotr 13 x XOR rotr 22 x"

definition Sigma1 :: "w32 \<Rightarrow> w32" where
  "Sigma1 x = rotr 6 x XOR rotr 11 x XOR rotr 25 x"

text \<open>The message schedule, kept in reverse: the newest word first.\<close>

fun extend :: "nat \<Rightarrow> w32 list \<Rightarrow> w32 list" where
  "extend 0 ws = ws"
| "extend (Suc n) ws = extend n ((sigma1 (ws ! 1) + ws ! 6 + sigma0 (ws ! 14) + ws ! 15) # ws)"

type_synonym regs = "w32 \<times> w32 \<times> w32 \<times> w32 \<times> w32 \<times> w32 \<times> w32 \<times> w32"

definition round256 :: "w32 \<times> w32 \<Rightarrow> regs \<Rightarrow> regs" where
  "round256 = (\<lambda>(k, w) (a, b, c, d, e, f, g, h).
     let t1 = h + Sigma1 e + ((e AND f) XOR (NOT e AND g)) + k + w;
         t2 = Sigma0 a + ((a AND b) XOR (a AND c) XOR (b AND c))
     in (t1 + t2, a, b, c, d + t1, e, f, g))"

definition compress :: "w32 list \<Rightarrow> w32 list \<Rightarrow> w32 list" where
  "compress hs block =
     (let ws = rev (extend 48 (rev block));
          (a, b, c, d, e, f, g, h) =
            fold round256 (zip K256 ws) (hs ! 0, hs ! 1, hs ! 2, hs ! 3, hs ! 4, hs ! 5, hs ! 6, hs ! 7)
      in map2 (+) hs [a, b, c, d, e, f, g, h])"

section \<open>Padding and output\<close>

fun be_bytes :: "nat \<Rightarrow> nat \<Rightarrow> nat list" where
  "be_bytes 0 x = []"
| "be_bytes (Suc n) x = be_bytes n (x div 256) @ [x mod 256]"

definition pad :: "nat list \<Rightarrow> nat list" where
  "pad m = m @ [128] @ replicate ((119 - length m mod 64) mod 64) 0 @ be_bytes 8 (8 * length m)"

fun words_of :: "nat list \<Rightarrow> w32 list" where
  "words_of (a # b # c # d # bs) = of_nat (((a * 256 + b) * 256 + c) * 256 + d) # words_of bs"
| "words_of _ = []"

fun blocks :: "nat \<Rightarrow> w32 list \<Rightarrow> w32 list list" where
  "blocks 0 ws = []"
| "blocks (Suc n) ws = take 16 ws # blocks n (drop 16 ws)"

definition Sum256 :: "string \<Rightarrow> string" where
  "Sum256 s =
     (let ws = words_of (pad (map byte s))
      in map chr (concat (map (\<lambda>w. be_bytes 4 (unat w)) (fold (\<lambda>b h. compress h b) (blocks (length ws div 16) ws) H0))))"

definition hex_digit :: "nat \<Rightarrow> char" where
  "hex_digit n = ''0123456789abcdef'' ! n"

definition EncodeToString :: "string \<Rightarrow> string" where
  "EncodeToString s = concat (map (\<lambda>c. [hex_digit (byte c div 16), hex_digit (byte c mod 16)]) s)"

section \<open>Checks\<close>

lemma pad_blocks: "64 dvd length (pad m)"
proof -
  have len: "length (be_bytes n x) = n" for n x by (induction n arbitrary: x) simp_all
  define q r where "q = length m div 64" "r = length m mod 64"
  then have m: "length m = 64 * q + r" and r: "r < 64" by simp_all
  have "(119 - r) mod 64 = (if r \<le> 55 then 55 - r else 119 - r)"
    using r by (auto simp: mod_if)
  then have "length (pad m) = 64 * (if r \<le> 55 then q + 1 else q + 2)"
    using m r by (simp add: pad_def len q_r_def(2) [symmetric] split: if_splits)
  then show ?thesis by simp
qed

lemma hex_digit_inject:
  assumes "m < 16" "n < 16" "hex_digit m = hex_digit n"
  shows "m = n"
proof -
  have "distinct ''0123456789abcdef''" "length ''0123456789abcdef'' = 16" by simp_all
  with assms show ?thesis unfolding hex_digit_def by (metis nth_eq_iff_index_eq)
qed

lemma EncodeToString_Cons:
  "EncodeToString (c # s) = hex_digit (byte c div 16) # hex_digit (byte c mod 16) # EncodeToString s"
  by (simp add: EncodeToString_def)

lemma EncodeToString_inject: "EncodeToString s = EncodeToString t \<longleftrightarrow> s = t"
proof
  show "EncodeToString s = EncodeToString t \<Longrightarrow> s = t"
  proof (induction s arbitrary: t)
    case Nil
    then show ?case by (cases t) (simp_all add: EncodeToString_def)
  next
    case (Cons c s)
    then obtain d t' where t: "t = d # t'" by (cases t) (simp_all add: EncodeToString_def)
    have "byte c div 16 < 16" "byte d div 16 < 16"
      using byte_less [of c] byte_less [of d] by (simp_all add: div_less_iff_less_mult)
    then have "byte c div 16 = byte d div 16" "byte c mod 16 = byte d mod 16"
      using Cons.prems by (auto simp: t EncodeToString_Cons intro!: hex_digit_inject)
    then have "byte c = byte d" by (metis div_mult_mod_eq)
    with Cons t show ?case by (simp add: EncodeToString_Cons)
  qed
qed simp

end
