(* ===== verification/Security.thy ===== *)
theory Security
  imports Sha256 StoreInvariant
begin

text \<open>
  Input validation and credential helpers (\<^verbatim>\<open>internal/security/sanitize.go\<close>).  An
  \<^verbatim>\<open>error\<close> is a value of \<open>sec_error option\<close>; the bounds errors carry the offending
  value their message prints.
\<close>

section \<open>Validation\<close>

datatype sec_error =
    ErrInvalidAPIKey
  | ErrInvalidTier
  | MaxTokensRange int64
  | RefillRateRange int64
  | RefillIntervalRange duration

text \<open>The character class \<^verbatim>\<open>[a-zA-Z0-9_-]\<close> of both patterns.\<close>

definition key_char :: "char \<Rightarrow> bool" where
  "key_char c \<longleftrightarrow> (let b = byte c in
     97 \<le> b \<and> b \<le> 122 \<or> 65 \<le> b \<and> b \<le> 90 \<or> 48 \<le> b \<and> b \<le> 57 \<or> b = 95 \<or> b = 45)"

definition apiKeyPattern :: "string \<Rightarrow> bool" where
  "apiKeyPattern s \<longleftrightarrow> list_all key_char s \<and> 1 \<le> length s \<and> length s \<le> 128"

definition tierPattern :: "string \<Rightarrow> bool" where
  "tierPattern s \<longleftrightarrow> list_all key_char s \<and> 1 \<le> length s \<and> length s \<le> 64"

definition ValidateAPIKey :: "string \<Rightarrow> sec_error option" where
  "ValidateAPIKey key = (if \<not> apiKeyPattern key then Some ErrInvalidAPIKey else None)"

definition ValidateTier :: "string \<Rightarrow> sec_error option" where
  "ValidateTier tier =
     (if tier = [] then None else if \<not> tierPattern tier then Some ErrInvalidTier else None)"

definition ValidateBucketConfig :: "int64 \<Rightarrow> int64 \<Rightarrow> duration \<Rightarrow> sec_error option" where
  "ValidateBucketConfig maxTokens refillRate refillInterval =
     (if maxTokens < 1 \<or> maxTokens > 1000000 then Some (MaxTokensRange maxTokens)
      else if refillRate < 0 \<or> refillRate > 100000 then Some (RefillRateRange refillRate)
      else if refillRate > 0 \<and> (refillInterval < 10 * Millisecond \<or> refillInterval > Hour)
           then Some (RefillIntervalRange refillInterval)
      else None)"

section \<open>Log sanitising\<close>

function sanitize_loop :: "string \<Rightarrow> string \<Rightarrow> string" where
  "sanitize_loop out s =
     (if s = [] then out
      else let (r, w) = decode_rune s; rest = drop w s in
           if r = 10 \<or> r = 13 \<or> r < 32 then sanitize_loop out rest
           else let out1 = out @ encode_rune r in
                if length out1 \<ge> 256 then out1 else sanitize_loop out1 rest)"
  by pat_completeness auto
termination
proof (relation "measure (\<lambda>(out, s). length s)", goal_cases)
  case (2 out s x r w rest)
  then have "1 \<le> w" using decode_rune_width [of s] by (metis snd_conv)
  with 2 show ?case by (cases s) auto
next
  case (3 out s x r w rest out1)
  then have "1 \<le> w" using decode_rune_width [of s] by (metis snd_conv)
  with 3 show ?case by (cases s) auto
qed simp

declare sanitize_loop.simps [simp del]

definition SanitizeForLog :: "string \<Rightarrow> string" where
  "SanitizeForLog s = (let out = sanitize_loop [] s in if length out > 256 then take 256 out else out)"

section \<open>Credentials\<close>

definition HashToken :: "string \<Rightarrow> string \<Rightarrow> string" where
  "HashToken token salt = EncodeToString (Sum256 (salt @ '':'' @ token))"

text \<open>\<^verbatim>\<open>subtle.ConstantTimeCompare\<close>: the exclusive-or of every pair of bytes is
  accumulated, with no early exit.\<close>

unbundle bit_operations_syntax

definition ConstantTimeCompare :: "string \<Rightarrow> string \<Rightarrow> int" where
  "ConstantTimeCompare x y =
     (if length x \<noteq> length y then 0
      else let v = fold (\<lambda>(a, b) v. v OR ((of_nat (byte a) :: 8 word) XOR of_nat (byte b))) (zip x y) 0
           in if v = 0 then 1 else 0)"

definition ConstantTimeEqual :: "string \<Rightarrow> string \<Rightarrow> bool" where
  "ConstantTimeEqual a b \<longleftrightarrow> ConstantTimeCompare a b = 1"

section \<open>What validation guarantees\<close>

lemma key_char_no_bar: "key_char c \<Longrightarrow> c \<noteq> CHR ''|''"
  by (auto simp: key_char_def byte_def Let_def)

lemma ValidateAPIKey_key_ok:
  assumes "ValidateAPIKey key = None" "key \<noteq> ''__ip__''"
  shows "key_ok key"
  using assms key_char_no_bar
  by (auto simp: ValidateAPIKey_def apiKeyPattern_def key_ok_def list_all_iff split: if_splits)

lemma max_i64_div: "(max_i64 div I) * R \<le> 92233720368500000" if "10000000 \<le> I" "0 \<le> R" "R \<le> 100000"
proof -
  have "max_i64 div I \<le> max_i64 div 10000000"
    using that(1) by (intro zdiv_mono2) (simp_all add: max_i64_def)
  then have "max_i64 div I \<le> 922337203685" by (simp add: max_i64_def)
  moreover have "0 \<le> max_i64 div I" using that(1) by (simp add: pos_imp_zdiv_nonneg_iff max_i64_def)
  ultimately have "(max_i64 div I) * R \<le> 922337203685 * 100000"
    using that(2,3) by (intro mult_mono) simp_all
  then show ?thesis by simp
qed

lemma ValidateBucketConfig_safe:
  assumes "ValidateBucketConfig (MaxTokens cfg) (RefillRate cfg) (RefillInterval cfg) = None"
    "is_i64 (RefillInterval cfg)" "is_i64 (TokensPerRequest cfg)"
    "case SlidingWindowCfg cfg of None \<Rightarrow> True | Some sw \<Rightarrow> window_cfg_ok sw"
  shows "cfg_safe cfg"
proof -
  have b: "1 \<le> MaxTokens cfg" "MaxTokens cfg \<le> 1000000" "0 \<le> RefillRate cfg" "RefillRate cfg \<le> 100000"
    "0 < RefillRate cfg \<longrightarrow> 10000000 \<le> RefillInterval cfg"
    using assms(1) by (auto simp: ValidateBucketConfig_def Millisecond_def split: if_splits)
  have "MaxTokens cfg + (max_i64 div RefillInterval cfg) * RefillRate cfg \<le> max_i64"
  proof (cases "RefillRate cfg = 0")
    case True
    with b show ?thesis by (simp add: max_i64_def)
  next
    case False
    with b have "10000000 \<le> RefillInterval cfg" by simp
    from max_i64_div [OF this b(3,4)] b(2) show ?thesis by (simp add: max_i64_def)
  qed
  with b assms(2-4) show ?thesis by (simp add: cfg_safe_def max_i64_def)
qed



section \<open>Sanitised text\<close>

lemma sanitize_loop_bytes:
  assumes "\<forall>c\<in>set out. 32 \<le> byte c"
  shows "\<forall>c\<in>set (sanitize_loop out s). 32 \<le> byte c"
  using assms
proof (induction out s rule: sanitize_loop.induct)
  case (1 out s)
  obtain r w where d: "decode_rune s = (r, w)" by (cases "decode_rune s")
  have enc: "32 \<le> byte c" if "32 \<le> r" "c \<in> set (encode_rune r)" for c
  proof (cases "r < 128")
    case True
    with that show ?thesis by (simp add: encode_rune_ascii)
  next
    case False
    have "r < 2097152" using decode_rune_bound [of s] d by simp
    with False that(2) encode_rune_high [of r c] show ?thesis by simp
  qed
  show ?case
  proof (cases "s = []")
    case True
    with "1.prems" show ?thesis by (simp add: sanitize_loop.simps)
  next
    case s: False
    show ?thesis
    proof (cases "r = 10 \<or> r = 13 \<or> r < 32")
      case True
      have "\<forall>c\<in>set (sanitize_loop out (drop w s)). 32 \<le> byte c"
        using "1.IH"(1) [OF s d [symmetric] refl refl True "1.prems"] .
      with True s show ?thesis by (simp add: sanitize_loop.simps [of out s] d)
    next
      case False
      then have pre: "\<forall>c\<in>set (out @ encode_rune r). 32 \<le> byte c" using "1.prems" enc by auto
      have "\<forall>c\<in>set (sanitize_loop (out @ encode_rune r) (drop w s)). 32 \<le> byte c"
        if "\<not> 256 \<le> length (out @ encode_rune r)"
        using "1.IH"(2) [OF s d [symmetric] refl refl False refl that pre] .
      with pre False s show ?thesis by (auto simp: sanitize_loop.simps [of out s] d Let_def)
    qed
  qed
qed

lemma key_char_plain: "key_char c \<Longrightarrow> 32 \<le> byte c \<and> byte c < 128"
  by (auto simp: key_char_def Let_def)

lemma sanitize_loop_plain:
  "list_all (\<lambda>c. 32 \<le> byte c \<and> byte c < 128) s \<Longrightarrow> length (out @ s) < 256 \<Longrightarrow> sanitize_loop out s = out @ s"
proof (induction s arbitrary: out)
  case (Cons c s)
  then have "sanitize_loop (out @ [c]) s = (out @ [c]) @ s" by (intro Cons.IH) simp_all
  with Cons.prems show ?case
    by (simp add: sanitize_loop.simps [of out] decode_rune_ascii encode_rune_ascii)
qed (simp add: sanitize_loop.simps)

text \<open>
  Nothing an attacker sends can forge a log line.  Whatever bytes go in, valid UTF-8 or
  not, the sanitised text is at most 256 bytes long and has no byte below 0x20, so no line
  feed, carriage return or escape; and a text that is plain ASCII, such as every key that
  passes validation, is logged unchanged.
\<close>

theorem sanitized_for_log:
  "length (SanitizeForLog s) \<le> 256 \<and> (\<forall>c\<in>set (SanitizeForLog s). 32 \<le> byte c)
   \<and> (list_all (\<lambda>c. 32 \<le> byte c \<and> byte c < 128) s \<and> length s < 256 \<longrightarrow> SanitizeForLog s = s)"
proof -
  have "\<forall>c\<in>set (sanitize_loop [] s). 32 \<le> byte c" by (rule sanitize_loop_bytes) simp
  then have "\<forall>c\<in>set (SanitizeForLog s). 32 \<le> byte c"
    by (auto simp: SanitizeForLog_def Let_def dest: in_set_takeD)
  moreover have "length (SanitizeForLog s) \<le> 256" by (simp add: SanitizeForLog_def Let_def)
  moreover have "SanitizeForLog s = s" if "list_all (\<lambda>c. 32 \<le> byte c \<and> byte c < 128) s" "length s < 256"
    using sanitize_loop_plain [of s "[]"] that by (simp add: SanitizeForLog_def)
  ultimately show ?thesis by blast
qed

theorem sanitized_for_log_witness:
  "SanitizeForLog ''alice'' = ''alice'' \<and> length (SanitizeForLog (replicate 300 CHR 0x0A)) \<le> 256"
  using sanitized_for_log [of "''alice''"] sanitized_for_log [of "replicate 300 CHR 0x0A"]
  by (simp add: byte_def)

text \<open>
  Not every control character is stripped: DEL (0x7F) and the C1 controls, such as U+0085
  (next line), pass through, although the function's comment says control characters are
  removed.
\<close>

lemma sanitize_keeps_del_and_c1:
  "SanitizeForLog [chr 127] = [chr 127] \<and> SanitizeForLog [chr 194, chr 133] = [chr 194, chr 133]"
  by (simp add: SanitizeForLog_def sanitize_loop.simps decode_rune_def encode_rune_def lead_def cont_def)

section \<open>Comparing credentials\<close>

lemma xor_zero_iff: "a XOR b = 0 \<longleftrightarrow> a = (b :: 8 word)"
  by (auto simp: bit_eq_iff bit_xor_iff)

lemma or_fold_zero:
  "fold (\<lambda>(a, b) v. v OR ((of_nat (byte a) :: 8 word) XOR of_nat (byte b))) ps v = 0 \<longleftrightarrow>
   v = 0 \<and> (\<forall>(a, b)\<in>set ps. a = b)"
proof (induction ps arbitrary: v)
  case (Cons p ps)
  obtain a b where p: "p = (a, b)" by (cases p)
  have "(of_nat (byte a) :: 8 word) = of_nat (byte b) \<longleftrightarrow> a = b"
    using byte_less [of a] byte_less [of b] by (simp add: word_of_nat_eq_iff take_bit_eq_mod)
  then show ?case using Cons by (auto simp: p or_eq_0_iff xor_zero_iff)
qed simp

lemma ConstantTimeEqual_iff: "ConstantTimeEqual a b \<longleftrightarrow> a = b"
proof (cases "length a = length b")
  case True
  then have "(\<forall>(x, y)\<in>set (zip a b). x = y) \<longleftrightarrow> a = b"
    by (induction a b rule: list_induct2) auto
  with True show ?thesis
    by (simp add: ConstantTimeEqual_def ConstantTimeCompare_def or_fold_zero Let_def)
qed (auto simp: ConstantTimeEqual_def ConstantTimeCompare_def)

end
