(* ===== verification/Identity.thy ===== *)
theory Identity
  imports GoStrings
begin

text \<open>
  Who is calling (\<^verbatim>\<open>internal/server/identity.go\<close>).  Of an HTTP request the model keeps
  what the handlers read.  The header map has canonical names, as the server's parser stores
  them.
\<close>

record Request =
  Header :: "(string, string list) gomap"
  RemoteAddr :: string
  ContentLength :: int64
  PathKey :: string
  Body :: "string option"
  PeerCommonName :: "string option"

text \<open>\<^verbatim>\<open>Header.Get\<close>: the first value, or the empty string.\<close>

definition header_get :: "Request \<Rightarrow> string \<Rightarrow> string" where
  "header_get r name = (case gm_lookup (Header r) name of Some (v # _) \<Rightarrow> v | _ \<Rightarrow> [])"

definition sourceIP :: "Request \<Rightarrow> bool \<Rightarrow> string" where
  "sourceIP r trustProxy =
     (let xff = header_get r ''X-Forwarded-For'';
          first = TrimSpace (before_first CHR '','' xff);
          xrip = header_get r ''X-Real-Ip''
      in if trustProxy \<and> xff \<noteq> [] \<and> first \<noteq> [] then first
         else if trustProxy \<and> xrip \<noteq> [] then xrip
         else (case SplitHostPort (RemoteAddr r) of Some (host, _) \<Rightarrow> host | None \<Rightarrow> RemoteAddr r))"

definition clientIdentity :: "Request \<Rightarrow> string \<Rightarrow> string \<Rightarrow> string \<times> bool" where
  "clientIdentity r ip mode =
     (let apiKey = TrimSpace (header_get r ''X-Api-Key'') in
      if mode = ''ip'' then (ip, True)
      else if mode = ''api_key'' then (apiKey, False)
      else if apiKey \<noteq> [] then (apiKey, False)
      else (ip, True))"

text \<open>
  The source address cannot be forged unless the proxy is trusted.  With
  \<^verbatim>\<open>trust_proxy_headers\<close> off, the address is the host part of the connection's remote
  address, for IPv4 and bracketed IPv6 alike, whatever headers the client sends.
\<close>

theorem source_ip_not_spoofable:
  assumes "CHR ''['' \<notin> set h" "CHR '']'' \<notin> set h" "h \<noteq> []"
    "CHR '':'' \<notin> set p" "CHR ''['' \<notin> set p" "CHR '']'' \<notin> set p"
    "RemoteAddr r = (if CHR '':'' \<in> set h then ''['' @ h @ '']:'' @ p else h @ '':'' @ p)"
  shows "sourceIP (r\<lparr>Header := hs\<rparr>) False = h"
  using assms SplitHostPort_plain [of h p] SplitHostPort_bracket [of h p]
  by (simp add: sourceIP_def Let_def)

theorem source_ip_not_spoofable_witness:
  "sourceIP \<lparr>Header = [(''X-Forwarded-For'', [''10.0.0.1''])], RemoteAddr = ''[::1]:8080'', ContentLength = 0,
     PathKey = [], Body = None, PeerCommonName = None\<rparr> False = ''::1''"
  using source_ip_not_spoofable [of "''::1''" "''8080''" "\<lparr>Header = [], RemoteAddr = ''[::1]:8080'', ContentLength = 0,
     PathKey = [], Body = None, PeerCommonName = None\<rparr>" "[(''X-Forwarded-For'', [''10.0.0.1''])]"]
  by simp

end
