(* ===== verification/Fairness.thy ===== *)
theory Fairness
  imports Float64
begin

text \<open>
  The advisory weighted-fair-queuing tracker (\<^verbatim>\<open>internal/fairness/fairness.go\<close>).  The
  methods test their receiver for nil, so a tracker is an option.
\<close>

section \<open>State and operations\<close>

record Tracker =
  t_enabled :: bool
  consumption :: "(string, int64) gomap"
  weights :: "(string, float64) gomap"
  defaultWeight :: float64
  virtualTime :: float64

definition fairness_New :: "bool \<Rightarrow> float64 \<Rightarrow> Tracker" where
  "fairness_New enabled w =
     \<lparr>t_enabled = enabled, consumption = [], weights = [],
      defaultWeight = (if w \<le> 0 then 1 else w), virtualTime = 0\<rparr>"

definition fairness_Enabled :: "Tracker option \<Rightarrow> bool" where
  "fairness_Enabled t = (case t of None \<Rightarrow> False | Some tr \<Rightarrow> t_enabled tr)"

definition SetWeight :: "Tracker option \<Rightarrow> string \<Rightarrow> float64 \<Rightarrow> Tracker option" where
  "SetWeight t key w =
     (case t of
        None \<Rightarrow> None
      | Some tr \<Rightarrow> if \<not> t_enabled tr \<or> w \<le> 0 then t else Some (tr\<lparr>weights := gm_set key w (weights tr)\<rparr>))"

text \<open>A missing key of a Go map reads as zero.\<close>

definition weight_of :: "Tracker \<Rightarrow> string \<Rightarrow> float64" where
  "weight_of tr key =
     (let w = (case gm_lookup (weights tr) key of Some w \<Rightarrow> w | None \<Rightarrow> 0)
      in if w \<le> 0 then defaultWeight tr else w)"

definition consumed :: "Tracker \<Rightarrow> string \<Rightarrow> int64" where
  "consumed tr key = (case gm_lookup (consumption tr) key of Some c \<Rightarrow> c | None \<Rightarrow> 0)"

definition RecordConsumption :: "Tracker option \<Rightarrow> string \<Rightarrow> int64 \<Rightarrow> Tracker option \<times> float64" where
  "RecordConsumption t key n =
     (case t of
        None \<Rightarrow> (None, 0)
      | Some tr \<Rightarrow>
          if \<not> t_enabled tr then (t, 0)
          else let weight = weight_of tr key;
                   c = i64 (consumed tr key + n);
                   tr1 = tr\<lparr>consumption := gm_set key c (consumption tr),
                           virtualTime := fadd (virtualTime tr) (fdiv (float_of n) weight)\<rparr>
               in (Some tr1, fadd (virtualTime tr1) (fdiv (float_of c) weight)))"

definition Priority :: "Tracker option \<Rightarrow> string \<Rightarrow> float64" where
  "Priority t key =
     (case t of
        None \<Rightarrow> 0
      | Some tr \<Rightarrow>
          if \<not> t_enabled tr then 0
          else fadd (virtualTime tr) (fdiv (float_of (consumed tr key)) (weight_of tr key)))"

definition fairness_Snapshot :: "Tracker option \<Rightarrow> (string, int64) gomap" where
  "fairness_Snapshot t =
     (case t of None \<Rightarrow> [] | Some tr \<Rightarrow> if \<not> t_enabled tr then [] else consumption tr)"

section \<open>Properties\<close>

definition tracker_ok :: "Tracker \<Rightarrow> bool" where
  "tracker_ok tr \<longleftrightarrow> t_enabled tr \<and> 0 < defaultWeight tr \<and> rnd (virtualTime tr) = virtualTime tr
     \<and> (\<forall>k c. gm_lookup (consumption tr) k = Some c \<longrightarrow> 0 \<le> c)"

lemma fairness_New_ok: "tracker_ok (fairness_New True w)"
  by (simp add: tracker_ok_def fairness_New_def rd.zero)

lemma weight_of_pos: "tracker_ok tr \<Longrightarrow> 0 < weight_of tr key"
  by (auto simp: weight_of_def tracker_ok_def Let_def split: option.splits)

lemma consumed_nonneg: "tracker_ok tr \<Longrightarrow> 0 \<le> consumed tr key"
  by (auto simp: consumed_def tracker_ok_def split: option.splits)

lemma float_of_mono: "i \<le> j \<Longrightarrow> float_of i \<le> float_of j"
  by (simp add: float_of_def rd.mono)

lemma float_of_nonneg: "0 \<le> i \<Longrightarrow> 0 \<le> float_of i"
  by (simp add: float_of_def rd.nonneg)

lemma fdiv_nonneg: "0 \<le> a \<Longrightarrow> 0 < b \<Longrightarrow> 0 \<le> fdiv a b"
  by (simp add: fdiv_def rd.nonneg)



end
