(* ===== verification/AuditLog.thy ===== *)
theory AuditLog
  imports Float64
begin

text \<open>
  The audit policy (\<^verbatim>\<open>internal/audit/audit.go\<close>): what is logged and at which level.  The
  log is the list of records handed to the structured logger, latest last; a logger, or its
  base, may be nil.  \<open>draw\<close> is the number in [0, 1) that \<^verbatim>\<open>rand.Float64\<close> returns.
\<close>

datatype level = LevelDebug | LevelInfo | LevelWarn | LevelError

record configSnapshot =
  snapMaxTokens :: int64
  snapRefillRate :: int64
  snapRefillIntervalMs :: int64

datatype audit_entry =
    DecisionEntry level bool string string int64 int64
  | AdminEntry level string string string "configSnapshot option" "configSnapshot option" string
  | AnomalyEntry level string string string

record Logger =
  base :: "audit_entry list option"
  sampleRate :: float64

definition audit_New :: "audit_entry list option \<Rightarrow> float64 \<Rightarrow> Logger" where
  "audit_New b r = \<lparr>base = b, sampleRate = (let r1 = (if r < 0 then 0 else r) in if r1 > 1 then 1 else r1)\<rparr>"

definition emit :: "audit_entry \<Rightarrow> Logger \<Rightarrow> Logger" where
  "emit e l = l\<lparr>base := map_option (\<lambda>es. es @ [e]) (base l)\<rparr>"

definition Microseconds :: "duration \<Rightarrow> int64" where
  "Microseconds d = go_div d 1000"

definition RequestDecision :: "float64 \<Rightarrow> Logger option \<Rightarrow> bool \<Rightarrow> string \<Rightarrow> string \<Rightarrow> int64 \<Rightarrow> duration \<Rightarrow> Logger option" where
  "RequestDecision draw lo allowed key ip remaining latency =
     (case lo of
        None \<Rightarrow> None
      | Some l \<Rightarrow>
          if base l = None then lo
          else if \<not> allowed then Some (emit (DecisionEntry LevelWarn allowed key ip remaining (Microseconds latency)) l)
          else if sampleRate l \<le> 0 then lo
          else if sampleRate l < 1 \<and> draw \<ge> sampleRate l then lo
          else Some (emit (DecisionEntry LevelDebug allowed key ip remaining (Microseconds latency)) l))"

definition AdminChange :: "Logger option \<Rightarrow> string \<Rightarrow> string \<Rightarrow> string \<Rightarrow> configSnapshot option \<Rightarrow> configSnapshot option
    \<Rightarrow> string \<Rightarrow> Logger option" where
  "AdminChange lo admin key action before after ip =
     (case lo of
        None \<Rightarrow> None
      | Some l \<Rightarrow> if base l = None then lo
                  else Some (emit (AdminEntry LevelInfo admin key action before after ip) l))"

definition Anomaly :: "Logger option \<Rightarrow> string \<Rightarrow> string \<Rightarrow> string \<Rightarrow> Logger option" where
  "Anomaly lo kind detail ip =
     (case lo of
        None \<Rightarrow> None
      | Some l \<Rightarrow> if base l = None then lo else Some (emit (AnomalyEntry LevelWarn kind detail ip) l))"

definition audit_trail :: "Logger option \<Rightarrow> audit_entry list" where
  "audit_trail lo = (case lo of Some l \<Rightarrow> (case base l of Some es \<Rightarrow> es | None \<Rightarrow> []) | None \<Rightarrow> [])"

definition active :: "Logger option \<Rightarrow> bool" where
  "active lo \<longleftrightarrow> (\<exists>l es. lo = Some l \<and> base l = Some es)"

lemma trail_Admin:
  "active lo \<Longrightarrow> audit_trail (AdminChange lo admin key action b a ip) =
     audit_trail lo @ [AdminEntry LevelInfo admin key action b a ip] \<and> active (AdminChange lo admin key action b a ip)"
  by (auto simp: active_def audit_trail_def AdminChange_def emit_def)

lemma trail_Anomaly:
  "active lo \<Longrightarrow> audit_trail (Anomaly lo kind detail ip) = audit_trail lo @ [AnomalyEntry LevelWarn kind detail ip]
     \<and> active (Anomaly lo kind detail ip)"
  by (auto simp: active_def audit_trail_def Anomaly_def emit_def)

lemma trail_Rejected:
  "active lo \<Longrightarrow> audit_trail (RequestDecision draw lo False key ip n d) =
     audit_trail lo @ [DecisionEntry LevelWarn False key ip n (Microseconds d)]
     \<and> active (RequestDecision draw lo False key ip n d)"
  by (auto simp: active_def audit_trail_def RequestDecision_def emit_def)

end
