(* ===== verification/ClientServer.thy ===== *)
theory ClientServer
  imports Security StoreProps Identity Metrics Fairness AuditLog
begin

text \<open>
  The client-facing decision API (\<^verbatim>\<open>internal/server/client_server.go\<close>): the handler of
  \<^verbatim>\<open>POST /api/v1/request\<close>.  \<open>Service\<close> is the state both servers share; \<open>SecurityCfg\<close> is
  the part of the configuration the handlers read.  A response is a value: its status, what
  the body encodes, and for a rejection the wait that the \<^verbatim>\<open>Retry-After\<close> header prints.
  The text of the body and of the header is the subject of \<open>Wire\<close>, the listener that of \<open>Listen\<close>.
\<close>

section \<open>State and responses\<close>

record SecurityCfg =
  AdminTokenHash :: string
  AdminTokenSalt :: string
  IdentityMode :: string
  TrustProxyHeaders :: bool
  MinRefillInterval :: duration
  MaxRefillInterval :: duration

record Service =
  svc_store :: BucketStore
  svc_fairness :: "Tracker option"
  svc_audit :: "Logger option"
  svc_metrics :: "Registry option"

record allowResponse =
  respAllowed :: bool
  respRemaining :: int64
  respRetryAfterMs :: int64
  respResetAt :: "gotime option"

datatype body =
    NoBody
  | ErrorBody string
  | TextBody string
  | AllowBody allowResponse
  | SnapshotBody configSnapshot
  | StatusBody ClientStatus
  | ListBody "ClientStatus list"
  | InvalidConfigBody sec_error
  | FairnessBody bool "(string, int64) gomap"

record Response =
  status :: int
  respBody :: body
  retryAfterHeader :: "duration option"

definition reply :: "int \<Rightarrow> body \<Rightarrow> Response" where
  "reply code b = \<lparr>status = code, respBody = b, retryAfterHeader = None\<rparr>"

definition writeError :: "int \<Rightarrow> string \<Rightarrow> Response" where
  "writeError code msg = reply code (ErrorBody msg)"

section \<open>The handler\<close>

text \<open>The clock readings of one request: on entry, before the decision, and after it.\<close>

record clock_reads =
  startTime :: gotime
  nowTime :: gotime
  endTime :: gotime

definition count_decision :: "AllowResult \<Rightarrow> duration \<Rightarrow> Registry \<Rightarrow> Registry" where
  "count_decision result latency reg =
     (let decision = (if Allowed result then ''allow'' else if Reason result = ''blocked'' then ''blocked'' else ''reject'')
      in reg\<lparr>RequestsTotal := Inc (RequestsTotal reg) decision,
             RequestLatency := Observe (RequestLatency reg) (Seconds latency)\<rparr>)"

definition handleRequest :: "SecurityCfg \<Rightarrow> string range_order \<Rightarrow> float64 \<Rightarrow> clock_reads \<Rightarrow> Service \<Rightarrow> Request
    \<Rightarrow> Service \<times> Response" where
  "handleRequest cfg rng draw clk svc r =
     (if ContentLength r > 0 then (svc, writeError 400 ''request body not expected'')
      else let ip = sourceIP r (TrustProxyHeaders cfg);
               (key, _) = clientIdentity r ip (IdentityMode cfg)
           in if key = [] then (svc, writeError 400 ''missing client identity'')
              else if ValidateAPIKey key \<noteq> None
                   then (svc\<lparr>svc_audit := Anomaly (svc_audit svc) ''invalid_client_identity'' (SanitizeForLog key) ip\<rparr>,
                         writeError 400 ''invalid client identity'')
              else let tier = header_get r ''X-Resource-Tier'' in
                   if ValidateTier tier \<noteq> None then (svc, writeError 400 ''invalid resource tier'')
                   else let now = nowTime clk;
                            (st, result) = store_Allow rng now (svc_store svc)
                               \<lparr>ClientKey = key, SourceIP = ip, Tier = tier, Now = now\<rparr>;
                            latency = timeSub (endTime clk) (startTime clk);
                            svc1 = svc\<lparr>svc_store := st,
                               svc_audit := RequestDecision draw (svc_audit svc) (Allowed result) key ip
                                 (RemainingTokens result) latency,
                               svc_metrics := map_option (count_decision result latency) (svc_metrics svc)\<rparr>
                        in if Allowed result
                           then (if fairness_Enabled (svc_fairness svc1)
                                 then svc1\<lparr>svc_fairness := fst (RecordConsumption (svc_fairness svc1) key 1)\<rparr>
                                 else svc1,
                                 reply 200 (AllowBody \<lparr>respAllowed = True, respRemaining = RemainingTokens result,
                                   respRetryAfterMs = 0, respResetAt = None\<rparr>))
                           else (svc1,
                                 \<lparr>status = 429,
                                  respBody = AllowBody \<lparr>respAllowed = False, respRemaining = 0,
                                    respRetryAfterMs = Milliseconds (RetryAfter result),
                                    respResetAt = Some (timeAdd now (RetryAfter result))\<rparr>,
                                  retryAfterHeader = Some (RetryAfter result)\<rparr>))"

section \<open>Properties\<close>

definition caller :: "SecurityCfg \<Rightarrow> Request \<Rightarrow> string" where
  "caller cfg r = fst (clientIdentity r (sourceIP r (TrustProxyHeaders cfg)) (IdentityMode cfg))"

definition well_formed :: "SecurityCfg \<Rightarrow> Request \<Rightarrow> bool" where
  "well_formed cfg r \<longleftrightarrow> ContentLength r \<le> 0 \<and> ValidateAPIKey (caller cfg r) = None
     \<and> ValidateTier (header_get r ''X-Resource-Tier'') = None"

definition the_request :: "SecurityCfg \<Rightarrow> clock_reads \<Rightarrow> Request \<Rightarrow> AllowRequest" where
  "the_request cfg clk r = \<lparr>ClientKey = caller cfg r, SourceIP = sourceIP r (TrustProxyHeaders cfg),
     Tier = header_get r ''X-Resource-Tier'', Now = nowTime clk\<rparr>"

lemma ValidateAPIKey_nonempty: "ValidateAPIKey key = None \<Longrightarrow> key \<noteq> []"
  by (auto simp: ValidateAPIKey_def apiKeyPattern_def split: if_splits)

lemma handleRequest_malformed:
  assumes "\<not> well_formed cfg r"
  shows "svc_store (fst (handleRequest cfg rng draw clk svc r)) = svc_store svc"
    "status (snd (handleRequest cfg rng draw clk svc r)) = 400"
  using assms
  by (auto simp: handleRequest_def well_formed_def caller_def writeError_def reply_def Let_def case_prod_beta)

lemma handleRequest_decided:
  assumes "well_formed cfg r"
  shows "svc_store (fst (handleRequest cfg rng draw clk svc r)) =
      fst (store_Allow rng (nowTime clk) (svc_store svc) (the_request cfg clk r))"
    "status (snd (handleRequest cfg rng draw clk svc r)) =
      (if Allowed (snd (store_Allow rng (nowTime clk) (svc_store svc) (the_request cfg clk r))) then 200 else 429)"
  using assms ValidateAPIKey_nonempty [of "caller cfg r"]
  by (auto simp: handleRequest_def well_formed_def caller_def the_request_def reply_def Let_def case_prod_beta not_less)

lemma req_time_the_request: "valid_time (nowTime clk) \<Longrightarrow> req_time (nowTime clk) (the_request cfg clk r) = nowTime clk"
  by (simp add: req_time_def the_request_def IsZero_def)


definition example_security :: SecurityCfg where
  "example_security = \<lparr>AdminTokenHash = [], AdminTokenSalt = [], IdentityMode = ''ip'',
     TrustProxyHeaders = False, MinRefillInterval = 10000000, MaxRefillInterval = Hour\<rparr>"

definition example_service :: Service where
  "example_service = \<lparr>svc_store = limited_store, svc_fairness = None, svc_audit = Some (audit_New (Some []) 0),
     svc_metrics = Some NewRegistry\<rparr>"

definition request_from :: "string \<Rightarrow> Request" where
  "request_from host = \<lparr>Header = [], RemoteAddr = host @ '':99'', ContentLength = 0, PathKey = [], Body = None,
     PeerCommonName = None\<rparr>"

lemma example_sources:
  "sourceIP (request_from ''alice'') False = ''alice''" "sourceIP (request_from ''10.0.0.1'') False = ''10.0.0.1''"
  using SplitHostPort_plain [of "''alice''" "''99''"] SplitHostPort_plain [of "''10.0.0.1''" "''99''"]
  by (simp_all add: sourceIP_def request_from_def Let_def)

definition example_clock :: clock_reads where
  "example_clock = \<lparr>startTime = 1000, nowTime = 1010, endTime = 1020\<rparr>"


text \<open>
  C35. Identity by address does not work.  In mode "ip", which the configuration accepts, and
  for a caller without a key in the fallback mode, the identity is the source address; every
  IPv4 or IPv6 address contains a dot or a colon, which key validation rejects, so every such
  request is answered 400.
\<close>

theorem ip_identity_always_rejected:
  assumes "IdentityMode cfg = ''ip'' \<or> IdentityMode cfg = ''api_key_with_ip_fallback'' \<and> TrimSpace (header_get r ''X-Api-Key'') = []"
    "CHR ''.'' \<in> set (sourceIP r (TrustProxyHeaders cfg)) \<or> CHR '':'' \<in> set (sourceIP r (TrustProxyHeaders cfg))"
  shows "status (snd (handleRequest cfg rng draw clk svc r)) = 400"
proof (rule handleRequest_malformed(2))
  have "caller cfg r = sourceIP r (TrustProxyHeaders cfg)"
    using assms(1) by (auto simp: caller_def clientIdentity_def Let_def)
  moreover have "\<not> key_char CHR ''.''" "\<not> key_char CHR '':''" by (simp_all add: key_char_def byte_def)
  ultimately have "ValidateAPIKey (caller cfg r) \<noteq> None"
    using assms(2) by (auto simp: ValidateAPIKey_def apiKeyPattern_def list_all_iff)
  then show "\<not> well_formed cfg r" by (simp add: well_formed_def)
qed

theorem ip_identity_always_rejected_witness:
  "status (snd (handleRequest example_security (\<lambda>ks. ks) 0 example_clock example_service (request_from ''10.0.0.1''))) = 400"
  by (rule ip_identity_always_rejected) (simp_all add: example_security_def example_sources)

end
