(* ===== verification/AdminServer.thy ===== *)
theory AdminServer
  imports ClientServer
begin

text \<open>
  The admin API (\<^verbatim>\<open>internal/server/admin_server.go\<close>): its handlers and the bearer-token
  check in front of them.  \<open>decode\<close> stands for the JSON decoder, so that
  the theorems hold for any; \<open>Wire\<close> defines the one of the program.  Routing and the listener
  are in \<open>Listen\<close>.
\<close>

section \<open>Requests and helpers\<close>

definition maxAdminBodyBytes :: nat where
  "maxAdminBodyBytes = 1024"

record updateConfigRequest =
  ucTier :: string
  ucMaxTokens :: "int64 option"
  ucRefillRate :: "int64 option"
  ucRefillIntervalMs :: "int64 option"

record globalConfigRequest =
  gcEnabled :: bool
  gcMaxTokens :: int64
  gcRefillRate :: int64
  gcRefillIntervalMs :: int64

definition snapshot :: "bucket_Config \<Rightarrow> configSnapshot" where
  "snapshot cfg = \<lparr>snapMaxTokens = MaxTokens cfg, snapRefillRate = RefillRate cfg,
     snapRefillIntervalMs = Milliseconds (RefillInterval cfg)\<rparr>"

definition readAdminBody :: "(string \<Rightarrow> 'a option) \<Rightarrow> Request \<Rightarrow> 'a option" where
  "readAdminBody decode r =
     (case Body r of
        None \<Rightarrow> None
      | Some b \<Rightarrow> let data = take (maxAdminBodyBytes + 1) b
                  in if length data > maxAdminBodyBytes then None else decode data)"

definition adminIdentity :: "Request \<Rightarrow> string" where
  "adminIdentity r = (case PeerCommonName r of Some cn \<Rightarrow> ''mtls:'' @ cn | None \<Rightarrow> ''bearer-token'')"

text \<open>\<^verbatim>\<open>time.Duration(ms) * time.Millisecond\<close>, which wraps.\<close>

definition ms_duration :: "int64 \<Rightarrow> duration" where
  "ms_duration ms = i64 (ms * Millisecond)"

text \<open>The audit entry and the metric of every mutation.\<close>

definition record_change :: "SecurityCfg \<Rightarrow> Request \<Rightarrow> string \<Rightarrow> string \<Rightarrow> configSnapshot option \<Rightarrow> configSnapshot option
    \<Rightarrow> Service \<Rightarrow> Service" where
  "record_change cfg r key action before after svc = svc\<lparr>
     svc_audit := AdminChange (svc_audit svc) (adminIdentity r) key action before after
       (sourceIP r (TrustProxyHeaders cfg)),
     svc_metrics := map_option (\<lambda>reg. reg\<lparr>AdminChangesTotal := Inc (AdminChangesTotal reg) action\<rparr>) (svc_metrics svc)\<rparr>"

section \<open>Handlers\<close>

definition merged :: "updateConfigRequest \<Rightarrow> bucket_Config \<Rightarrow> bucket_Config" where
  "merged req before =
     (let a1 = (case ucMaxTokens req of Some v \<Rightarrow> before\<lparr>MaxTokens := v\<rparr> | None \<Rightarrow> before);
          a2 = (case ucRefillRate req of Some v \<Rightarrow> a1\<lparr>RefillRate := v\<rparr> | None \<Rightarrow> a1);
          a3 = (case ucRefillIntervalMs req of Some v \<Rightarrow> a2\<lparr>RefillInterval := ms_duration v\<rparr> | None \<Rightarrow> a2)
      in if TokensPerRequest a3 \<le> 0 then a3\<lparr>TokensPerRequest := 1\<rparr> else a3)"

definition handleUpdateConfig :: "SecurityCfg \<Rightarrow> (string \<Rightarrow> updateConfigRequest option) \<Rightarrow> string range_order \<Rightarrow> gotime
    \<Rightarrow> Service \<Rightarrow> Request \<Rightarrow> Service \<times> Response" where
  "handleUpdateConfig cfg decode rng now svc r =
     (let key = PathKey r in
      if ValidateAPIKey key \<noteq> None then (svc, writeError 400 ''invalid client key'')
      else case readAdminBody decode r of
             None \<Rightarrow> (svc, writeError 400 ''invalid request body'')
           | Some req \<Rightarrow>
               if ValidateTier (ucTier req) \<noteq> None then (svc, writeError 400 ''invalid tier'')
               else let before = TierConfig (svc_store svc) key (ucTier req);
                        after = merged req before
                    in case ValidateBucketConfig (MaxTokens after) (RefillRate after) (RefillInterval after) of
                         Some e \<Rightarrow> (svc, reply 400 (InvalidConfigBody e))
                       | None \<Rightarrow>
                           if RefillInterval after < MinRefillInterval cfg \<or> RefillInterval after > MaxRefillInterval cfg
                           then (svc, writeError 400 ''refill_interval out of configured bounds'')
                           else (record_change cfg r key ''update_config'' (Some (snapshot before)) (Some (snapshot after))
                                   (svc\<lparr>svc_store := UpdateClientConfig rng (svc_store svc) key (ucTier req) after now\<rparr>),
                                 reply 200 (SnapshotBody (snapshot after))))"

definition handleBlock :: "SecurityCfg \<Rightarrow> string range_order \<Rightarrow> gotime \<Rightarrow> Service \<Rightarrow> Request \<Rightarrow> Service \<times> Response" where
  "handleBlock cfg rng now svc r =
     (let key = PathKey r in
      if ValidateAPIKey key \<noteq> None then (svc, writeError 400 ''invalid client key'')
      else (record_change cfg r key ''block'' None None (svc\<lparr>svc_store := store_Block rng (svc_store svc) key now\<rparr>),
            reply 200 NoBody))"

definition handleUnblock :: "SecurityCfg \<Rightarrow> Service \<Rightarrow> Request \<Rightarrow> Service \<times> Response" where
  "handleUnblock cfg svc r =
     (let key = PathKey r in
      if ValidateAPIKey key \<noteq> None then (svc, writeError 400 ''invalid client key'')
      else (record_change cfg r key ''unblock'' None None (svc\<lparr>svc_store := store_Unblock (svc_store svc) key\<rparr>),
            reply 200 NoBody))"

definition handleStatus :: "string range_order \<Rightarrow> Service \<Rightarrow> Request \<Rightarrow> Service \<times> Response" where
  "handleStatus rng svc r =
     (case store_Status rng (svc_store svc) (PathKey r) of
        None \<Rightarrow> (svc, writeError 404 ''client not found'')
      | Some st \<Rightarrow> (svc, reply 200 (StatusBody st)))"

definition handleListClients :: "string range_order \<Rightarrow> Service \<Rightarrow> Request \<Rightarrow> Service \<times> Response" where
  "handleListClients rng svc r = (svc, reply 200 (ListBody (ListClients rng (svc_store svc))))"

definition handleGlobalConfig :: "SecurityCfg \<Rightarrow> (string \<Rightarrow> globalConfigRequest option) \<Rightarrow> gotime \<Rightarrow> Service \<Rightarrow> Request
    \<Rightarrow> Service \<times> Response" where
  "handleGlobalConfig cfg decode now svc r =
     (case readAdminBody decode r of
        None \<Rightarrow> (svc, writeError 400 ''invalid request body'')
      | Some req \<Rightarrow>
          if \<not> gcEnabled req
          then (record_change cfg r ''__global__'' ''disable_global'' None None
                  (svc\<lparr>svc_store := DisableGlobal (svc_store svc)\<rparr>), reply 200 NoBody)
          else let interval = ms_duration (gcRefillIntervalMs req) in
               case ValidateBucketConfig (gcMaxTokens req) (gcRefillRate req) interval of
                 Some e \<Rightarrow> (svc, reply 400 (InvalidConfigBody e))
               | None \<Rightarrow>
                   let gcfg = \<lparr>MaxTokens = gcMaxTokens req, RefillRate = gcRefillRate req, RefillInterval = interval,
                               TokensPerRequest = 1, SlidingWindowCfg = None\<rparr>
                   in (record_change cfg r ''__global__'' ''set_global_config'' None (Some (snapshot gcfg))
                         (svc\<lparr>svc_store := SetGlobalConfig (svc_store svc) gcfg now\<rparr>),
                       reply 200 (SnapshotBody (snapshot gcfg))))"

definition handleFairness :: "Service \<Rightarrow> Request \<Rightarrow> Service \<times> Response" where
  "handleFairness svc r = (svc, reply 200 (FairnessBody (fairness_Enabled (svc_fairness svc))
     (fairness_Snapshot (svc_fairness svc))))"

section \<open>Authentication\<close>

definition authMiddleware :: "SecurityCfg \<Rightarrow> (Service \<Rightarrow> Request \<Rightarrow> Service \<times> Response) \<Rightarrow> Service \<Rightarrow> Request \<Rightarrow> Service \<times> Response" where
  "authMiddleware cfg next svc r =
     (if AdminTokenHash cfg = [] then next svc r
      else let authz = header_get r ''Authorization'' in
           if \<not> HasPrefix authz ''Bearer ''
           then (svc\<lparr>svc_audit := Anomaly (svc_audit svc) ''admin_auth_missing'' [] (sourceIP r (TrustProxyHeaders cfg))\<rparr>,
                 reply 401 NoBody)
           else let token = TrimPrefix authz ''Bearer '';
                    hash = HashToken token (AdminTokenSalt cfg)
                in if \<not> ConstantTimeEqual hash (AdminTokenHash cfg)
                   then (svc\<lparr>svc_audit := Anomaly (svc_audit svc) ''admin_auth_failed'' [] (sourceIP r (TrustProxyHeaders cfg))\<rparr>,
                         reply 401 NoBody)
                   else next svc r)"

section \<open>Properties\<close>

lemma svc_store_record [simp]: "svc_store (record_change cfg r key action b a svc) = svc_store svc"
  by (simp add: record_change_def)

lemma TierConfig_safe:
  assumes "store_ok s"
  shows "cfg_safe (TierConfig s key tier)"
proof -
  have d: "cfg_safe (default_config s DefaultTier)" by (rule default_config_safe [OF store_okD(4) [OF assms]])
  have t: "cfg_safe c" if "gm_lookup (tierDefaults s) t = Some c" for t c
    using store_okD(4) [OF assms] that by (auto simp: defaults_ok_def)
  have b: "cfg_safe (bucket_config b)" if "gm_lookup (clients s) k = Some cb" "mb_Bucket cb t = Some b" for k cb t b
    using clients_okD(2) [OF store_okD(1) [OF assms] that(1)] that(2)
    by (auto simp: mb_Bucket_def client_ok_def bucket_ok_def bucket_config_def)
  show ?thesis
    unfolding TierConfig_def Let_def
    by (auto split: option.splits simp: Option.bind_eq_Some_conv intro: d t b)
qed

lemma merged_fields:
  "SlidingWindowCfg (merged req c) = SlidingWindowCfg c" "0 < TokensPerRequest (merged req c)"
  "is_i64 (TokensPerRequest c) \<Longrightarrow> is_i64 (TokensPerRequest (merged req c))"
  "is_i64 (RefillInterval c) \<Longrightarrow> is_i64 (RefillInterval (merged req c))"
  by (auto simp: merged_def ms_duration_def Let_def is_i64_def split: option.splits)
    (use is_i64_i64 in \<open>auto simp: is_i64_def\<close>)

lemma merged_safe:
  assumes "store_ok s"
    "ValidateBucketConfig (MaxTokens (merged req (TierConfig s key tier))) (RefillRate (merged req (TierConfig s key tier)))
       (RefillInterval (merged req (TierConfig s key tier))) = None"
  shows "cfg_safe (merged req (TierConfig s key tier))"
  using TierConfig_safe [OF assms(1), of key tier]
  by (intro ValidateBucketConfig_safe [OF assms(2)]) (auto simp: cfg_safe_def merged_fields split: option.splits)

datatype admin_call =
    CallUpdate "string \<Rightarrow> updateConfigRequest option"
  | CallBlock
  | CallUnblock
  | CallStatus
  | CallList
  | CallGlobal "string \<Rightarrow> globalConfigRequest option"
  | CallFairness

fun admin_handler :: "SecurityCfg \<Rightarrow> string range_order \<Rightarrow> gotime \<Rightarrow> admin_call \<Rightarrow> Service \<Rightarrow> Request \<Rightarrow> Service \<times> Response" where
  "admin_handler cfg rng now (CallUpdate d) = handleUpdateConfig cfg d rng now"
| "admin_handler cfg rng now CallBlock = handleBlock cfg rng now"
| "admin_handler cfg rng now CallUnblock = handleUnblock cfg"
| "admin_handler cfg rng now CallStatus = handleStatus rng"
| "admin_handler cfg rng now CallList = handleListClients rng"
| "admin_handler cfg rng now (CallGlobal d) = handleGlobalConfig cfg d now"
| "admin_handler cfg rng now CallFairness = handleFairness"

definition guarded :: "SecurityCfg \<Rightarrow> string range_order \<Rightarrow> gotime \<Rightarrow> admin_call \<Rightarrow> Service \<Rightarrow> Request \<Rightarrow> Service \<times> Response" where
  "guarded cfg rng now call = authMiddleware cfg (admin_handler cfg rng now call)"

lemma admin_handler_ok:
  assumes ok: "store_ok (svc_store svc)" and e: "is_range rng" "valid_time now" and k: "PathKey r \<noteq> ''__ip__''"
  shows "store_ok (svc_store (fst (admin_handler cfg rng now call svc r)))
    \<and> (status (snd (admin_handler cfg rng now call svc r)) \<noteq> 200 \<longrightarrow>
         fst (admin_handler cfg rng now call svc r) = svc)"
proof (cases call)
  case (CallUpdate d)
  show ?thesis
    using ok e k merged_safe [OF ok] UpdateClientConfig_ok(1) [OF ok e(1) ValidateAPIKey_key_ok e(2)]
    by (auto simp: CallUpdate handleUpdateConfig_def writeError_def reply_def Let_def split: option.split)
next
  case CallBlock
  with ok e k show ?thesis
    by (auto simp: handleBlock_def reply_def writeError_def Let_def intro: store_Block_ok ValidateAPIKey_key_ok)
next
  case CallUnblock
  with ok show ?thesis by (auto simp: handleUnblock_def reply_def writeError_def Let_def intro: store_Unblock_ok)
next
  case (CallGlobal d)
  have safe: "cfg_safe \<lparr>MaxTokens = m, RefillRate = q, RefillInterval = ms_duration i, TokensPerRequest = 1,
      SlidingWindowCfg = None\<rparr>" if "ValidateBucketConfig m q (ms_duration i) = None" for m q i
    using that by (intro ValidateBucketConfig_safe) (simp_all add: ms_duration_def, simp add: is_i64_def)
  show ?thesis
    using ok e DisableGlobal_ok [OF ok] SetGlobalConfig_ok [OF ok e(2) safe]
    by (auto simp: CallGlobal handleGlobalConfig_def writeError_def reply_def Let_def split: option.split)
qed (use ok in \<open>simp_all add: handleStatus_def handleListClients_def handleFairness_def reply_def writeError_def
      split: option.split\<close>)

text \<open>
  C30. Only the holder of the admin token is served.  With a token hash configured, a request
  reaches its handler exactly when its Authorization header is "Bearer " and a token whose
  salted SHA-256 is the configured hash; any other request is answered 401, changes neither
  the store, the metrics nor the fairness tracker, and is audited as an anomaly.
\<close>

theorem admin_authentication:
  assumes "AdminTokenHash cfg \<noteq> []" "guarded cfg rng now call svc r = (svc', resp)"
  shows "(\<exists>token. header_get r ''Authorization'' = ''Bearer '' @ token
        \<and> EncodeToString (Sum256 (AdminTokenSalt cfg @ '':'' @ token)) = AdminTokenHash cfg
        \<and> (svc', resp) = admin_handler cfg rng now call svc r)
    \<or> (\<not> (\<exists>token. header_get r ''Authorization'' = ''Bearer '' @ token
            \<and> EncodeToString (Sum256 (AdminTokenSalt cfg @ '':'' @ token)) = AdminTokenHash cfg)
        \<and> status resp = 401 \<and> svc_store svc' = svc_store svc \<and> svc_metrics svc' = svc_metrics svc
        \<and> svc_fairness svc' = svc_fairness svc
        \<and> (active (svc_audit svc) \<longrightarrow> (\<exists>kind. audit_trail (svc_audit svc') = audit_trail (svc_audit svc) @
             [AnomalyEntry LevelWarn kind [] (sourceIP r (TrustProxyHeaders cfg))])))"
proof -
  let ?a = "header_get r ''Authorization''"
  have pre: "HasPrefix ?a ''Bearer '' \<longleftrightarrow> (\<exists>token. ?a = ''Bearer '' @ token)"
    using HasPrefixD [of ?a "''Bearer ''"] by (metis HasPrefix_append(1))
  show ?thesis
  proof (cases "\<exists>token. ?a = ''Bearer '' @ token")
    case False
    then have "svc' = svc\<lparr>svc_audit := Anomaly (svc_audit svc) ''admin_auth_missing'' [] (sourceIP r (TrustProxyHeaders cfg))\<rparr>"
      "status resp = 401"
      using assms pre by (auto simp: guarded_def authMiddleware_def reply_def Let_def)
    with False trail_Anomaly [of "svc_audit svc"] show ?thesis by auto
  next
    case True
    then obtain token where t: "?a = ''Bearer '' @ token" by blast
    then have tp: "TrimPrefix ?a ''Bearer '' = token" by (simp only: HasPrefix_append(2))
    have same: "token' = token" if "?a = ''Bearer '' @ token'" for token' using that t by simp
    have hp: "HasPrefix ?a ''Bearer ''" using True pre by blast
    show ?thesis
    proof (cases "HashToken token (AdminTokenSalt cfg) = AdminTokenHash cfg")
      case True
      then have "(svc', resp) = admin_handler cfg rng now call svc r"
        using assms hp tp by (simp add: guarded_def authMiddleware_def ConstantTimeEqual_iff Let_def)
      with t True show ?thesis by (auto simp: HashToken_def)
    next
      case False
      then have "svc' = svc\<lparr>svc_audit := Anomaly (svc_audit svc) ''admin_auth_failed'' [] (sourceIP r (TrustProxyHeaders cfg))\<rparr>"
        "status resp = 401"
        using assms hp tp by (auto simp: guarded_def authMiddleware_def ConstantTimeEqual_iff reply_def Let_def)
      with False same trail_Anomaly [of "svc_audit svc"] show ?thesis by (auto simp: HashToken_def)
    qed
  qed
qed

theorem admin_authentication_witness:
  "\<exists>svc' resp. guarded (example_security\<lparr>AdminTokenHash := ''00''\<rparr>) (\<lambda>ks. ks) 5 CallBlock example_service
       (request_from ''alice'') = (svc', resp) \<and> status resp = 401 \<and> svc_store svc' = limited_store"
proof -
  let ?c = "example_security\<lparr>AdminTokenHash := ''00''\<rparr>"
  obtain svc' resp where g: "guarded ?c (\<lambda>ks. ks) 5 CallBlock example_service (request_from ''alice'') = (svc', resp)"
    by (cases "guarded ?c (\<lambda>ks. ks) 5 CallBlock example_service (request_from ''alice'')")
  have "header_get (request_from ''alice'') ''Authorization'' = []" by (simp add: header_get_def request_from_def)
  with admin_authentication [OF _ g] have "status resp = 401 \<and> svc_store svc' = svc_store example_service" by auto
  with g show ?thesis by (simp add: example_service_def)
qed



text \<open>
  The interval an admin asks for can wrap around.  Milliseconds are multiplied in 64 bits
  before the bounds are checked, so a request for some 584 years passes every check and
  installs an interval of about ten milliseconds.
\<close>

lemma admin_interval_wraps:
  "ms_duration 18446744073720 = 10448384 \<and> ValidateBucketConfig 100 10 (ms_duration 18446744073720) = None"
  by (simp add: ms_duration_def i64_def Millisecond_def ValidateBucketConfig_def Hour_def)

end
