(* ===== verification/Middleware.thy ===== *)
theory Middleware
  imports ClientServer
begin

text \<open>
  The connection limiter and the panic barrier of both servers
  (\<^verbatim>\<open>internal/server/middleware.go\<close>).  The limiter is a step relation: any number of
  goroutines accept and close connections, and a connection may be closed more than once.
  The semaphore is the number of tokens in the channel, whose capacity is the limit.
\<close>

section \<open>The limiting listener\<close>

record conn =
  closed :: bool
  released :: bool

record limitListener =
  sem :: nat
  limit :: nat
  accepting :: nat
  conns :: "(nat, conn) gomap"

definition LimitListener :: "int \<Rightarrow> limitListener option" where
  "LimitListener m =
     (if m \<le> 0 then None else Some \<lparr>sem = 0, limit = nat m, accepting = 0, conns = []\<rparr>)"

text \<open>\<open>acquire\<close> is the send on the channel at the start of \<^verbatim>\<open>Accept\<close>, which blocks while
  the channel is full; \<open>accepted\<close> and \<open>failed\<close> are the two ways the inner \<^verbatim>\<open>Accept\<close>
  returns; \<open>close_conn\<close> closes the inner connection and \<open>release_once\<close> is the
  \<^verbatim>\<open>sync.Once\<close> after it, whose receive needs a token in the channel.\<close>

inductive limit_step :: "limitListener \<Rightarrow> limitListener \<Rightarrow> bool" where
  acquire: "sem l < limit l \<Longrightarrow> limit_step l (l\<lparr>sem := sem l + 1, accepting := accepting l + 1\<rparr>)"
| accepted: "0 < accepting l \<Longrightarrow> gm_lookup (conns l) c = None \<Longrightarrow>
     limit_step l (l\<lparr>accepting := accepting l - 1, conns := gm_set c \<lparr>closed = False, released = False\<rparr> (conns l)\<rparr>)"
| failed: "0 < accepting l \<Longrightarrow> 0 < sem l \<Longrightarrow> limit_step l (l\<lparr>accepting := accepting l - 1, sem := sem l - 1\<rparr>)"
| close_conn: "gm_lookup (conns l) c = Some x \<Longrightarrow>
     limit_step l (l\<lparr>conns := gm_set c (x\<lparr>closed := True\<rparr>) (conns l)\<rparr>)"
| release_once: "gm_lookup (conns l) c = Some x \<Longrightarrow> closed x \<Longrightarrow> \<not> released x \<Longrightarrow> 0 < sem l \<Longrightarrow>
     limit_step l (l\<lparr>sem := sem l - 1, conns := gm_set c (x\<lparr>released := True\<rparr>) (conns l)\<rparr>)"

inductive limit_reach :: "limitListener \<Rightarrow> limitListener \<Rightarrow> bool" for l0 where
  start: "limit_reach l0 l0"
| step: "limit_reach l0 l \<Longrightarrow> limit_step l l' \<Longrightarrow> limit_reach l0 l'"

definition holders :: "limitListener \<Rightarrow> nat set" where
  "holders l = {c. \<exists>x. gm_lookup (conns l) c = Some x \<and> \<not> released x}"

definition open_conns :: "limitListener \<Rightarrow> nat set" where
  "open_conns l = {c. \<exists>x. gm_lookup (conns l) c = Some x \<and> \<not> closed x}"

definition limit_inv :: "limitListener \<Rightarrow> bool" where
  "limit_inv l \<longleftrightarrow> finite (holders l) \<and> sem l = accepting l + card (holders l) \<and> sem l \<le> limit l
     \<and> (\<forall>c x. gm_lookup (conns l) c = Some x \<and> released x \<longrightarrow> closed x)"

lemma holders_set:
  "holders (l\<lparr>conns := gm_set c x (conns l)\<rparr>) = (if released x then holders l - {c} else insert c (holders l))"
  by (auto simp: holders_def gm_lookup_set)

lemma holders_other [simp]:
  "holders (l\<lparr>sem := n\<rparr>) = holders l" "holders (l\<lparr>accepting := m\<rparr>) = holders l"
  by (simp_all add: holders_def)

lemma limit_inv_step:
  assumes "limit_inv l" "limit_step l l'"
  shows "limit_inv l' \<and> limit l' = limit l"
  using assms(2)
proof (cases rule: limit_step.cases)
  case acquire
  then show ?thesis using assms(1) by (auto simp: limit_inv_def holders_def)
next
  case (accepted c)
  have "c \<notin> holders l" using accepted by (simp add: holders_def)
  then have "holders l' = insert c (holders l)" "card (insert c (holders l)) = card (holders l) + 1"
    using accepted assms(1) by (auto simp: holders_def gm_lookup_set limit_inv_def)
  with accepted assms(1) show ?thesis by (auto simp: limit_inv_def gm_lookup_set)
next
  case failed
  then show ?thesis using assms(1) by (auto simp: limit_inv_def holders_def)
next
  case (close_conn c x)
  then have "holders l' = holders l" by (auto simp: holders_def gm_lookup_set)
  with close_conn assms(1) show ?thesis by (auto simp: limit_inv_def gm_lookup_set)
next
  case (release_once c x)
  then have c: "c \<in> holders l" "holders l' = holders l - {c}" by (auto simp: holders_def gm_lookup_set)
  have fin: "finite (holders l)" using assms(1) by (simp add: limit_inv_def)
  have "Suc (card (holders l')) = card (holders l)" unfolding c(2) by (rule card_Suc_Diff1 [OF fin c(1)])
  moreover have "finite (holders l')" using fin by (simp add: c(2))
  ultimately show ?thesis using release_once(1-4) release_once(5) assms(1)
    by (auto simp: limit_inv_def gm_lookup_set)
qed

lemma limit_reach_inv:
  assumes "limit_reach l0 l" "limit_inv l0"
  shows "limit_inv l \<and> limit l = limit l0"
  using assms
proof induction
  case (step l l')
  then show ?case using limit_inv_step by metis
qed simp

lemma LimitListener_inv: "LimitListener m = Some l \<Longrightarrow> limit_inv l \<and> limit l = nat m"
  by (auto simp: LimitListener_def limit_inv_def holders_def split: if_splits)

text \<open>
  C33. At most \<^verbatim>\<open>max\<close> connections are open at any time, however accepts, failures and
  repeated closes interleave; and a slot is given back exactly once per connection, so the
  receive that gives it back never blocks: whenever a closed connection still has its slot or
  an accept has failed, the channel holds a token.
\<close>

theorem connections_limited:
  assumes "LimitListener m = Some l0" "limit_reach l0 l"
  shows "int (card (open_conns l)) \<le> m \<and> sem l = accepting l + card (holders l) \<and> int (sem l) \<le> m
    \<and> (\<forall>c x. gm_lookup (conns l) c = Some x \<and> closed x \<and> \<not> released x \<longrightarrow> 0 < sem l)
    \<and> (0 < accepting l \<longrightarrow> 0 < sem l)"
proof -
  have pos: "0 < m" using assms(1) by (auto simp: LimitListener_def split: if_splits)
  have I: "limit_inv l" "limit l = nat m"
    using limit_reach_inv [OF assms(2)] LimitListener_inv [OF assms(1)] by auto
  then have f: "finite (holders l)" "sem l = accepting l + card (holders l)" "sem l \<le> nat m"
    and sub: "open_conns l \<subseteq> holders l"
    by (auto simp: limit_inv_def open_conns_def holders_def)
  have "card (open_conns l) \<le> card (holders l)" by (rule card_mono [OF f(1) sub])
  moreover have "0 < card (holders l)" if "gm_lookup (conns l) c = Some x" "\<not> released x" for c x
    using that f(1) by (auto simp: holders_def card_gt_0_iff)
  then have "0 < sem l" if "gm_lookup (conns l) c = Some x" "\<not> released x" for c x
    using that f(2) by (metis trans_less_add2)
  ultimately show ?thesis using f(2,3) pos by fastforce
qed

theorem connections_limited_witness:
  "\<exists>l0 l. LimitListener 1 = Some l0 \<and> limit_reach l0 l \<and> open_conns l = {7} \<and> int (card (open_conns l)) \<le> 1"
proof -
  define l0 where "l0 = \<lparr>sem = 0, limit = 1, accepting = 0, conns = []\<rparr>"
  define l1 where "l1 = \<lparr>sem = 1, limit = 1, accepting = 1, conns = []\<rparr>"
  define l2 where "l2 = \<lparr>sem = 1, limit = 1, accepting = 0, conns = [(7, \<lparr>closed = False, released = False\<rparr>)]\<rparr>"
  have L: "LimitListener 1 = Some l0" by (simp add: LimitListener_def l0_def)
  have "limit_step l0 l1" using limit_step.acquire [of l0] by (simp add: l0_def l1_def)
  moreover have "limit_step l1 l2" using limit_step.accepted [of l1 7] by (simp add: l1_def l2_def gm_set_def)
  ultimately have r: "limit_reach l0 l2" by (blast intro: limit_reach.intros)
  have o: "open_conns l2 = {7}" by (auto simp: open_conns_def l2_def gm_lookup_def split: if_splits)
  have "int (card (open_conns l2)) \<le> 1" using connections_limited [OF L r] by simp
  with L r o show ?thesis by blast
qed

section \<open>The panic barrier\<close>

text \<open>A handler that panics has returned no response, after whatever it did to the state.\<close>

definition RecoverMiddleware :: "('s \<Rightarrow> Request \<Rightarrow> 's \<times> Response option) \<Rightarrow> 's \<Rightarrow> Request \<Rightarrow> 's \<times> Response" where
  "RecoverMiddleware next s r =
     (case next s r of (s', Some resp) \<Rightarrow> (s', resp) | (s', None) \<Rightarrow> (s', reply 500 NoBody))"

end
