(* ===== verification/Listen.thy ===== *)
theory Listen
  imports AdminServer Middleware Config
begin

text \<open>
  The listeners of the two servers (\<^verbatim>\<open>ListenAndServe\<close> in
  \<^verbatim>\<open>internal/server/client_server.go\<close> and \<^verbatim>\<open>admin_server.go\<close>): the routing
  tables, the middleware around them, and the choice of the transport.

  Routing follows \<^verbatim>\<open>http.ServeMux\<close>: a path is the list of its unescaped segments, with a
  trailing slash as a last segment \<^verbatim>\<open>/\<close>; no two patterns of a table overlap.  What the
  operating system and the certificate files contain is the argument \<open>env\<close>;
  \<open>verify\<close> stands for the verification of a client certificate against the certificates of
  a PEM file.
\<close>

section \<open>Routing\<close>

datatype pattern_seg = Lit string | Wild

record 'h pattern =
  pMethod :: string
  pPath :: "pattern_seg list"
  pHandler :: 'h

fun match_path :: "pattern_seg list \<Rightarrow> string list \<Rightarrow> string list option" where
  "match_path [] [] = Some []"
| "match_path (Lit s # ps) (x # xs) = (if x = s then match_path ps xs else None)"
| "match_path (Wild # ps) (x # xs) = (if x = ''/'' then None else map_option ((#) x) (match_path ps xs))"
| "match_path _ _ = None"

definition method_ok :: "string \<Rightarrow> 'h pattern \<Rightarrow> bool" where
  "method_ok m p \<longleftrightarrow> m = pMethod p \<or> pMethod p = ''GET'' \<and> m = ''HEAD''"

datatype 'h outcome = Serve 'h "string list" | NotFound | MethodNotAllowed

definition serve_mux :: "'h pattern list \<Rightarrow> string \<Rightarrow> string list \<Rightarrow> 'h outcome" where
  "serve_mux routes m path =
     (case find (\<lambda>p. method_ok m p \<and> match_path (pPath p) path \<noteq> None) routes of
        Some p \<Rightarrow> Serve (pHandler p) (the (match_path (pPath p) path))
      | None \<Rightarrow> if \<exists>p \<in> set routes. match_path (pPath p) path \<noteq> None then MethodNotAllowed else NotFound)"

definition not_found :: Response where
  "not_found = reply 404 (TextBody ''404 page not found'')"

definition method_not_allowed :: Response where
  "method_not_allowed = reply 405 (TextBody ''Method Not Allowed'')"

definition no_panic :: "('s \<Rightarrow> Request \<Rightarrow> 's \<times> Response) \<Rightarrow> 's \<Rightarrow> Request \<Rightarrow> 's \<times> Response option" where
  "no_panic f s r = (let (s', resp) = f s r in (s', Some resp))"

section \<open>The client API\<close>

datatype client_call = CallRequest | CallHealth

definition client_routes :: "client_call pattern list" where
  "client_routes =
     [\<lparr>pMethod = ''POST'', pPath = [Lit ''api'', Lit ''v1'', Lit ''request''], pHandler = CallRequest\<rparr>,
      \<lparr>pMethod = ''GET'', pPath = [Lit ''healthz''], pHandler = CallHealth\<rparr>]"

definition client_mux :: "SecurityCfg \<Rightarrow> string range_order \<Rightarrow> float64 \<Rightarrow> clock_reads \<Rightarrow> string \<Rightarrow> string list
    \<Rightarrow> Service \<Rightarrow> Request \<Rightarrow> Service \<times> Response" where
  "client_mux cfg rng draw clk m path svc r =
     (case serve_mux client_routes m path of
        Serve CallRequest _ \<Rightarrow> handleRequest cfg rng draw clk svc r
      | Serve CallHealth _ \<Rightarrow> (svc, reply 200 NoBody)
      | NotFound \<Rightarrow> (svc, not_found)
      | MethodNotAllowed \<Rightarrow> (svc, method_not_allowed))"

definition client_serve :: "SecurityCfg \<Rightarrow> string range_order \<Rightarrow> float64 \<Rightarrow> clock_reads \<Rightarrow> string \<Rightarrow> string list
    \<Rightarrow> Service \<Rightarrow> Request \<Rightarrow> Service \<times> Response" where
  "client_serve cfg rng draw clk m path = RecoverMiddleware (no_panic (client_mux cfg rng draw clk m path))"

section \<open>The admin API\<close>

text \<open>\<open>du\<close> and \<open>dg\<close> decode the bodies of the two requests that have one.\<close>

definition client_path :: "string \<Rightarrow> pattern_seg list" where
  "client_path op = [Lit ''admin'', Lit ''v1'', Lit ''clients'', Wild, Lit op]"

definition admin_routes :: "(string \<Rightarrow> updateConfigRequest option) \<Rightarrow> (string \<Rightarrow> globalConfigRequest option)
    \<Rightarrow> admin_call pattern list" where
  "admin_routes du dg =
     [\<lparr>pMethod = ''PUT'', pPath = client_path ''config'', pHandler = CallUpdate du\<rparr>,
      \<lparr>pMethod = ''PUT'', pPath = client_path ''block'', pHandler = CallBlock\<rparr>,
      \<lparr>pMethod = ''PUT'', pPath = client_path ''unblock'', pHandler = CallUnblock\<rparr>,
      \<lparr>pMethod = ''GET'', pPath = client_path ''status'', pHandler = CallStatus\<rparr>,
      \<lparr>pMethod = ''GET'', pPath = [Lit ''admin'', Lit ''v1'', Lit ''clients''], pHandler = CallList\<rparr>,
      \<lparr>pMethod = ''PUT'', pPath = [Lit ''admin'', Lit ''v1'', Lit ''global'', Lit ''config''], pHandler = CallGlobal dg\<rparr>,
      \<lparr>pMethod = ''GET'', pPath = [Lit ''admin'', Lit ''v1'', Lit ''fairness''], pHandler = CallFairness\<rparr>]"

definition with_key :: "string list \<Rightarrow> Request \<Rightarrow> Request" where
  "with_key ks r = r\<lparr>PathKey := (case ks of k # _ \<Rightarrow> k | [] \<Rightarrow> [])\<rparr>"

definition admin_mux :: "SecurityCfg \<Rightarrow> (string \<Rightarrow> updateConfigRequest option) \<Rightarrow> (string \<Rightarrow> globalConfigRequest option)
    \<Rightarrow> string range_order \<Rightarrow> gotime \<Rightarrow> string \<Rightarrow> string list \<Rightarrow> Service \<Rightarrow> Request \<Rightarrow> Service \<times> Response" where
  "admin_mux cfg du dg rng now m path svc r =
     (case serve_mux (admin_routes du dg) m path of
        Serve call ks \<Rightarrow> admin_handler cfg rng now call svc (with_key ks r)
      | NotFound \<Rightarrow> (svc, not_found)
      | MethodNotAllowed \<Rightarrow> (svc, method_not_allowed))"

definition admin_serve :: "SecurityCfg \<Rightarrow> (string \<Rightarrow> updateConfigRequest option) \<Rightarrow> (string \<Rightarrow> globalConfigRequest option)
    \<Rightarrow> string range_order \<Rightarrow> gotime \<Rightarrow> string \<Rightarrow> string list \<Rightarrow> Service \<Rightarrow> Request \<Rightarrow> Service \<times> Response" where
  "admin_serve cfg du dg rng now m path =
     RecoverMiddleware (no_panic (authMiddleware cfg (admin_mux cfg du dg rng now m path)))"

section \<open>The transport\<close>

record listen_env =
  canListen :: "int \<Rightarrow> bool"
  keyPairOk :: "string \<Rightarrow> string \<Rightarrow> bool"
  readFile :: "string \<Rightarrow> string option"
  pemOk :: "string \<Rightarrow> bool"

datatype listen_error = ListenFailed int | KeyPairFailed | CAUnreadable | CAInvalid

datatype transport = PlainHTTP | ServerTLS | MutualTLS string

datatype listen_log = ListeningTLS | ListeningMTLS | WarnNoTLS | WarnNoAuth

definition client_listen :: "ServerConfig \<Rightarrow> listen_env \<Rightarrow> listen_error + transport \<times> listen_log list" where
  "client_listen sc env =
     (if \<not> canListen env (ClientPort sc) then Inl (ListenFailed (ClientPort sc))
      else if CertFile (TLS sc) \<noteq> [] \<and> KeyFile (TLS sc) \<noteq> []
           then (if \<not> keyPairOk env (CertFile (TLS sc)) (KeyFile (TLS sc)) then Inl KeyPairFailed
                 else Inr (ServerTLS, [ListeningTLS]))
      else Inr (PlainHTTP, [WarnNoTLS]))"

definition admin_transport :: "TLSConfig \<Rightarrow> listen_env \<Rightarrow> listen_error + transport \<times> listen_log list" where
  "admin_transport t env =
     (if CertFile t \<noteq> [] \<and> KeyFile t \<noteq> []
      then (if \<not> keyPairOk env (CertFile t) (KeyFile t) then Inl KeyPairFailed
            else if ClientCAFile t \<noteq> []
                 then (case readFile env (ClientCAFile t) of
                         None \<Rightarrow> Inl CAUnreadable
                       | Some pem \<Rightarrow> if \<not> pemOk env pem then Inl CAInvalid else Inr (MutualTLS pem, [ListeningMTLS]))
                 else Inr (ServerTLS, [ListeningTLS]))
      else Inr (PlainHTTP, [WarnNoTLS]))"

definition admin_listen :: "ServerConfig \<Rightarrow> string \<Rightarrow> listen_env \<Rightarrow> listen_error + transport \<times> listen_log list" where
  "admin_listen sc tokenHash env =
     (if \<not> canListen env (AdminPort sc) then Inl (ListenFailed (AdminPort sc))
      else case admin_transport (AdminTLS sc) env of
             Inl e \<Rightarrow> Inl e
           | Inr (tr, logs) \<Rightarrow>
               Inr (tr, logs @ (if ClientCAFile (AdminTLS sc) = [] \<and> tokenHash = [] then [WarnNoAuth] else [])))"

text \<open>Which peers get through the handshake, and the name a handler sees.\<close>

definition accepts :: "(string \<Rightarrow> 'cert \<Rightarrow> bool) \<Rightarrow> transport \<Rightarrow> 'cert option \<Rightarrow> bool" where
  "accepts verify tr peer = (case tr of MutualTLS pem \<Rightarrow> (case peer of Some c \<Rightarrow> verify pem c | None \<Rightarrow> False) | _ \<Rightarrow> True)"

definition peer_name :: "('cert \<Rightarrow> string) \<Rightarrow> transport \<Rightarrow> 'cert option \<Rightarrow> string option" where
  "peer_name cn tr peer = (case tr of MutualTLS pem \<Rightarrow> map_option cn peer | _ \<Rightarrow> None)"

definition admin_exchange :: "(string \<Rightarrow> 'cert \<Rightarrow> bool) \<Rightarrow> ('cert \<Rightarrow> string) \<Rightarrow> transport \<Rightarrow> 'cert option \<Rightarrow>
    (Service \<Rightarrow> Request \<Rightarrow> Service \<times> Response) \<Rightarrow> Service \<Rightarrow> Request \<Rightarrow> (Service \<times> Response) option" where
  "admin_exchange verify cn tr peer serve svc r =
     (if accepts verify tr peer then Some (serve svc (r\<lparr>PeerCommonName := peer_name cn tr peer\<rparr>)) else None)"

section \<open>Properties\<close>

lemma RecoverMiddleware_no_panic [simp]: "RecoverMiddleware (no_panic f) s r = f s r"
  by (simp add: RecoverMiddleware_def no_panic_def Let_def split: prod.split)

lemma serve_mux_route:
  assumes "serve_mux routes m path = Serve call ks"
  obtains p where "p \<in> set routes" "pHandler p = call" "method_ok m p" "match_path (pPath p) path = Some ks"
  using assms by (auto simp: serve_mux_def find_Some_iff split: option.splits if_splits) (metis nth_mem)

lemma match_path_subset: "match_path ps path = Some ks \<Longrightarrow> set ks \<subseteq> set path"
  by (induction ps path arbitrary: ks rule: match_path.induct) (auto split: if_splits)

lemma admin_mux_keeps:
  assumes "store_ok (svc_store svc)" "is_range rng" "valid_time now" "''__ip__'' \<notin> set path"
  shows "store_ok (svc_store (fst (admin_mux cfg du dg rng now m path svc r)))"
proof (cases "serve_mux (admin_routes du dg) m path")
  case (Serve call ks)
  obtain p where "p \<in> set (admin_routes du dg)" "match_path (pPath p) path = Some ks"
    by (rule serve_mux_route [OF Serve])
  then have "''__ip__'' \<notin> set ks" using match_path_subset assms(4) by blast
  then have "PathKey (with_key ks r) \<noteq> ''__ip__''" by (auto simp: with_key_def split: list.splits)
  then show ?thesis using admin_handler_ok [OF assms(1-3)] Serve by (simp add: admin_mux_def)
qed (use assms in \<open>simp_all add: admin_mux_def\<close>)

definition read_only :: "admin_call \<Rightarrow> bool" where
  "read_only call = (case call of CallStatus \<Rightarrow> True | CallList \<Rightarrow> True | CallFairness \<Rightarrow> True | _ \<Rightarrow> False)"

lemma read_only_handler: "read_only call \<Longrightarrow> fst (admin_handler cfg rng now call svc r) = svc"
  by (cases call) (simp_all add: read_only_def handleStatus_def handleListClients_def handleFairness_def split: option.split)

lemma admin_routes_methods:
  "p \<in> set (admin_routes du dg) \<Longrightarrow> method_ok m p \<Longrightarrow> \<not> read_only (pHandler p) \<Longrightarrow> m = ''PUT''"
  by (auto simp: admin_routes_def method_ok_def read_only_def)

lemma admin_mux_put:
  assumes "fst (admin_mux cfg du dg rng now m path svc r) \<noteq> svc"
  shows "m = ''PUT''"
proof (cases "serve_mux (admin_routes du dg) m path")
  case (Serve call ks)
  obtain p where p: "p \<in> set (admin_routes du dg)" "pHandler p = call" "method_ok m p"
    by (rule serve_mux_route [OF Serve])
  have "\<not> read_only call" using assms Serve read_only_handler [of call] by (auto simp: admin_mux_def)
  with p show ?thesis using admin_routes_methods by blast
qed (use assms in \<open>simp_all add: admin_mux_def\<close>)

lemma authMiddleware_store:
  assumes "svc_store (fst (authMiddleware cfg next svc r)) \<noteq> svc_store svc"
  shows "authMiddleware cfg next svc r = next svc r"
    "AdminTokenHash cfg \<noteq> [] \<Longrightarrow> \<exists>token. header_get r ''Authorization'' = ''Bearer '' @ token
        \<and> HashToken token (AdminTokenSalt cfg) = AdminTokenHash cfg"
proof -
  show "authMiddleware cfg next svc r = next svc r"
    using assms by (simp add: authMiddleware_def Let_def split: if_splits)
  assume h: "AdminTokenHash cfg \<noteq> []"
  have p: "HasPrefix (header_get r ''Authorization'') ''Bearer ''"
    and e: "ConstantTimeEqual (HashToken (TrimPrefix (header_get r ''Authorization'') ''Bearer '') (AdminTokenSalt cfg))
      (AdminTokenHash cfg)"
    using assms h by (simp_all add: authMiddleware_def Let_def split: if_splits)
  from p obtain token where t: "header_get r ''Authorization'' = ''Bearer '' @ token"
    by (metis HasPrefix_def append_take_drop_id)
  with e show "\<exists>token. header_get r ''Authorization'' = ''Bearer '' @ token
      \<and> HashToken token (AdminTokenSalt cfg) = AdminTokenHash cfg"
    by (auto simp: ConstantTimeEqual_iff TrimPrefix_def HasPrefix_def)
qed


text \<open>An admin listener with certificate, key and client CA, and a peer whose certificate is
  accepted.\<close>

definition example_server :: ServerConfig where
  "example_server = \<lparr>ClientPort = 8080, AdminPort = 9090, TLS = noTLS,
     AdminTLS = \<lparr>CertFile = ''c'', KeyFile = ''k'', ClientCAFile = ''ca''\<rparr>\<rparr>"

definition example_env :: listen_env where
  "example_env = \<lparr>canListen = (\<lambda>_. True), keyPairOk = (\<lambda>_ _. True), readFile = (\<lambda>_. Some ''pem''), pemOk = (\<lambda>_. True)\<rparr>"

definition block_exchange :: "(Service \<times> Response) option" where
  "block_exchange = admin_exchange (\<lambda>_ c. c = ''alice'') id (MutualTLS ''pem'') (Some ''alice'')
     (admin_serve example_security (\<lambda>_. None) (\<lambda>_. None) (\<lambda>ks. ks) 1200 ''PUT''
        [''admin'', ''v1'', ''clients'', ''bob'', ''block''])
     example_service (request_from ''alice'')"

lemma block_exchange_changes:
  "\<exists>svc' resp. block_exchange = Some (svc', resp) \<and> svc_store svc' \<noteq> svc_store example_service"
proof -
  have v: "ValidateAPIKey ''bob'' = None"
    by (simp add: ValidateAPIKey_def apiKeyPattern_def key_char_def byte_def)
  have st: "svc_store (fst (the block_exchange)) = store_Block (\<lambda>ks. ks) limited_store ''bob'' 1200"
    by (simp add: block_exchange_def admin_exchange_def admin_serve_def accepts_def authMiddleware_def
        example_security_def admin_mux_def serve_mux_def admin_routes_def method_ok_def client_path_def
        with_key_def handleBlock_def v example_service_def Let_def)
  have "gm_lookup (clients (store_Block (\<lambda>ks. ks) limited_store ''bob'' 1200)) ''bob'' \<noteq> None"
    "gm_lookup (clients limited_store) ''bob'' = None" by code_simp+
  then have ne: "store_Block (\<lambda>ks. ks) limited_store ''bob'' 1200 \<noteq> limited_store" by auto
  have "block_exchange \<noteq> None" by (simp add: block_exchange_def admin_exchange_def accepts_def)
  then obtain svc' resp where x: "block_exchange = Some (svc', resp)" by auto
  have "svc_store svc' \<noteq> svc_store example_service"
    using st ne by (simp add: x example_service_def)
  with x show ?thesis by blast
qed


text \<open>
  Mutual TLS can be off although it is configured.  When a client CA is configured but the
  certificate or the key is missing, and there is no token, the admin API listens on plain
  HTTP and serves every request of anybody; the warning that the API is unauthenticated is
  not logged.
\<close>

theorem mtls_silently_off:
  assumes "ClientCAFile (AdminTLS sc) \<noteq> []" "CertFile (AdminTLS sc) = [] \<or> KeyFile (AdminTLS sc) = []"
    "AdminTokenHash cfg = []" "canListen env (AdminPort sc)"
  shows "admin_listen sc (AdminTokenHash cfg) env = Inr (PlainHTTP, [WarnNoTLS])
    \<and> admin_exchange verify cn PlainHTTP peer (admin_serve cfg du dg rng now m path) svc r
        = Some (admin_mux cfg du dg rng now m path svc (r\<lparr>PeerCommonName := None\<rparr>))"
  using assms
  by (auto simp: admin_listen_def admin_transport_def admin_exchange_def accepts_def peer_name_def admin_serve_def
      authMiddleware_def)

theorem mtls_silently_off_witness:
  "admin_listen (example_server\<lparr>AdminTLS := \<lparr>CertFile = [], KeyFile = [], ClientCAFile = ''ca''\<rparr>\<rparr>) [] example_env
     = Inr (PlainHTTP, [WarnNoTLS])"
  using mtls_silently_off [of "example_server\<lparr>AdminTLS := \<lparr>CertFile = [], KeyFile = [], ClientCAFile = ''ca''\<rparr>\<rparr>"
      example_security example_env "\<lambda>_ _. True" id None "\<lambda>_. None" "\<lambda>_. None" "\<lambda>ks. ks" 1200 "''GET''" "[]"
      example_service "request_from ''alice''"]
  by (auto simp: example_env_def example_security_def)

end
