(* ===== verification/Sentinel.thy ===== *)
theory Sentinel
  imports ConfigParse Listen
begin

text \<open>
  The service binary (\<^verbatim>\<open>cmd/sentinel/main.go\<close>): translation of the configuration, start-up of
  the store with its scheduler, the gauges, and the service as a whole, a sequence of client
  requests, admin requests and scheduler ticks.

  The listeners' goroutines, signals and the end of the process are the subject of \<open>Lifecycle\<close>.
\<close>

section \<open>Start-up\<close>

definition toBucketConfig :: "BucketDefaults \<Rightarrow> bucket_Config" where
  "toBucketConfig bd =
     \<lparr>MaxTokens = bdMaxTokens bd, RefillRate = bdRefillRate bd, RefillInterval = bdRefillInterval bd,
      TokensPerRequest = bdTokensPerRequest bd,
      SlidingWindowCfg = (case bdSlidingWindow bd of
          None \<Rightarrow> None
        | Some w \<Rightarrow> if swEnabled w
                   then Some \<lparr>wEnabled = True, WindowDuration = swWindowDuration w, MaxRequests = swMaxRequests w,
                              BufferSize = swBufferSize w\<rparr>
                   else None)\<rparr>"

definition levelFromString :: "string \<Rightarrow> level" where
  "levelFromString s =
     (if s = ''debug'' then LevelDebug else if s = ''warn'' then LevelWarn
      else if s = ''error'' then LevelError else LevelInfo)"

definition put_tier :: "Config \<Rightarrow> string \<Rightarrow> (string, bucket_Config) gomap \<Rightarrow> (string, bucket_Config) gomap" where
  "put_tier c name m =
     (case gm_lookup (TiersSec c) name of Some bd \<Rightarrow> gm_set name (toBucketConfig bd) m | None \<Rightarrow> m)"

definition tier_table :: "string range_order \<Rightarrow> Config \<Rightarrow> (string, bucket_Config) gomap" where
  "tier_table rng c =
     fold (put_tier c) (rng (gm_keys (TiersSec c))) (gm_set ''default'' (toBucketConfig (Defaults c)) [])"

definition globalConfig :: "Config \<Rightarrow> bucket_Config" where
  "globalConfig c = \<lparr>MaxTokens = gloMaxTokens (GlobalSec c), RefillRate = gloRefillRate (GlobalSec c),
     RefillInterval = gloRefillInterval (GlobalSec c), TokensPerRequest = 1, SlidingWindowCfg = None\<rparr>"

definition ipConfig :: "Config \<Rightarrow> bucket_Config" where
  "ipConfig c = \<lparr>MaxTokens = secIPMaxTokens (SecuritySec c), RefillRate = secIPRefillRate (SecuritySec c),
     RefillInterval = secIPRefillInterval (SecuritySec c), TokensPerRequest = 1, SlidingWindowCfg = None\<rparr>"

definition build_store :: "string range_order \<Rightarrow> Config \<Rightarrow> gotime \<Rightarrow> BucketStore" where
  "build_store rng c now =
     (let st = store_New \<lparr>optMaxClients = limMaxClients (LimitsSec c), optTierDefaults = tier_table rng c\<rparr>;
          st = AttachScheduler st sched_New;
          st = (if gloEnabled (GlobalSec c) then SetGlobalConfig st (globalConfig c) now else st)
      in if secEnableIPSecondaryLimit (SecuritySec c) then SetIPLimit rng st True (ipConfig c) else st)"

datatype startup_error = LoadFailed load_error | InvalidConfig config_error

definition startup :: "string range_order \<Rightarrow> (string \<Rightarrow> file_state) \<Rightarrow> string \<Rightarrow> gotime
    \<Rightarrow> startup_error + Config \<times> BucketStore" where
  "startup rng fs path now =
     (case Load fs path of
        Inl e \<Rightarrow> Inl (LoadFailed e)
      | Inr c \<Rightarrow> (case Validate c of
                    Some e \<Rightarrow> Inl (InvalidConfig e)
                  | None \<Rightarrow> Inr (c, build_store rng c now)))"

text \<open>The part of the configuration that the handlers read.\<close>

definition security_view :: "Config \<Rightarrow> SecurityCfg" where
  "security_view c = \<lparr>AdminTokenHash = secAdminTokenHash (SecuritySec c), AdminTokenSalt = secAdminTokenSalt (SecuritySec c),
     IdentityMode = secIdentityMode (SecuritySec c), TrustProxyHeaders = secTrustProxyHeaders (SecuritySec c),
     MinRefillInterval = limMinRefillInterval (LimitsSec c), MaxRefillInterval = limMaxRefillInterval (LimitsSec c)\<rparr>"

section \<open>The service\<close>

text \<open>One tick of \<^verbatim>\<open>reportMetricsLoop\<close>.\<close>

definition report_metrics :: "BucketStore \<Rightarrow> Scheduler \<Rightarrow> Registry \<Rightarrow> Registry" where
  "report_metrics st sc reg = reg\<lparr>
     ActiveClientsGauge := gauge_Set (ActiveClientsGauge reg) (ActiveClients st),
     SchedulerHeapSize := gauge_Set (SchedulerHeapSize reg) (HeapSize sc),
     SchedulerRefills := gauge_Set (SchedulerRefills reg) (RefillsTotal sc),
     EvictionsTotal := gauge_Set (EvictionsTotal reg) (Evictions st)\<rparr>"

datatype service_event =
    ClientCall "string range_order" float64 clock_reads string "string list" Request
  | AdminCall "string \<Rightarrow> updateConfigRequest option" "string \<Rightarrow> globalConfigRequest option" "string range_order" gotime
      string "string list" Request
  | RefillTick gotime
  | ReportTick

fun service_step :: "SecurityCfg \<Rightarrow> Service \<Rightarrow> service_event \<Rightarrow> Service" where
  "service_step cfg svc (ClientCall rng draw clk m path r) = fst (client_serve cfg rng draw clk m path svc r)"
| "service_step cfg svc (AdminCall du dg rng now m path r) = fst (admin_serve cfg du dg rng now m path svc r)"
| "service_step cfg svc (RefillTick now) = svc\<lparr>svc_store := store_tick (svc_store svc) now\<rparr>"
| "service_step cfg svc ReportTick =
     (case scheduler (svc_store svc) of
        None \<Rightarrow> svc
      | Some sc \<Rightarrow> svc\<lparr>svc_metrics := map_option (report_metrics (svc_store svc) sc) (svc_metrics svc)\<rparr>)"

fun service_run :: "SecurityCfg \<Rightarrow> Service \<Rightarrow> service_event list \<Rightarrow> Service" where
  "service_run cfg svc [] = svc"
| "service_run cfg svc (e # es) = service_run cfg (service_step cfg svc e) es"

text \<open>The clock is within range, and nobody uses the reserved word \<^verbatim>\<open>__ip__\<close> as a key.\<close>

fun service_event_ok :: "SecurityCfg \<Rightarrow> service_event \<Rightarrow> bool" where
  "service_event_ok cfg (ClientCall rng draw clk m path r) \<longleftrightarrow>
     is_range rng \<and> valid_time (nowTime clk) \<and> caller cfg r \<noteq> ''__ip__''"
| "service_event_ok cfg (AdminCall du dg rng now m path r) \<longleftrightarrow>
     is_range rng \<and> valid_time now \<and> ''__ip__'' \<notin> set path"
| "service_event_ok cfg (RefillTick now) \<longleftrightarrow> valid_time now"
| "service_event_ok cfg ReportTick \<longleftrightarrow> True"

section \<open>Start-up gives a sound store\<close>

definition headroom :: "int64 \<Rightarrow> int64 \<Rightarrow> duration \<Rightarrow> bool" where
  "headroom m q i \<longleftrightarrow> 0 \<le> m \<and> 0 \<le> q \<and> (0 < i \<longrightarrow> m + (max_i64 div i) * q \<le> max_i64)"

definition defaults_headroom :: "BucketDefaults \<Rightarrow> bool" where
  "defaults_headroom b \<longleftrightarrow> headroom (bdMaxTokens b) (bdRefillRate b) (bdRefillInterval b)
     \<and> (case bdSlidingWindow b of None \<Rightarrow> True
          | Some w \<Rightarrow> swEnabled w \<longrightarrow> 0 \<le> swWindowDuration w \<and> swMaxRequests w < max_i64)"

text \<open>What neither the types nor \<^verbatim>\<open>Validate\<close> ensure: refilling does not overflow, and the tiers,
  the global and the IP bucket have no negative numbers.\<close>

definition operator_ok :: "Config \<Rightarrow> bool" where
  "operator_ok c \<longleftrightarrow> defaults_headroom (Defaults c)
     \<and> list_all (\<lambda>(name, b). defaults_headroom b) (TiersSec c)
     \<and> (gloEnabled (GlobalSec c) \<longrightarrow>
          headroom (gloMaxTokens (GlobalSec c)) (gloRefillRate (GlobalSec c)) (gloRefillInterval (GlobalSec c)))
     \<and> (secEnableIPSecondaryLimit (SecuritySec c) \<longrightarrow>
          headroom (secIPMaxTokens (SecuritySec c)) (secIPRefillRate (SecuritySec c)) (secIPRefillInterval (SecuritySec c)))"

lemma toBucketConfig_safe: "defaults_typed b \<Longrightarrow> defaults_headroom b \<Longrightarrow> cfg_safe (toBucketConfig b)"
  by (auto simp: defaults_typed_def defaults_headroom_def headroom_def cfg_safe_def toBucketConfig_def
      window_cfg_ok_def is_i64_def max_i64_def split: option.splits)

lemma operator_tier:
  assumes "config_typed c" "operator_ok c" "gm_lookup (TiersSec c) name = Some b"
  shows "cfg_safe (toBucketConfig b)"
proof -
  have "(name, b) \<in> set (TiersSec c)" using assms(3) by (simp add: gm_lookup_def map_of_SomeD)
  then show ?thesis
    using assms by (intro toBucketConfig_safe) (auto simp: config_typed_def tiers_typed_def operator_ok_def list_all_iff)
qed

lemma tier_table_safe:
  assumes "config_typed c" "operator_ok c" "gm_lookup (tier_table rng c) t = Some bc"
  shows "cfg_safe bc"
proof -
  have d: "cfg_safe (toBucketConfig (Defaults c))"
    using assms(1,2) by (intro toBucketConfig_safe) (auto simp: config_typed_def operator_ok_def)
  define safe where "safe m \<longleftrightarrow> (\<forall>t bc. gm_lookup m t = Some bc \<longrightarrow> cfg_safe bc)" for m :: "(string, bucket_Config) gomap"
  have "safe (put_tier c n m)" if "safe m" for n m
    using that operator_tier [OF assms(1,2), of n]
    by (cases "gm_lookup (TiersSec c) n") (simp_all add: safe_def put_tier_def gm_lookup_set)
  then have "safe (fold (put_tier c) ns m)" if "safe m" for ns m
    using that by (induction ns arbitrary: m) simp_all
  moreover have "safe (gm_set ''default'' (toBucketConfig (Defaults c)) [])"
    using d by (simp add: safe_def gm_lookup_set)
  ultimately have "safe (tier_table rng c)" by (simp add: tier_table_def)
  then show ?thesis using assms(3) by (simp add: safe_def)
qed

lemma plain_config_safe:
  assumes "headroom m q i" "is_i64 m" "is_i64 i"
  shows "cfg_safe \<lparr>MaxTokens = m, RefillRate = q, RefillInterval = i, TokensPerRequest = 1, SlidingWindowCfg = None\<rparr>"
  using assms by (simp add: headroom_def cfg_safe_def is_i64_def max_i64_def)

lemma build_store_ok:
  assumes "config_typed c" "operator_ok c" "valid_time now"
  shows "store_ok (build_store rng c now)"
    "capacities (build_store rng c now) =
       capacities (AttachScheduler (store_New \<lparr>optMaxClients = limMaxClients (LimitsSec c),
          optTierDefaults = tier_table rng c\<rparr>) sched_New)"
proof -
  let ?s = "AttachScheduler (store_New \<lparr>optMaxClients = limMaxClients (LimitsSec c),
    optTierDefaults = tier_table rng c\<rparr>) sched_New"
  have s: "store_ok ?s"
    by (rule store_New_ok) (simp add: opts_ok_def tier_table_safe [OF assms(1,2)])
  have g: "cfg_safe (globalConfig c)" if "gloEnabled (GlobalSec c)"
    unfolding globalConfig_def using assms(1,2) that
    by (intro plain_config_safe) (simp_all add: config_typed_def operator_ok_def)
  have i: "cfg_safe (ipConfig c)" if "secEnableIPSecondaryLimit (SecuritySec c)"
    unfolding ipConfig_def using assms(1,2) that
    by (intro plain_config_safe) (simp_all add: config_typed_def operator_ok_def)
  show "store_ok (build_store rng c now)"
    using s g i assms(3) by (simp add: build_store_def Let_def SetGlobalConfig_ok SetIPLimit_ok)
  show "capacities (build_store rng c now) = capacities ?s"
    by (simp add: build_store_def Let_def)
qed

section \<open>The running service\<close>

lemma client_serve_store:
  "svc_store (fst (client_serve cfg rng draw clk m path svc r)) = svc_store svc \<or>
   well_formed cfg r \<and> svc_store (fst (client_serve cfg rng draw clk m path svc r)) =
     fst (store_Allow rng (nowTime clk) (svc_store svc) (the_request cfg clk r))"
  using handleRequest_decided(1) [of cfg r rng draw clk svc] handleRequest_malformed(1) [of cfg r rng draw clk svc]
  by (cases "well_formed cfg r") (simp_all add: client_serve_def client_mux_def split: outcome.split client_call.split)

lemma service_step_ok:
  assumes "store_ok (svc_store svc)" "service_event_ok cfg e"
  shows "store_ok (svc_store (service_step cfg svc e))"
proof (cases e)
  case (ClientCall rng draw clk m path r)
  have "store_ok (fst (store_Allow rng (nowTime clk) (svc_store svc) (the_request cfg clk r)))" if "well_formed cfg r"
  proof -
    have "key_ok (caller cfg r)" using that assms(2) by (simp add: ClientCall well_formed_def ValidateAPIKey_key_ok)
    then show ?thesis
      using assms by (intro store_Allow_ok(1)) (simp_all add: ClientCall req_time_the_request, simp add: the_request_def)
  qed
  then show ?thesis
    using client_serve_store [of cfg rng draw clk m path svc r] assms(1) by (auto simp: ClientCall)
next
  case (AdminCall du dg rng now m path r)
  then show ?thesis
    using assms admin_mux_keeps [of svc rng now path cfg du dg m r]
    by (simp add: admin_serve_def authMiddleware_def Let_def)
next
  case (RefillTick now)
  then show ?thesis using assms by (simp add: store_tick_ok)
next
  case ReportTick
  then show ?thesis using assms by (simp split: option.split)
qed

lemma capacities_admin_handler: "capacities (svc_store (fst (admin_handler cfg rng now call svc r))) = capacities (svc_store svc)"
  by (cases call)
    (simp_all add: handleUpdateConfig_def handleBlock_def handleUnblock_def handleStatus_def handleListClients_def
      handleGlobalConfig_def handleFairness_def Let_def split: option.split)

lemma capacities_service_step: "capacities (svc_store (service_step cfg svc e)) = capacities (svc_store svc)"
proof (cases e)
  case (ClientCall rng draw clk m path r)
  then show ?thesis using client_serve_store [of cfg rng draw clk m path svc r] by auto
next
  case (AdminCall du dg rng now m path r)
  then show ?thesis
    by (simp add: admin_serve_def authMiddleware_def admin_mux_def capacities_admin_handler Let_def split: outcome.split)
qed (simp_all split: option.split)

interpretation sv: safe_system "service_step cfg" "\<lambda>svc. store_ok (svc_store svc)" "service_event_ok cfg"
  "\<lambda>svc. capacities (svc_store svc)" for cfg
  by unfold_locales (simp_all add: service_step_ok capacities_service_step)

lemma service_run_is_run: "service_run cfg svc es = sv.run cfg svc es"
  by (induction es arbitrary: svc) simp_all


lemma Default_valid: "Validate Default = None"
proof -
  have "0 \<le> rnd (1 / 100)" "rnd (1 / 100) \<le> rnd 1" by (rule rnd_nonneg, simp) (rule rnd_mono, simp)
  moreover have "rnd 1 = 1" using float_of_exact [of 1] by (simp add: float_of_def)
  ultimately show ?thesis by (simp add: Validate_def Default_def bad_port_def gf_less_def gf_greater_def)
qed

lemma Default_operator_ok: "operator_ok Default"
  by (simp add: operator_ok_def Default_def defaults_headroom_def headroom_def max_i64_def Second_def)

definition default_service :: Service where
  "default_service = \<lparr>svc_store = build_store (\<lambda>ks. ks) Default 1000, svc_fairness = None, svc_audit = None,
     svc_metrics = Some NewRegistry\<rparr>"

definition default_events :: "service_event list" where
  "default_events =
     [ClientCall (\<lambda>ks. ks) 0 example_clock ''POST'' [''api'', ''v1'', ''request''] (request_from ''alice''),
      AdminCall (\<lambda>_. None) (\<lambda>_. None) (\<lambda>ks. ks) 1100 ''PUT'' [''admin'', ''v1'', ''clients'', ''alice'', ''block'']
        (request_from ''alice''),
      RefillTick 2000000000, ReportTick]"


definition bad_tier :: BucketDefaults where
  "bad_tier = \<lparr>bdMaxTokens = -5, bdRefillRate = -1, bdRefillInterval = Second, bdTokensPerRequest = 1,
     bdSlidingWindow = None\<rparr>"

text \<open>
  Validation does not look at the tiers.  Whatever tiers a configuration has, the outcome
  of \<^verbatim>\<open>Validate\<close> is the same; a tier with a negative number of tokens and a negative refill
  rate is handed to the store as it is.
\<close>

theorem tiers_not_validated:
  "Validate (c\<lparr>TiersSec := t\<rparr>) = Validate c \<and>
   map_option MaxTokens (gm_lookup (tierDefaults
     (build_store (\<lambda>ks. ks) (Default\<lparr>TiersSec := [(''gold'', bad_tier)]\<rparr>) 1000)) ''gold'') = Some (-5)"
proof
  show "Validate (c\<lparr>TiersSec := t\<rparr>) = Validate c"
    by (cases c) (simp only: Validate_def Config.update_convs Config.select_convs)
  show "map_option MaxTokens (gm_lookup (tierDefaults
     (build_store (\<lambda>ks. ks) (Default\<lparr>TiersSec := [(''gold'', bad_tier)]\<rparr>) 1000)) ''gold'') = Some (-5)"
    by (simp add: build_store_def Default_def AttachScheduler_def store_New_def tier_table_def put_tier_def
        gm_keys_def gm_lookup_set gm_lookup_def toBucketConfig_def bad_tier_def DefaultTier_def gm_set_def Let_def)
qed

text \<open>A sampling rate spelled \<^verbatim>\<open>nan\<close> is accepted as well: every comparison with NaN is
  false.\<close>

lemma nan_sample_rate_accepted:
  "ParseFloat ''nan'' = Some NaN" "Validate (Default\<lparr>LoggingSec := (LoggingSec Default)\<lparr>logRequestSampleRate := NaN\<rparr>\<rparr>) = None"
proof -
  show "ParseFloat ''nan'' = Some NaN"
    by (simp add: ParseFloat_def special_def sign_of_def lower_def byte_def)
  have "Validate (Default\<lparr>LoggingSec := (LoggingSec Default)\<lparr>logRequestSampleRate := NaN\<rparr>\<rparr>) = Validate Default"
    using Default_valid by (simp add: Validate_def gf_less_def gf_greater_def Default_def bad_port_def)
  then show "Validate (Default\<lparr>LoggingSec := (LoggingSec Default)\<lparr>logRequestSampleRate := NaN\<rparr>\<rparr>) = None"
    by (simp add: Default_valid)
qed

end
