(* ===== verification/Lifecycle.thy ===== *)
theory Lifecycle
  imports Sentinel
begin

text \<open>
  The life of the service process (\<^verbatim>\<open>main\<close> in \<^verbatim>\<open>cmd/sentinel/main.go\<close> after the store has been
  built, with \<^verbatim>\<open>ListenAndServe\<close> and \<^verbatim>\<open>Shutdown\<close> of the servers): the goroutines of the listeners,
  the wait group, the signal context, the five-second deadline, and the audit file.

  Of \<^verbatim>\<open>http.Server\<close> the model has what the program relies on: \<^verbatim>\<open>Serve\<close> accepts connections until
  \<^verbatim>\<open>Shutdown\<close> is called, and then, or when it was called before, returns \<^verbatim>\<open>ErrServerClosed\<close>; it
  returns another error when accepting fails; \<^verbatim>\<open>Shutdown\<close> returns when no connection is in flight
  or the context is done.
\<close>

section \<open>State\<close>

datatype server = Client | Admin | MetricsSrv

text \<open>Where a listener's goroutine is: before the assignment to \<^verbatim>\<open>s.httpServer\<close>, opening its port
  and keys, in \<^verbatim>\<open>Serve\<close>, or returned, with \<^verbatim>\<open>ErrServerClosed\<close> or another error.  The metrics
  server may be absent.\<close>

datatype srv_pc = Absent | Starting | Opening | Accepting | Returned bool

record Srv =
  goPc :: srv_pc
  httpSet :: bool
  inShutdown :: bool
  inFlight :: nat

datatype main_pc = Await | Shut server | Drain server | WaitGroup | Stopped

record Life =
  mainPc :: main_pc
  servers :: "server \<Rightarrow> Srv"
  wg :: int
  ctxDone :: bool
  deadlinePassed :: bool
  auditFile :: bool
  schedLoop :: bool
  reportLoop :: bool
  errorLog :: "server list"

section \<open>Start\<close>

text \<open>The audit file is opened when one is configured; if that fails, the log goes to standard
  output.  \<open>canOpen\<close> is the answer of the operating system.\<close>

definition audit_opened :: "Config \<Rightarrow> bool \<Rightarrow> bool" where
  "audit_opened c canOpen \<longleftrightarrow> logAuditFile (LoggingSec c) \<noteq> [] \<and> canOpen"

definition new_server :: Srv where
  "new_server = \<lparr>goPc = Starting, httpSet = False, inShutdown = False, inFlight = 0\<rparr>"

text \<open>The metrics server is made by \<^verbatim>\<open>main\<close> itself, before its goroutine starts.\<close>

definition metrics_server :: "Config \<Rightarrow> Srv" where
  "metrics_server c = (if metEnabled (MetricsSec c) then new_server\<lparr>goPc := Opening, httpSet := True\<rparr>
     else new_server\<lparr>goPc := Absent\<rparr>)"

definition life_New :: "Config \<Rightarrow> bool \<Rightarrow> Life" where
  "life_New c canOpen =
     \<lparr>mainPc = Await, servers = (\<lambda>s. if s = MetricsSrv then metrics_server c else new_server),
      wg = (if metEnabled (MetricsSec c) then 3 else 2), ctxDone = False, deadlinePassed = False,
      auditFile = audit_opened c canOpen, schedLoop = True, reportLoop = True, errorLog = []\<rparr>"

section \<open>Steps\<close>

definition on_server :: "Life \<Rightarrow> server \<Rightarrow> (Srv \<Rightarrow> Srv) \<Rightarrow> Life" where
  "on_server L s f = L\<lparr>servers := (servers L)(s := f (servers L s))\<rparr>"

text \<open>The end of a listener's goroutine: an error other than \<^verbatim>\<open>ErrServerClosed\<close> is logged, and the
  deferred \<^verbatim>\<open>wg.Done\<close> runs.\<close>

definition returned :: "Life \<Rightarrow> server \<Rightarrow> bool \<Rightarrow> Life" where
  "returned L s clean =
     (on_server L s (\<lambda>v. v\<lparr>goPc := Returned clean\<rparr>))
       \<lparr>wg := wg L - 1, errorLog := (if clean then errorLog L else errorLog L @ [s])\<rparr>"

text \<open>Whether a listener gets its port and keys.\<close>

fun opens :: "Config \<Rightarrow> listen_env \<Rightarrow> server \<Rightarrow> bool" where
  "opens c env Client = (case client_listen (Server c) env of Inl _ \<Rightarrow> False | Inr _ \<Rightarrow> True)"
| "opens c env Admin = (case admin_listen (Server c) (secAdminTokenHash (SecuritySec c)) env of Inl _ \<Rightarrow> False | Inr _ \<Rightarrow> True)"
| "opens c env MetricsSrv = canListen env (metPort (MetricsSec c))"

definition open_server :: "Config \<Rightarrow> listen_env \<Rightarrow> Life \<Rightarrow> server \<Rightarrow> Life" where
  "open_server c env L s =
     (if s = MetricsSrv \<and> inShutdown (servers L s) then returned L s True
      else if \<not> opens c env s then returned L s False
      else if inShutdown (servers L s) then returned L s True
      else on_server L s (\<lambda>v. v\<lparr>goPc := Accepting\<rparr>))"

text \<open>What \<^verbatim>\<open>main\<close> does after the shutdown of a server.\<close>

fun after_shutdown :: "Life \<Rightarrow> server \<Rightarrow> main_pc" where
  "after_shutdown L Client = Shut Admin"
| "after_shutdown L Admin = (if goPc (servers L MetricsSrv) = Absent then WaitGroup else Shut MetricsSrv)"
| "after_shutdown L MetricsSrv = WaitGroup"

text \<open>\<^verbatim>\<open>Shutdown\<close> of a server: nothing when there is no \<^verbatim>\<open>http.Server\<close> yet, otherwise the listener is
  closed and the caller waits.\<close>

definition begin_Shutdown :: "Srv \<Rightarrow> Srv option" where
  "begin_Shutdown v = (if httpSet v then Some (v\<lparr>inShutdown := True\<rparr>) else None)"

definition main_step :: "Life \<Rightarrow> Life option" where
  "main_step L =
     (case mainPc L of
        Await \<Rightarrow> if ctxDone L then Some (L\<lparr>mainPc := Shut Client\<rparr>) else None
      | Shut s \<Rightarrow> case begin_Shutdown (servers L s) of
                   Some v \<Rightarrow> Some ((on_server L s (\<lambda>_. v))\<lparr>mainPc := Drain s\<rparr>)
                 | None \<Rightarrow> Some (L\<lparr>mainPc := after_shutdown L s\<rparr>)
      | Drain s \<Rightarrow> if inFlight (servers L s) = 0 \<or> deadlinePassed L then Some (L\<lparr>mainPc := after_shutdown L s\<rparr>) else None
      | WaitGroup \<Rightarrow> if wg L = 0 then Some (L\<lparr>mainPc := Stopped, auditFile := False\<rparr>) else None
      | Stopped \<Rightarrow> None)"

datatype life_event =
    Signal
  | Assign server
  | Open server
  | Accept server
  | Finish server
  | AcceptFails server
  | Close server
  | MainStep
  | Deadline
  | ExitScheduler
  | ExitReport

fun fire :: "Config \<Rightarrow> listen_env \<Rightarrow> life_event \<Rightarrow> Life \<Rightarrow> Life option" where
  "fire c env Signal L = Some (L\<lparr>ctxDone := True\<rparr>)"
| "fire c env (Assign s) L =
     (if goPc (servers L s) = Starting then Some (on_server L s (\<lambda>v. v\<lparr>goPc := Opening, httpSet := True\<rparr>)) else None)"
| "fire c env (Open s) L = (if goPc (servers L s) = Opening then Some (open_server c env L s) else None)"
| "fire c env (Accept s) L =
     (if goPc (servers L s) = Accepting \<and> \<not> inShutdown (servers L s)
      then Some (on_server L s (\<lambda>v. v\<lparr>inFlight := Suc (inFlight v)\<rparr>)) else None)"
| "fire c env (Finish s) L =
     (if inFlight (servers L s) > 0 then Some (on_server L s (\<lambda>v. v\<lparr>inFlight := inFlight v - 1\<rparr>)) else None)"
| "fire c env (AcceptFails s) L = (if goPc (servers L s) = Accepting then Some (returned L s False) else None)"
| "fire c env (Close s) L =
     (if goPc (servers L s) = Accepting \<and> inShutdown (servers L s) then Some (returned L s True) else None)"
| "fire c env MainStep L = main_step L"
| "fire c env Deadline L =
     (if mainPc L \<noteq> Await \<and> \<not> deadlinePassed L then Some (L\<lparr>deadlinePassed := True\<rparr>) else None)"
| "fire c env ExitScheduler L = (if ctxDone L \<and> schedLoop L then Some (L\<lparr>schedLoop := False\<rparr>) else None)"
| "fire c env ExitReport L = (if ctxDone L \<and> reportLoop L then Some (L\<lparr>reportLoop := False\<rparr>) else None)"

text \<open>The process ends with \<^verbatim>\<open>main\<close>; until then anything that can happen may.\<close>

inductive life_step :: "Config \<Rightarrow> life_event \<Rightarrow> Life \<Rightarrow> Life \<Rightarrow> bool" for c where
  "mainPc L \<noteq> Stopped \<Longrightarrow> fire c env ev L = Some L' \<Longrightarrow> life_step c ev L L'"

inductive life_reach :: "Config \<Rightarrow> Life \<Rightarrow> bool" for c where
  init: "life_reach c (life_New c canOpen)"
| step: "life_reach c L \<Longrightarrow> life_step c ev L L' \<Longrightarrow> life_reach c L'"

section \<open>Invariant\<close>

fun running :: "srv_pc \<Rightarrow> int" where
  "running Absent = 0"
| "running (Returned clean) = 0"
| "running _ = 1"

text \<open>How far \<^verbatim>\<open>main\<close> has to go.\<close>

fun main_rank :: "main_pc \<Rightarrow> nat" where
  "main_rank Await = 8"
| "main_rank (Shut Client) = 7"
| "main_rank (Drain Client) = 6"
| "main_rank (Shut Admin) = 5"
| "main_rank (Drain Admin) = 4"
| "main_rank (Shut MetricsSrv) = 3"
| "main_rank (Drain MetricsSrv) = 2"
| "main_rank WaitGroup = 1"
| "main_rank Stopped = 0"

definition srv_ok :: "Srv \<Rightarrow> bool" where
  "srv_ok v \<longleftrightarrow> (httpSet v \<longleftrightarrow> goPc v \<noteq> Absent \<and> goPc v \<noteq> Starting) \<and> (inShutdown v \<longrightarrow> httpSet v)
     \<and> (goPc v \<in> {Absent, Starting, Opening} \<longrightarrow> inFlight v = 0)"

text \<open>A server whose shutdown has begun has been drained once \<^verbatim>\<open>main\<close> is past it, unless the
  deadline cut that short.\<close>

definition drained :: "Life \<Rightarrow> server \<Rightarrow> bool" where
  "drained L s \<longleftrightarrow> (inShutdown (servers L s) \<longrightarrow> main_rank (mainPc L) < main_rank (Shut s)
     \<and> (mainPc L \<noteq> Drain s \<longrightarrow> inFlight (servers L s) = 0 \<or> deadlinePassed L))"

definition life_ok :: "Life \<Rightarrow> bool" where
  "life_ok L \<longleftrightarrow> (\<forall>s. srv_ok (servers L s) \<and> drained L s)
     \<and> wg L = running (goPc (servers L Client)) + running (goPc (servers L Admin)) + running (goPc (servers L MetricsSrv))
     \<and> goPc (servers L Client) \<noteq> Absent \<and> goPc (servers L Admin) \<noteq> Absent \<and> goPc (servers L MetricsSrv) \<noteq> Starting
     \<and> (mainPc L \<noteq> Await \<longrightarrow> ctxDone L) \<and> (mainPc L = Stopped \<longrightarrow> wg L = 0 \<and> \<not> auditFile L)
     \<and> (\<forall>s. s \<in> set (errorLog L) \<longleftrightarrow> goPc (servers L s) = Returned False)
     \<and> (goPc (servers L MetricsSrv) = Absent \<longrightarrow> mainPc L \<noteq> Shut MetricsSrv \<and> mainPc L \<noteq> Drain MetricsSrv)"

lemma all_servers: "(\<forall>s. P s) \<longleftrightarrow> P Client \<and> P Admin \<and> P MetricsSrv"
  by (metis server.exhaust)

lemma life_New_ok: "life_ok (life_New c canOpen)"
  by (simp add: life_ok_def life_New_def all_servers srv_ok_def drained_def new_server_def metrics_server_def)

lemma servers_on_server [simp]:
  "servers (on_server L s f) t = (if t = s then f (servers L s) else servers L t)"
  "mainPc (on_server L s f) = mainPc L" "wg (on_server L s f) = wg L" "ctxDone (on_server L s f) = ctxDone L"
  "deadlinePassed (on_server L s f) = deadlinePassed L" "auditFile (on_server L s f) = auditFile L"
  "errorLog (on_server L s f) = errorLog L" "schedLoop (on_server L s f) = schedLoop L" "reportLoop (on_server L s f) = reportLoop L"
  by (simp_all add: on_server_def)

lemma returned_fields [simp]:
  "servers (returned L s b) t = (if t = s then (servers L s)\<lparr>goPc := Returned b\<rparr> else servers L t)"
  "mainPc (returned L s b) = mainPc L" "wg (returned L s b) = wg L - 1" "ctxDone (returned L s b) = ctxDone L"
  "deadlinePassed (returned L s b) = deadlinePassed L" "auditFile (returned L s b) = auditFile L"
  "schedLoop (returned L s b) = schedLoop L" "reportLoop (returned L s b) = reportLoop L"
  "errorLog (returned L s b) = (if b then errorLog L else errorLog L @ [s])"
  by (simp_all add: returned_def)

text \<open>Steps inside one server that leave the wait group and the log alone.\<close>

lemma life_ok_server:
  assumes ok: "life_ok L" and f: "srv_ok (f (servers L s))" "running (goPc (f (servers L s))) = running (goPc (servers L s))"
      "goPc (f (servers L s)) = Absent \<longleftrightarrow> goPc (servers L s) = Absent" "inShutdown (f (servers L s)) = inShutdown (servers L s)"
      "inShutdown (servers L s) \<Longrightarrow> inFlight (f (servers L s)) \<le> inFlight (servers L s)"
      "goPc (f (servers L s)) = Returned False \<longleftrightarrow> goPc (servers L s) = Returned False"
      "goPc (f (servers L s)) = Starting \<longrightarrow> goPc (servers L s) = Starting"
  shows "life_ok (on_server L s f)"
proof -
  have "srv_ok (servers (on_server L s f) t) \<and> drained (on_server L s f) t" for t
    using ok f(1,4,5) by (auto simp: life_ok_def drained_def)
  then show ?thesis using ok f by (cases s) (auto simp: life_ok_def)
qed

lemma life_ok_returned:
  assumes ok: "life_ok L" and s: "running (goPc (servers L s)) = 1" "httpSet (servers L s)" "mainPc L \<noteq> Stopped"
  shows "life_ok (returned L s b)"
proof -
  have "srv_ok (servers (returned L s b) t) \<and> drained (returned L s b) t" for t
    using ok s by (auto simp: life_ok_def srv_ok_def drained_def)
  moreover have "goPc (servers L s) \<noteq> Absent" "goPc (servers L s) \<noteq> Returned False" using s(1) by auto
  ultimately show ?thesis using ok s by (cases s) (auto simp: life_ok_def)
qed

lemma main_step_eq:
"main_step L =
     (case mainPc L of
        Await \<Rightarrow> if ctxDone L then Some (L\<lparr>mainPc := Shut Client\<rparr>) else None
      | Shut s \<Rightarrow> if httpSet (servers L s)
                 then Some ((on_server L s (\<lambda>v. v\<lparr>inShutdown := True\<rparr>))\<lparr>mainPc := Drain s\<rparr>)
                 else Some (L\<lparr>mainPc := after_shutdown L s\<rparr>)
      | Drain s \<Rightarrow> if inFlight (servers L s) = 0 \<or> deadlinePassed L then Some (L\<lparr>mainPc := after_shutdown L s\<rparr>) else None
      | WaitGroup \<Rightarrow> if wg L = 0 then Some (L\<lparr>mainPc := Stopped, auditFile := False\<rparr>) else None
      | Stopped \<Rightarrow> None)"
  by (simp add: main_step_def begin_Shutdown_def on_server_def split: main_pc.split)

text \<open>Steps of \<^verbatim>\<open>main\<close>.\<close>

lemma life_ok_main:
  assumes ok: "life_ok L" and d: "\<And>s. drained (L\<lparr>mainPc := p\<rparr>) s" and p: "p \<noteq> Stopped" "p \<noteq> Await" "ctxDone L"
    "goPc (servers L MetricsSrv) = Absent \<Longrightarrow> p \<noteq> Shut MetricsSrv \<and> p \<noteq> Drain MetricsSrv"
  shows "life_ok (L\<lparr>mainPc := p\<rparr>)"
  using ok d p unfolding life_ok_def by simp

lemma drained_skip:
  assumes "drained L t" "mainPc L = Shut s \<and> \<not> httpSet (servers L s) \<or> mainPc L = Drain s \<and> (inFlight (servers L s) = 0 \<or> deadlinePassed L)"
  shows "drained (L\<lparr>mainPc := after_shutdown L s\<rparr>) t"
proof -
  have r: "main_rank (after_shutdown L s) < main_rank (mainPc L)" using assms(2) by (cases s) auto
  have i: "inFlight (servers L t) = 0 \<or> deadlinePassed L" if "inShutdown (servers L t)"
  proof (cases "mainPc L = Drain t")
    case True
    then show ?thesis using assms(2) by simp
  next
    case False
    then show ?thesis using assms(1) that by (simp add: drained_def)
  qed
  show ?thesis unfolding drained_def
  proof (intro impI conjI)
    assume "inShutdown (servers (L\<lparr>mainPc := after_shutdown L s\<rparr>) t)"
    then have "inShutdown (servers L t)" by simp
    with assms(1) r i show "main_rank (mainPc (L\<lparr>mainPc := after_shutdown L s\<rparr>)) < main_rank (Shut t)"
      "inFlight (servers (L\<lparr>mainPc := after_shutdown L s\<rparr>) t) = 0 \<or> deadlinePassed (L\<lparr>mainPc := after_shutdown L s\<rparr>)"
      by (simp_all add: drained_def)
  qed
qed

lemma drained_shut:
  assumes "drained L t" "mainPc L = Shut s"
  shows "drained ((on_server L s (\<lambda>v. v\<lparr>inShutdown := True\<rparr>))\<lparr>mainPc := Drain s\<rparr>) t"
  using assms by (cases s; cases t) (simp_all add: drained_def)

lemma main_step_ok:
  assumes ok: "life_ok L" and m: "main_step L = Some L'"
  shows "life_ok L'"
proof -
  have D: "drained L t" "srv_ok (servers L t)" for t using ok by (simp_all add: life_ok_def)
  have skip: "life_ok (L\<lparr>mainPc := after_shutdown L s\<rparr>)"
    if "mainPc L = Shut s \<and> \<not> httpSet (servers L s) \<or> mainPc L = Drain s \<and> (inFlight (servers L s) = 0 \<or> deadlinePassed L)" for s
  proof (rule life_ok_main [OF ok drained_skip [OF D(1) that]])
    show "ctxDone L" using ok that by (auto simp: life_ok_def)
  qed (cases s; simp)+
  show ?thesis
  proof (cases "mainPc L")
    case Await
    then have "L' = L\<lparr>mainPc := Shut Client\<rparr>" "ctxDone L" using m by (auto simp: main_step_eq split: if_splits)
    moreover have "drained (L\<lparr>mainPc := Shut Client\<rparr>) t" for t
      using D(1) [of t] Await by (cases t) (simp_all add: drained_def)
    ultimately show ?thesis by (simp add: life_ok_main [OF ok])
  next
    case (Shut s)
    show ?thesis
    proof (cases "httpSet (servers L s)")
      case True
      let ?L = "on_server L s (\<lambda>v. v\<lparr>inShutdown := True\<rparr>)"
      have L': "L' = ?L\<lparr>mainPc := Drain s\<rparr>" using True Shut m by (simp add: main_step_eq)
      have "drained L' t" for t unfolding L' by (rule drained_shut [OF D(1) Shut])
      moreover have "srv_ok (servers L' t)" for t using D(2) [of t] True unfolding L' by (auto simp: srv_ok_def)
      ultimately show ?thesis using ok Shut unfolding L' by (cases s) (simp_all add: life_ok_def)
    next
      case False
      then show ?thesis using skip [of s] Shut m by (simp add: main_step_eq)
    qed
  next
    case (Drain s)
    then have "L' = L\<lparr>mainPc := after_shutdown L s\<rparr>" "inFlight (servers L s) = 0 \<or> deadlinePassed L"
      using m by (auto simp: main_step_eq split: if_splits)
    then show ?thesis using skip [of s] Drain by simp
  next
    case WaitGroup
    then have "L' = L\<lparr>mainPc := Stopped, auditFile := False\<rparr>" "wg L = 0" using m by (auto simp: main_step_eq split: if_splits)
    moreover have "drained (L\<lparr>mainPc := Stopped, auditFile := False\<rparr>) t" for t
      using D(1) [of t] WaitGroup by (cases t) (simp_all add: drained_def)
    ultimately show ?thesis using ok WaitGroup by (simp add: life_ok_def)
  qed (use m in \<open>simp add: main_step_eq\<close>)
qed

lemma life_step_ok: "life_step c ev L L' \<Longrightarrow> life_ok L \<Longrightarrow> life_ok L'"
proof (induction rule: life_step.induct)
  case (1 L env ev L')
  then have ok: "life_ok L" and S: "\<And>s. srv_ok (servers L s)" by (simp_all add: life_ok_def)
  show ?case
  proof (cases ev)
    case Signal
    with 1 show ?thesis by (auto simp: life_ok_def drained_def)
  next
    case (Assign s)
    with 1 S [of s] show ?thesis by (auto intro!: life_ok_server simp: srv_ok_def split: if_splits)
  next
    case (Open s)
    then have o: "goPc (servers L s) = Opening" and L': "L' = open_server c env L s" using 1 by (auto split: if_splits)
    have h: "httpSet (servers L s)" "running (goPc (servers L s)) = 1" using S [of s] o by (auto simp: srv_ok_def)
    show ?thesis unfolding L' open_server_def
      using life_ok_returned [OF ok h(2,1) 1(1)] S [of s] o ok by (auto intro!: life_ok_server simp: srv_ok_def)
  next
    case (Accept s)
    with 1 S [of s] show ?thesis by (auto intro!: life_ok_server simp: srv_ok_def split: if_splits)
  next
    case (Finish s)
    with 1 S [of s] show ?thesis by (auto intro!: life_ok_server simp: srv_ok_def split: if_splits)
  next
    case (AcceptFails s)
    with 1 S [of s] show ?thesis by (auto intro!: life_ok_returned simp: srv_ok_def split: if_splits)
  next
    case (Close s)
    with 1 S [of s] show ?thesis by (auto intro!: life_ok_returned simp: srv_ok_def split: if_splits)
  next
    case MainStep
    with 1 main_step_ok [OF ok] show ?thesis by simp
  next
    case Deadline
    with 1 show ?thesis by (auto simp: life_ok_def drained_def split: if_splits)
  next
    case ExitScheduler
    with 1 show ?thesis by (auto simp: life_ok_def drained_def split: if_splits)
  next
    case ExitReport
    with 1 show ?thesis by (auto simp: life_ok_def drained_def split: if_splits)
  qed
qed

lemma life_reach_ok: "life_reach c L \<Longrightarrow> life_ok L"
  by (induction rule: life_reach.induct) (auto intro: life_New_ok life_step_ok)

text \<open>
  C10. An orderly end.  The wait group counts the listeners that have not returned, so it never goes
  below zero; an error is logged for exactly the listeners that failed.  When the process has
  ended by itself, a signal had come, every listener had returned, the audit file was closed, and
  every server whose shutdown was begun had no request in flight, unless the deadline had passed.
\<close>

theorem orderly_stop:
  assumes "life_reach c L"
  shows "0 \<le> wg L \<and> (\<forall>s. s \<in> set (errorLog L) \<longleftrightarrow> goPc (servers L s) = Returned False)
    \<and> (mainPc L = Stopped \<longrightarrow> ctxDone L \<and> \<not> auditFile L
         \<and> (\<forall>s. goPc (servers L s) = Absent \<or> (\<exists>clean. goPc (servers L s) = Returned clean))
         \<and> (\<forall>s. inShutdown (servers L s) \<and> \<not> deadlinePassed L \<longrightarrow> inFlight (servers L s) = 0))"
proof -
  have ok: "life_ok L" by (rule life_reach_ok [OF assms])
  have pos: "0 \<le> running x" for x by (cases x) simp_all
  have none: "x = Absent \<or> (\<exists>clean. x = Returned clean)" if "running x = 0" for x using that by (cases x) simp_all
  have "goPc (servers L s) = Absent \<or> (\<exists>clean. goPc (servers L s) = Returned clean)" if "mainPc L = Stopped" for s
  proof (rule none)
    from ok that have "running (goPc (servers L Client)) + running (goPc (servers L Admin)) + running (goPc (servers L MetricsSrv)) = 0"
      by (simp add: life_ok_def)
    with pos [of "goPc (servers L Client)"] pos [of "goPc (servers L Admin)"] pos [of "goPc (servers L MetricsSrv)"]
    show "running (goPc (servers L s)) = 0" by (cases s) simp_all
  qed
  moreover have "inFlight (servers L s) = 0" if "mainPc L = Stopped" "inShutdown (servers L s)" "\<not> deadlinePassed L" for s
    using ok that by (auto simp: life_ok_def drained_def)
  ultimately show ?thesis using ok pos by (auto simp: life_ok_def)
qed

section \<open>Shutting down comes to an end\<close>

text \<open>The steps of the program itself and of its timer, which the runtime gets done sooner or later;
  signals, connections and failures are up to the world.\<close>

fun progress :: "life_event \<Rightarrow> bool" where
  "progress Signal = False"
| "progress (Accept s) = False"
| "progress (Finish s) = False"
| "progress (AcceptFails s) = False"
| "progress _ = True"

definition life_run :: "Config \<Rightarrow> (nat \<Rightarrow> Life) \<Rightarrow> bool" where
  "life_run c run \<longleftrightarrow> life_reach c (run 0) \<and> (\<forall>i. run (Suc i) = run i \<or> (\<exists>ev. life_step c ev (run i) (run (Suc i))))"

text \<open>Weak fairness: the program does not stand still for ever while it could go on.\<close>

definition fair :: "Config \<Rightarrow> (nat \<Rightarrow> Life) \<Rightarrow> bool" where
  "fair c run \<longleftrightarrow> (\<forall>i. (\<forall>j\<ge>i. \<exists>ev L'. progress ev \<and> life_step c ev (run j) L')
     \<longrightarrow> (\<exists>j\<ge>i. \<exists>ev. progress ev \<and> life_step c ev (run j) (run (Suc j))))"

fun srv_rank :: "srv_pc \<Rightarrow> nat" where
  "srv_rank Starting = 3"
| "srv_rank Opening = 2"
| "srv_rank Accepting = 1"
| "srv_rank _ = 0"

definition work :: "Life \<Rightarrow> nat" where
  "work L = main_rank (mainPc L) + srv_rank (goPc (servers L Client)) + srv_rank (goPc (servers L Admin))
     + srv_rank (goPc (servers L MetricsSrv)) + of_bool (\<not> deadlinePassed L) + of_bool (schedLoop L) + of_bool (reportLoop L)"

lemma work_server:
  "srv_rank (goPc (f (servers L s))) < srv_rank (goPc (servers L s)) \<Longrightarrow> work (on_server L s f) < work L"
  "goPc (f (servers L s)) = goPc (servers L s) \<Longrightarrow> work (on_server L s f) = work L"
  by (cases s; simp add: work_def)+

lemma work_returned: "srv_rank (goPc (servers L s)) > 0 \<Longrightarrow> work (returned L s b) < work L"
  by (cases s) (simp_all add: work_def)

lemma main_rank_next: "main_rank (Drain s) < main_rank (Shut s)" "main_rank (after_shutdown L s) < main_rank (Drain s)"
  "main_rank (after_shutdown L s) < main_rank (Shut s)"
  by (cases s; simp)+

lemma main_step_work: "main_step L = Some L' \<Longrightarrow> work L' < work L"
proof -
  assume m: "main_step L = Some L'"
  have "servers L' s = servers L s \<or> servers L' s = (servers L s)\<lparr>inShutdown := True\<rparr>" for s
    using m by (auto simp: main_step_eq split: main_pc.splits if_splits)
  then have "goPc (servers L' s) = goPc (servers L s)" for s by (metis Srv.select_convs(1) Srv.surjective Srv.update_convs(3))
  moreover have "main_rank (mainPc L') < main_rank (mainPc L)"
    using m by (auto simp: main_step_eq main_rank_next split: main_pc.splits if_splits)
  moreover have "deadlinePassed L' = deadlinePassed L" "schedLoop L' = schedLoop L" "reportLoop L' = reportLoop L"
    using m by (auto simp: main_step_eq split: main_pc.splits if_splits)
  ultimately show ?thesis by (simp add: work_def)
qed

lemma fire_work: "fire c env ev L = Some L' \<Longrightarrow> if progress ev then work L' < work L else work L' \<le> work L"
proof (cases ev)
  case (Open s)
  assume "fire c env ev L = Some L'"
  then have "goPc (servers L s) = Opening" "L' = open_server c env L s" using Open by (auto split: if_splits)
  then show ?thesis using Open work_returned [of L s] work_server(1) [of "\<lambda>v. v\<lparr>goPc := Accepting\<rparr>" L s]
    by (auto simp: open_server_def)
next
  case (AcceptFails s)
  assume "fire c env ev L = Some L'"
  then show ?thesis using AcceptFails work_returned [of L s False] by (auto split: if_splits)
next
  case (Close s)
  assume "fire c env ev L = Some L'"
  then show ?thesis using Close work_returned [of L s True] by (auto split: if_splits)
next
  case (Assign s)
  assume "fire c env ev L = Some L'"
  then show ?thesis using Assign by (auto intro!: work_server(1) split: if_splits)
next
  case MainStep
  assume "fire c env ev L = Some L'"
  then show ?thesis using MainStep main_step_work by simp
qed (auto simp: work_server(2) split: if_splits, simp_all add: work_def)

lemma step_work: "life_step c ev L L' \<Longrightarrow> if progress ev then work L' < work L else work L' \<le> work L"
  by (auto elim!: life_step.cases dest: fire_work)

text \<open>Every server can be shut down, and has been told to once \<^verbatim>\<open>main\<close> is past it.\<close>

definition all_told :: "Life \<Rightarrow> bool" where
  "all_told L \<longleftrightarrow> (\<forall>s. goPc (servers L s) \<noteq> Absent \<longrightarrow> httpSet (servers L s)
     \<and> (main_rank (mainPc L) < main_rank (Shut s) \<longrightarrow> inShutdown (servers L s)))"

lemma all_told_server:
  assumes "all_told L" "mainPc L' = mainPc L"
    "\<And>s. goPc (servers L' s) \<noteq> Absent \<Longrightarrow> goPc (servers L s) \<noteq> Absent \<and> (httpSet (servers L s) \<longrightarrow> httpSet (servers L' s))
      \<and> inShutdown (servers L' s) = inShutdown (servers L s)"
  shows "all_told L'"
  using assms unfolding all_told_def by metis

lemma rank_between:
  "main_rank (after_shutdown L s) < main_rank (Shut t) \<Longrightarrow> goPc (servers L t) \<noteq> Absent \<Longrightarrow> main_rank (Drain s) < main_rank (Shut t)"
  "main_rank (Drain s) < main_rank (Shut t) \<Longrightarrow> t = s \<or> main_rank (Shut s) < main_rank (Shut t)"
  by (cases s; cases t; simp split: if_splits)+

lemma all_told_main:
  assumes "all_told L" "main_step L = Some L'" "life_ok L"
  shows "all_told L'"
proof -
  have pres: "goPc (servers L s) \<noteq> Absent" if "mainPc L = Shut s" for s
    using assms(3) that by (cases s) (auto simp: life_ok_def)
  show ?thesis
  proof (cases "mainPc L")
    case Await
    then have "L' = L\<lparr>mainPc := Shut Client\<rparr>" using assms(2) by (simp add: main_step_eq split: if_splits)
    moreover have "\<not> main_rank (Shut Client) < main_rank (Shut s)" for s by (cases s) simp_all
    ultimately show ?thesis using assms(1) by (simp add: all_told_def)
  next
    case (Shut s)
    have "L' = (on_server L s (\<lambda>v. v\<lparr>inShutdown := True\<rparr>))\<lparr>mainPc := Drain s\<rparr>"
      using assms(1,2) Shut pres [OF Shut] by (simp add: main_step_eq all_told_def)
    then show ?thesis using assms(1) Shut rank_between(2) [of s] by (auto simp: all_told_def)
  next
    case (Drain s)
    then have "L' = L\<lparr>mainPc := after_shutdown L s\<rparr>" using assms(2) by (simp add: main_step_eq split: if_splits)
    then show ?thesis using assms(1) Drain rank_between(1) [of L s] by (auto simp: all_told_def)
  next
    case WaitGroup
    then have "L' = L\<lparr>mainPc := Stopped, auditFile := False\<rparr>" using assms(2) by (simp add: main_step_eq split: if_splits)
    moreover have "main_rank WaitGroup < main_rank (Shut s)" for s by (cases s) simp_all
    ultimately show ?thesis using assms(1) WaitGroup by (simp add: all_told_def)
  qed (use assms(2) in \<open>simp add: main_step_eq\<close>)
qed

lemma all_told_step:
  assumes "life_step c ev L L'" "all_told L" "life_ok L"
  shows "all_told L'"
  using assms(1)
proof cases
  case (1 env)
  show ?thesis
  proof (cases "ev = MainStep")
    case True
    then show ?thesis using 1 all_told_main assms by simp
  next
    case False
    with 1 show ?thesis
      by (intro all_told_server [OF assms(2)]) (cases ev; auto simp: open_server_def split: if_splits)+
  qed
qed

lemma ctxDone_step: "life_step c ev L L' \<Longrightarrow> ctxDone L \<Longrightarrow> ctxDone L'"
  by (erule life_step.cases)
    (cases ev; auto simp: open_server_def main_step_eq split: if_splits main_pc.splits)

text \<open>Until the process has ended there is something for it to do.\<close>

lemma can_progress:
  assumes ok: "life_ok L" and told: "all_told L" "ctxDone L" "mainPc L \<noteq> Stopped"
  shows "\<exists>ev L'. progress ev \<and> life_step c ev L L'"
proof -
  have step: ?thesis if "progress ev" "fire c env ev L = Some L'" for ev env L'
    using that told(3) by (intro exI conjI) (auto intro: life_step.intros)
  show ?thesis
  proof (cases "mainPc L")
    case Await
    then show ?thesis using told(2) by (intro step [of MainStep]) (simp_all add: main_step_eq)
  next
    case (Shut s)
    then show ?thesis using step [of MainStep] by (cases "httpSet (servers L s)") (simp_all add: main_step_eq)
  next
    case (Drain s)
    show ?thesis
    proof (cases "deadlinePassed L")
      case True
      then show ?thesis using Drain by (intro step [of MainStep]) (simp_all add: main_step_eq)
    next
      case False
      then show ?thesis using Drain by (intro step [of Deadline]) simp_all
    qed
  next
    case WaitGroup
    show ?thesis
    proof (cases "wg L = 0")
      case True
      then show ?thesis using WaitGroup by (intro step [of MainStep]) (simp_all add: main_step_eq)
    next
      case False
      then have "running (goPc (servers L Client)) + running (goPc (servers L Admin)) + running (goPc (servers L MetricsSrv)) \<noteq> 0"
        using ok by (simp add: life_ok_def)
      then obtain s where s: "running (goPc (servers L s)) \<noteq> 0" by (metis add_0)
      have "main_rank WaitGroup < main_rank (Shut s)" by (cases s) simp_all
      moreover have "goPc (servers L s) \<noteq> Absent" using s by auto
      ultimately have h: "httpSet (servers L s)" "inShutdown (servers L s)" using told(1) WaitGroup by (auto simp: all_told_def)
      consider "goPc (servers L s) = Starting" | "goPc (servers L s) = Opening" | "goPc (servers L s) = Accepting"
        using s by (cases "goPc (servers L s)") auto
      then show ?thesis
      proof cases
        case 1
        then show ?thesis by (intro step [of "Assign s"]) simp_all
      next
        case 2
        then show ?thesis by (intro step [of "Open s"]) simp_all
      next
        case 3
        then show ?thesis using h by (intro step [of "Close s"]) simp_all
      qed
    qed
  qed (use told(3) in simp)
qed

lemma life_run_reach: "life_run c run \<Longrightarrow> life_reach c (run i)"
proof (induction i)
  case (Suc i)
  then show ?case by (metis life_run_def life_reach.step)
qed (simp add: life_run_def)

lemma life_run_keeps:
  assumes run: "life_run c run" and P: "P (run i)" and st: "\<And>ev L L'. life_reach c L \<Longrightarrow> life_step c ev L L' \<Longrightarrow> P L \<Longrightarrow> P L'" and "i \<le> j"
  shows "P (run j)"
  using assms(4)
proof (induction j rule: dec_induct)
  case (step j)
  then show ?case using run st [OF life_run_reach [OF run, of j]] by (metis life_run_def)
qed (rule P)

lemma life_run_work: "life_run c run \<Longrightarrow> i \<le> j \<Longrightarrow> work (run j) \<le> work (run i)"
  by (rule life_run_keeps [of c run "\<lambda>L. work L \<le> work (run i)" i]) (auto dest: step_work split: if_splits)


text \<open>A run that does the events of a list and then rests.\<close>

fun drive :: "Config \<Rightarrow> listen_env \<Rightarrow> life_event list \<Rightarrow> Life \<Rightarrow> nat \<Rightarrow> Life" where
  "drive c env evs L 0 = L"
| "drive c env evs L (Suc n) =
     (let L' = drive c env evs L n in
      if mainPc L' = Stopped \<or> length evs \<le> n then L'
      else case fire c env (evs ! n) L' of Some L'' \<Rightarrow> L'' | None \<Rightarrow> L')"

lemma drive_step:
  "drive c env evs L (Suc n) = drive c env evs L n \<or> (\<exists>ev. life_step c ev (drive c env evs L n) (drive c env evs L (Suc n)))"
  by (auto simp: Let_def intro: life_step.intros split: option.split)

lemma drive_reach: "life_reach c L \<Longrightarrow> life_reach c (drive c env evs L n)"
proof (induction n)
  case (Suc n)
  then show ?case using drive_step [of c env evs L n] by (auto intro: life_reach.step simp del: drive.simps(2))
qed simp

lemma drive_run: "life_reach c L \<Longrightarrow> life_run c (drive c env evs L)"
  using drive_step by (simp add: life_run_def del: drive.simps(2))

lemma drive_rests:
  assumes "mainPc (drive c env evs L n) = Stopped" "n \<le> k"
  shows "drive c env evs L k = drive c env evs L n"
  using assms(2) by (induction k rule: dec_induct) (simp_all add: assms(1) Let_def)

lemma drive_fair:
  assumes "mainPc (drive c env evs L n) = Stopped"
  shows "fair c (drive c env evs L)"
proof -
  have "\<not> (\<forall>j\<ge>i. \<exists>ev L'. progress ev \<and> life_step c ev (drive c env evs L j) L')" for i
  proof -
    have "mainPc (drive c env evs L (i + n)) = Stopped" using drive_rests [OF assms, of "i + n"] assms by simp
    then show ?thesis by (metis le_add1 life_step.cases)
  qed
  then show ?thesis unfolding fair_def by blast
qed

definition open_env :: listen_env where
  "open_env = \<lparr>canListen = (\<lambda>_. True), keyPairOk = (\<lambda>_ _. True), readFile = (\<lambda>_. None), pemOk = (\<lambda>_. False)\<rparr>"

definition clean_shutdown :: "life_event list" where
  "clean_shutdown = [Assign Client, Assign Admin, Signal, Open Client, Open Admin, Open MetricsSrv]
     @ replicate 7 MainStep @ [Close Client, Close Admin, Close MetricsSrv, MainStep]"

definition example_life :: "nat \<Rightarrow> Life" where
  "example_life = drive Default open_env clean_shutdown (life_New Default False)"

lemma example_life_stops: "mainPc (example_life 17) = Stopped"
  by code_simp

lemma example_life_signalled:
  "(ctxDone (example_life 3), mainPc (example_life 3), httpSet (servers (example_life 3) Client), httpSet (servers (example_life 3) Admin))
     = (True, Await, True, True)"
  by code_simp


theorem orderly_stop_witness:
  "mainPc (example_life 17) = Stopped \<and> \<not> auditFile (example_life 17) \<and> inFlight (servers (example_life 17) Client) = 0"
proof -
  have r: "life_reach Default (example_life 17)" unfolding example_life_def by (rule drive_reach [OF life_reach.init])
  have "(inShutdown (servers (example_life 17) Client), deadlinePassed (example_life 17)) = (True, False)" by code_simp
  then show ?thesis using orderly_stop [OF r] example_life_stops by simp
qed

section \<open>A signal that comes too early\<close>

text \<open>
  The signal handler is installed before the listeners' goroutines run, and \<^verbatim>\<open>Shutdown\<close> on a server
  whose goroutine has not yet assigned \<^verbatim>\<open>s.httpServer\<close> returns at once.  That goroutine then opens
  its port and serves, nobody shuts it down any more, and \<^verbatim>\<open>main\<close> waits for it for ever: further
  signals change nothing, only a failing listener would.
\<close>

definition early_signal :: Life where
  "early_signal = drive Default open_env ([Signal, MainStep, MainStep] @ replicate 4 MainStep @ [Assign Client, Open Client])
     (life_New Default False) 9"

lemma early_signal_state:
  "(mainPc early_signal, goPc (servers early_signal Client), inShutdown (servers early_signal Client)) = (WaitGroup, Accepting, False)"
  by code_simp

theorem early_signal_hangs:
  "life_reach Default early_signal \<and> ctxDone early_signal
   \<and> (\<forall>L. (\<lambda>L L'. \<exists>ev. ev \<noteq> AcceptFails Client \<and> life_step Default ev L L')\<^sup>*\<^sup>* early_signal L \<longrightarrow>
        mainPc L = WaitGroup \<and> goPc (servers L Client) = Accepting)"
proof (intro conjI allI impI)
  show r: "life_reach Default early_signal" unfolding early_signal_def by (rule drive_reach [OF life_reach.init])
  show "ctxDone early_signal" using life_reach_ok [OF r] early_signal_state by (simp add: life_ok_def)
  fix L assume "(\<lambda>L L'. \<exists>ev. ev \<noteq> AcceptFails Client \<and> life_step Default ev L L')\<^sup>*\<^sup>* early_signal L"
  then have "life_ok L \<and> mainPc L = WaitGroup \<and> goPc (servers L Client) = Accepting \<and> \<not> inShutdown (servers L Client)"
  proof (induction rule: rtranclp_induct)
    case base
    then show ?case using life_reach_ok [OF r] early_signal_state by simp
  next
    case (step L L')
    then obtain ev where ev: "ev \<noteq> AcceptFails Client" "life_step Default ev L L'" by blast
    have ok: "life_ok L'" using life_step_ok [OF ev(2)] step.IH by simp
    have pos: "0 \<le> running x" for x by (cases x) simp_all
    have "wg L \<noteq> 0" using step.IH pos [of "goPc (servers L Admin)"] pos [of "goPc (servers L MetricsSrv)"]
      by (simp add: life_ok_def)
    with ev(2) step.IH ev(1) ok show ?case
      by (auto elim!: life_step.cases) (cases ev; auto simp: main_step_eq open_server_def split: if_splits)+
  qed
  then show "mainPc L = WaitGroup" "goPc (servers L Client) = Accepting" by simp_all
qed

end
