(* ===== verification/GoJson.thy ===== *)
theory GoJson
  imports GoFormat
begin

text \<open>
  JSON as \<^verbatim>\<open>encoding/json\<close> writes and reads it.  The encoder escapes what is unsafe in HTML and
  replaces bytes that are no UTF-8.  The decoder takes the first value of its input and does not
  look at what comes after it; it is a machine that is fed one token at a time and keeps a stack of
  the arrays and objects that are open, like the scanner of the library.  A number is kept as its
  text.  Whatever the encoder writes, the decoder reads back.
\<close>

section \<open>Values and their text\<close>

datatype json =
    JNull
  | JBool bool
  | JNum string
  | JStr string
  | JArr "json list"
  | JObj "(string \<times> json) list"

definition hex2 :: "nat \<Rightarrow> string" where
  "hex2 n = [hex_char (n div 16 mod 16), hex_char (n mod 16)]"

text \<open>A backslash and a double quote.\<close>

abbreviation bsl :: char where "bsl \<equiv> CHR 0x5C"
abbreviation dq :: char where "dq \<equiv> CHR 0x22"

definition json_byte :: "char \<Rightarrow> string" where
  "json_byte c =
     (if c = dq \<or> c = bsl then [bsl, c]
      else if byte c = 8 then [bsl, CHR ''b''] else if byte c = 12 then [bsl, CHR ''f'']
      else if byte c = 10 then [bsl, CHR ''n''] else if byte c = 13 then [bsl, CHR ''r'']
      else if byte c = 9 then [bsl, CHR ''t'']
      else if byte c < 32 \<or> c = CHR ''<'' \<or> c = CHR ''>'' \<or> c = CHR ''&'' then bsl # ''u00'' @ hex2 (byte c)
      else [c])"

lemma drop_shorter: "1 \<le> w \<Longrightarrow> length (drop w (c # s)) \<le> length s"
  by simp

lemma rune_width: "decode_rune (c # s) = (r, w) \<Longrightarrow> 1 \<le> w"
  using decode_rune_width [of "c # s"] by simp

function json_chars :: "string \<Rightarrow> string" where
  "json_chars [] = []"
| "json_chars (c # s) =
     (if byte c < 128 then json_byte c @ json_chars s
      else case decode_rune (c # s) of (r, w) \<Rightarrow>
        (if r = RuneError \<and> w = 1 then bsl # ''ufffd''
         else if r = 8232 \<or> r = 8233 then bsl # ''u20'' @ hex2 (r mod 256)
         else take w (c # s)) @ json_chars (drop w (c # s)))"
  by pat_completeness auto
termination
  by (relation "measure length") (auto dest!: rune_width [OF sym] simp: less_Suc_eq_le)

declare json_chars.simps [simp del]

definition json_string :: "string \<Rightarrow> string" where
  "json_string s = dq # json_chars s @ [dq]"

fun commas :: "string list \<Rightarrow> string" where
  "commas [] = []"
| "commas [x] = x"
| "commas (x # y # ys) = x @ '','' @ commas (y # ys)"

fun encode :: "json \<Rightarrow> string" where
  "encode JNull = ''null''"
| "encode (JBool b) = (if b then ''true'' else ''false'')"
| "encode (JNum n) = n"
| "encode (JStr s) = json_string s"
| "encode (JArr vs) = ''['' @ commas (map encode vs) @ '']''"
| "encode (JObj ps) = ''{'' @ commas (map (\<lambda>(k, v). json_string k @ '':'' @ encode v) ps) @ ''}''"

section \<open>Tokens\<close>

datatype token =
    TLBrace | TRBrace | TLBrack | TRBrack | TColon | TComma
  | TNull
  | TBool bool
  | TNum string
  | TStr string

definition json_space :: "char \<Rightarrow> bool" where
  "json_space c \<longleftrightarrow> byte c \<in> {9, 10, 13, 32}"

definition hex_digit_val :: "char \<Rightarrow> nat option" where
  "hex_digit_val c = (let b = byte c in
     if 48 \<le> b \<and> b \<le> 57 then Some (b - 48) else if 97 \<le> b \<and> b \<le> 102 then Some (b - 87)
     else if 65 \<le> b \<and> b \<le> 70 then Some (b - 55) else None)"

fun hex4 :: "string \<Rightarrow> (nat \<times> string) option" where
  "hex4 (a # b # c # d # s) =
     (case (hex_digit_val a, hex_digit_val b, hex_digit_val c, hex_digit_val d) of
        (Some w, Some x, Some y, Some z) \<Rightarrow> Some (w * 4096 + x * 256 + y * 16 + z, s)
      | _ \<Rightarrow> None)"
| "hex4 _ = None"

text \<open>A second half of a surrogate pair, or a lone surrogate.\<close>

definition surrogate :: "nat \<Rightarrow> string \<Rightarrow> nat \<times> string" where
  "surrogate r s =
     (if r < 55296 \<or> 57343 < r then (r, s)
      else case s of
             b # u # t \<Rightarrow>
               (if b = bsl \<and> u = CHR ''u'' \<and> r < 56320
                then (case hex4 t of
                        Some (r2, t2) \<Rightarrow> if 56320 \<le> r2 \<and> r2 < 57344
                          then ((r - 55296) * 1024 + (r2 - 56320) + 65536, t2) else (RuneError, s)
                      | None \<Rightarrow> (RuneError, s))
                else (RuneError, s))
           | _ \<Rightarrow> (RuneError, s))"

definition unescape :: "char \<Rightarrow> char option" where
  "unescape e =
     (if e = dq \<or> e = bsl \<or> e = CHR ''/'' then Some e
      else if e = CHR ''b'' then Some (chr 8) else if e = CHR ''f'' then Some (chr 12)
      else if e = CHR ''n'' then Some (chr 10) else if e = CHR ''r'' then Some (chr 13)
      else if e = CHR ''t'' then Some (chr 9) else None)"

lemma hex4_shorter: "hex4 s = Some (r, t) \<Longrightarrow> length t < length s"
  by (induction s rule: hex4.induct) (auto split: option.splits)

lemma surrogate_shorter: "length (snd (surrogate r s)) \<le> length s"
  by (auto simp: surrogate_def dest!: hex4_shorter split: list.split option.split)

lemma surrogate_len: "(r', s') = surrogate r s \<Longrightarrow> length s' \<le> length s"
  using surrogate_shorter [of r s] by (metis snd_conv)

text \<open>The rest of a string, after its opening quote.\<close>

function lex_chars :: "string \<Rightarrow> (string \<times> string) option" where
  "lex_chars [] = None"
| "lex_chars (c # s) =
     (if c = dq then Some ([], s)
      else if c = bsl then
        (case s of
           [] \<Rightarrow> None
         | e # s1 \<Rightarrow>
             if e = CHR ''u'' then
               (case hex4 s1 of
                  None \<Rightarrow> None
                | Some (r, s2) \<Rightarrow> (case surrogate r s2 of (r', s3) \<Rightarrow>
                    map_option (\<lambda>(t, u). (encode_rune r' @ t, u)) (lex_chars s3)))
             else (case unescape e of
                     None \<Rightarrow> None
                   | Some d \<Rightarrow> map_option (\<lambda>(t, u). (d # t, u)) (lex_chars s1)))
      else if byte c < 32 then None
      else if byte c < 128 then map_option (\<lambda>(t, u). (c # t, u)) (lex_chars s)
      else case decode_rune (c # s) of (r, w) \<Rightarrow>
        map_option (\<lambda>(t, u). (encode_rune r @ t, u)) (lex_chars (drop w (c # s))))"
  by pat_completeness auto
termination
  by (relation "measure length") (auto dest!: rune_width [OF sym] surrogate_len hex4_shorter simp: less_Suc_eq_le)

declare lex_chars.simps [simp del]

text \<open>A number, by the grammar of JSON: once a point or an exponent has begun there is no way back.\<close>

definition lex_frac :: "string \<Rightarrow> (string \<times> string) option" where
  "lex_frac s =
     (case s of
        c # t \<Rightarrow> if c = CHR ''.''
                 then (if takeWhile digit t = [] then None else Some (c # takeWhile digit t, dropWhile digit t))
                 else Some ([], s)
      | [] \<Rightarrow> Some ([], s))"

definition lex_exp :: "string \<Rightarrow> (string \<times> string) option" where
  "lex_exp s =
     (case s of
        c # t \<Rightarrow> if c = CHR ''e'' \<or> c = CHR ''E''
                 then (let sg = (case t of d # _ \<Rightarrow> if d = CHR ''+'' \<or> d = CHR ''-'' then [d] else [] | [] \<Rightarrow> []);
                           u = drop (length sg) t
                       in if takeWhile digit u = [] then None else Some (c # sg @ takeWhile digit u, dropWhile digit u))
                 else Some ([], s)
      | [] \<Rightarrow> Some ([], s))"

definition lex_int :: "string \<Rightarrow> (string \<times> string) option" where
  "lex_int s =
     (case s of
        c # t \<Rightarrow> if c = CHR ''0'' then Some (''0'', t)
                 else if digit c then Some (takeWhile digit s, dropWhile digit s) else None
      | [] \<Rightarrow> None)"

definition lex_num :: "string \<Rightarrow> (string \<times> string) option" where
  "lex_num s =
     (let sg = (case s of c # _ \<Rightarrow> if c = CHR ''-'' then [c] else [] | [] \<Rightarrow> []) in
      case lex_int (drop (length sg) s) of
        None \<Rightarrow> None
      | Some (a, s1) \<Rightarrow>
          (case lex_frac s1 of
             None \<Rightarrow> None
           | Some (b, s2) \<Rightarrow> map_option (\<lambda>(c, s3). (sg @ a @ b @ c, s3)) (lex_exp s2)))"

definition word :: "string \<Rightarrow> token \<Rightarrow> string \<Rightarrow> (token \<times> string) option" where
  "word w t s = (if take (length w) s = w then Some (t, drop (length w) s) else None)"

definition next_token :: "string \<Rightarrow> (token \<times> string) option" where
  "next_token s0 =
     (case dropWhile json_space s0 of
        [] \<Rightarrow> None
      | c # s \<Rightarrow>
          if c = CHR ''{'' then Some (TLBrace, s) else if c = CHR ''}'' then Some (TRBrace, s)
          else if c = CHR ''['' then Some (TLBrack, s) else if c = CHR '']'' then Some (TRBrack, s)
          else if c = CHR '':'' then Some (TColon, s) else if c = CHR '','' then Some (TComma, s)
          else if c = dq then map_option (\<lambda>(t, u). (TStr t, u)) (lex_chars s)
          else if c = CHR ''n'' then word ''null'' TNull (c # s)
          else if c = CHR ''t'' then word ''true'' (TBool True) (c # s)
          else if c = CHR ''f'' then word ''false'' (TBool False) (c # s)
          else map_option (\<lambda>(t, u). (TNum t, u)) (lex_num (c # s)))"

lemma lex_chars_step:
  assumes "lex_chars (c # s) = Some (t, u)"
  shows "u = s \<or> (\<exists>s' t'. length s' \<le> length s \<and> lex_chars s' = Some (t', u))"
proof -
  note l = assms [unfolded lex_chars.simps(2)]
  have via: ?thesis if "\<exists>t'. lex_chars s' = Some (t', u)" "length s' \<le> length s" for s' using that by blast
  consider "c = dq" | "c = bsl" | "c \<noteq> dq" "c \<noteq> bsl" "byte c < 128" | "c \<noteq> dq" "c \<noteq> bsl" "\<not> byte c < 128" by blast
  then show ?thesis
  proof cases
    case 2
    then obtain e s1 where s: "s = e # s1" using l by (auto split: list.splits)
    show ?thesis
    proof (cases "e = CHR ''u''")
      case True
      then obtain r s2 where h: "hex4 s1 = Some (r, s2)" using l 2 s by (auto split: option.splits)
      obtain r' s3 where g: "surrogate r s2 = (r', s3)" by fastforce
      have "\<exists>t'. lex_chars s3 = Some (t', u)" using l 2 s True h g by auto
      then show ?thesis using hex4_shorter [OF h] surrogate_len [OF g [symmetric]] s by (intro via [of s3]) auto
    next
      case False
      then show ?thesis using l 2 s by (intro via [of s1]) (auto split: option.splits)
    qed
  next
    case 3
    then show ?thesis using l by (intro via [of s]) (auto split: if_splits)
  next
    case 4
    obtain r w where d: "decode_rune (c # s) = (r, w)" by fastforce
    then show ?thesis using l 4 rune_width [OF d] by (intro via [of "drop w (c # s)"]) (auto split: if_splits)
  qed (use l in simp)
qed

lemma lex_chars_shorter: "lex_chars s = Some (t, u) \<Longrightarrow> length u < length s"
proof (induction "length s" arbitrary: s t u rule: less_induct)
  case less
  then show ?case
  proof (cases s)
    case (Cons c s0)
    consider "u = s0" | s' t' where "length s' \<le> length s0" "lex_chars s' = Some (t', u)"
      using lex_chars_step [of c s0 t u] less.prems Cons by blast
    then show ?thesis
    proof cases
      case (2 s' t')
      then show ?thesis using less.hyps [of s' t' u] Cons by simp
    qed (simp add: Cons)
  qed (simp add: lex_chars.simps)
qed

lemma length_dropWhile: "length (dropWhile P s) \<le> length s"
  by (simp add: length_dropWhile_le)

lemma lex_num_shorter: "lex_num s = Some (t, u) \<Longrightarrow> length u < length s"
proof -
  assume n: "lex_num s = Some (t, u)"
  have i: "length s1 < length s'" if "lex_int s' = Some (a, s1)" for s' s1 a
    using that length_dropWhile [of digit "tl s'"] by (auto simp: lex_int_def split: list.splits if_splits)
  have f: "length s2 \<le> length s'" if "lex_frac s' = Some (a, s2)" for s' s2 a
    using that length_dropWhile [of digit "tl s'"] by (auto simp: lex_frac_def split: list.splits if_splits)
  have e: "length s3 \<le> length s'" if "lex_exp s' = Some (a, s3)" for s' s3 a
    using that length_dropWhile [of digit "tl s'"] length_dropWhile [of digit "tl (tl s')"]
    by (auto simp: lex_exp_def Let_def split: list.splits if_splits)
  from n show ?thesis by (auto simp: lex_num_def Let_def split: option.splits dest!: i f e)
qed

lemma next_token_shorter: "next_token s = Some (t, u) \<Longrightarrow> length u < length s"
proof -
  assume t: "next_token s = Some (t, u)"
  have w: "length u < length s'" if "word w tk s' = Some (t, u)" "w \<noteq> []" "s' \<noteq> []" for w tk s'
    using that by (auto simp: word_def split: if_splits)
  have "length u < length (dropWhile json_space s)"
    using t by (auto simp: next_token_def dest!: lex_chars_shorter lex_num_shorter w split: list.splits if_splits)
  then show ?thesis using length_dropWhile [of json_space s] by simp
qed

section \<open>Strings read back\<close>

lemma mod_offset:
  fixes b :: nat
  assumes "q \<le> b" "b < q + m" "q mod m = 0"
  shows "b mod m = b - q"
proof -
  have "b mod m = (q + (b - q)) mod m" using assms(1) by simp
  also have "\<dots> = (b - q) mod m" using assms(3) by (metis mod_add_left_eq add_0)
  finally show ?thesis using assms(1,2) by simp
qed

lemma split64: "z < 64 \<Longrightarrow> (a * 64 + z) div 64 = (a :: nat)" "z < 64 \<Longrightarrow> (a * 64 + z) mod 64 = (z :: nat)"
  by simp_all

lemma rune2:
  assumes x: "2 \<le> x" "x < 32" and y: "y < 64" and r: "r = ((192 + x) mod 32) * 64 + (128 + y) mod (64::nat)"
  shows "128 \<le> r" "r < 2048" "r div 64 = x" "r mod 64 = y"
proof -
  have r': "r = x * 64 + y" unfolding r using mod_offset [of 192 "192 + x" 32] mod_offset [of 128 "128 + y" 64] x y by simp
  show "r div 64 = x" "r mod 64 = y" unfolding r' by (rule split64 [OF y])+
  show "128 \<le> r" "r < 2048" unfolding r' using x y by linarith+
qed

lemma rune3:
  assumes x: "x < 16" and y: "y < 64" and z: "z < 64" and xy: "x = 0 \<Longrightarrow> 32 \<le> y"
    and r: "r = ((224 + x) mod 16) * 4096 + ((128 + y) mod 64) * 64 + (128 + z) mod (64::nat)"
  shows "2048 \<le> r" "r < 65536" "r div 4096 = x" "r div 64 mod 64 = y" "r mod 64 = z"
proof -
  have r': "r = (x * 64 + y) * 64 + z"
    unfolding r using mod_offset [of 224 "224 + x" 16] mod_offset [of 128 "128 + y" 64] mod_offset [of 128 "128 + z" 64] x y z by simp
  have d: "r div 64 = x * 64 + y" unfolding r' by (rule split64 [OF z])
  have "r div 4096 = r div 64 div 64" by (simp add: div_mult2_eq)
  then show "r div 4096 = x" unfolding d by (simp only: split64 [OF y])
  show "r div 64 mod 64 = y" unfolding d by (rule split64 [OF y])
  show "r mod 64 = z" unfolding r' by (rule split64 [OF z])
  have l: "r = x * 4096 + y * 64 + z" unfolding r' by simp
  show "r < 65536" unfolding l using x y z by linarith
  show "2048 \<le> r" unfolding l
  proof (cases "x = 0")
    case True
    then show "2048 \<le> x * 4096 + y * 64 + z" using xy by linarith
  qed linarith
qed

lemma rune4:
  assumes x: "x < 8" and y: "y < 64" and z: "z < 64" and w: "w < 64" and xy: "x = 0 \<Longrightarrow> 16 \<le> y"
    and r: "r = ((240 + x) mod 8) * 262144 + ((128 + y) mod 64) * 4096 + ((128 + z) mod 64) * 64 + (128 + w) mod (64::nat)"
  shows "65536 \<le> r" "r div 262144 = x" "r div 4096 mod 64 = y" "r div 64 mod 64 = z" "r mod 64 = w"
proof -
  have r': "r = ((x * 64 + y) * 64 + z) * 64 + w"
    unfolding r using mod_offset [of 240 "240 + x" 8] mod_offset [of 128 "128 + y" 64] mod_offset [of 128 "128 + z" 64]
      mod_offset [of 128 "128 + w" 64] x y z w by simp
  have d: "r div 64 = (x * 64 + y) * 64 + z" unfolding r' by (rule split64 [OF w])
  have "r div 4096 = r div 64 div 64" by (simp add: div_mult2_eq)
  then have e: "r div 4096 = x * 64 + y" unfolding d by (simp only: split64 [OF z])
  have "r div 262144 = r div 4096 div 64" by (simp add: div_mult2_eq)
  then show "r div 262144 = x" unfolding e by (simp only: split64 [OF y])
  show "r div 4096 mod 64 = y" unfolding e by (rule split64 [OF y])
  show "r div 64 mod 64 = z" unfolding d by (rule split64 [OF z])
  show "r mod 64 = w" unfolding r' by (rule split64 [OF w])
  have l: "r = x * 262144 + y * 4096 + z * 64 + w" unfolding r' by simp
  show "65536 \<le> r" unfolding l
  proof (cases "x = 0")
    case True
    then show "65536 \<le> x * 262144 + y * 4096 + z * 64 + w" using xy by linarith
  qed linarith
qed

lemma cont_offset: "cont lo hi b \<Longrightarrow> 128 \<le> lo \<Longrightarrow> hi \<le> 191 \<Longrightarrow> \<exists>y<64. b = 128 + y"
  by (rule exI [of _ "b - 128"]) (auto simp: cont_def)

lemma decode_valid:
  assumes d: "decode_rune (c # s) = (r, w)" and v: "\<not> (r = RuneError \<and> w = 1)"
  shows "encode_rune r = take w (c # s) \<and> decode_rune (take w (c # s) @ t) = (r, w) \<and> w \<le> length (c # s)"
proof (cases "byte c < 128")
  case True
  then show ?thesis using d by (auto simp: decode_rune_def encode_rune_def)
next
  case False
  then obtain n lo hi b1 s1 where l: "lead (byte c) = Some (n, lo, hi)" and s: "s = b1 # s1" and b1: "cont lo hi (byte b1)"
    using d v by (auto simp: decode_rune_def split: option.splits list.splits if_splits)
  have lo: "128 \<le> lo" "hi \<le> 191" using l by (auto simp: lead_def split: if_splits)
  note b1' = b1 [unfolded cont_def]
  obtain y where y: "y < 64" "byte b1 = 128 + y" using cont_offset [OF b1 lo] by auto
  consider "n = 2" | "n = 3" | "n = 4" using l by (auto simp: lead_def split: if_splits)
  then show ?thesis
  proof cases
    case 1
    then have rw: "r = (byte c mod 32) * 64 + byte b1 mod 64" "w = 2" using d False l b1 by (auto simp: decode_rune_def s)
    have "194 \<le> byte c" "byte c \<le> 223" using l 1 by (auto simp: lead_def split: if_splits)
    then obtain x where x: "byte c = 192 + x" "2 \<le> x" "x < 32" by (intro that [of "byte c - 192"]) auto
    note R = rune2 [OF x(2,3) y(1) rw(1) [unfolded x(1) y(2)]]
    have "encode_rune r = [c, b1]" using R x(1) y(2) chr_byte [of c] chr_byte [of b1] by (simp add: encode_rune_def)
    then show ?thesis using 1 False l b1 rw by (simp add: s decode_rune_def)
  next
    case 2
    then obtain b2 s2 where s1: "s1 = b2 # s2" and b2: "cont 128 191 (byte b2)"
      using d v False l b1 by (auto simp: decode_rune_def s split: list.splits if_splits)
    have rw: "r = (byte c mod 16) * 4096 + (byte b1 mod 64) * 64 + byte b2 mod 64" "w = 3"
      using d False l b1 b2 2 by (auto simp: decode_rune_def s s1)
    obtain z where z: "z < 64" "byte b2 = 128 + z" using cont_offset [OF b2] by auto
    have "224 \<le> byte c" "byte c \<le> 239" "byte c = 224 \<longrightarrow> 160 \<le> byte b1"
      using l 2 b1' by (auto simp: lead_def split: if_splits)
    then obtain x where x: "byte c = 224 + x" "x < 16" "x = 0 \<Longrightarrow> 32 \<le> y" using y(2) by (intro that [of "byte c - 224"]) auto
    note R = rune3 [OF x(2) y(1) z(1) x(3) rw(1) [unfolded x(1) y(2) z(2)]]
    have "encode_rune r = [c, b1, b2]"
      using R x(1) y(2) z(2) chr_byte [of c] chr_byte [of b1] chr_byte [of b2] by (simp add: encode_rune_def)
    then show ?thesis using 2 False l b1 b2 rw by (simp add: s s1 decode_rune_def)
  next
    case 3
    then obtain b2 s2 where s1: "s1 = b2 # s2" and b2: "cont 128 191 (byte b2)"
      using d v False l b1 by (auto simp: decode_rune_def s split: list.splits if_splits)
    then obtain b3 s3 where s2: "s2 = b3 # s3" and b3: "cont 128 191 (byte b3)"
      using d v False l b1 3 by (auto simp: decode_rune_def s split: list.splits if_splits)
    have rw: "r = (byte c mod 8) * 262144 + (byte b1 mod 64) * 4096 + (byte b2 mod 64) * 64 + byte b3 mod 64" "w = 4"
      using d False l b1 b2 b3 3 by (auto simp: decode_rune_def s s1 s2)
    obtain z where z: "z < 64" "byte b2 = 128 + z" using cont_offset [OF b2] by auto
    obtain v' where v': "v' < 64" "byte b3 = 128 + v'" using cont_offset [OF b3] by auto
    have "240 \<le> byte c" "byte c \<le> 244" "byte c = 240 \<longrightarrow> 144 \<le> byte b1"
      using l 3 b1' by (auto simp: lead_def split: if_splits)
    then obtain x where x: "byte c = 240 + x" "x < 8" "x = 0 \<Longrightarrow> 16 \<le> y" using y(2) by (intro that [of "byte c - 240"]) auto
    note R = rune4 [OF x(2) y(1) z(1) v'(1) x(3) rw(1) [unfolded x(1) y(2) z(2) v'(2)]]
    have "encode_rune r = [c, b1, b2, b3]"
      using R x(1) y(2) z(2) v'(2) chr_byte [of c] chr_byte [of b1] chr_byte [of b2] chr_byte [of b3] by (simp add: encode_rune_def)
    then show ?thesis using 3 False l b1 b2 b3 rw by (simp add: s s1 s2 decode_rune_def)
  qed
qed

text \<open>\<^verbatim>\<open>utf8.ValidString\<close>\<close>

function utf8_ok :: "string \<Rightarrow> bool" where
  "utf8_ok [] = True"
| "utf8_ok (c # s) = (case decode_rune (c # s) of (r, w) \<Rightarrow> \<not> (r = RuneError \<and> w = 1) \<and> utf8_ok (drop w (c # s)))"
  by pat_completeness auto
termination
  by (relation "measure length") (auto dest!: rune_width [OF sym] simp: less_Suc_eq_le)

declare utf8_ok.simps [simp del]

lemma utf8_ok_ascii: "list_all (\<lambda>c. byte c < 128) s \<Longrightarrow> utf8_ok s"
proof (induction s)
  case (Cons c s)
  then have "decode_rune (c # s) = (byte c, 1)" "byte c \<noteq> RuneError" by (auto simp: decode_rune_ascii RuneError_def)
  with Cons show ?case by (simp add: utf8_ok.simps)
qed (simp add: utf8_ok.simps)

lemma hex_digit_val_char: "n < 16 \<Longrightarrow> hex_digit_val (hex_char n) = Some n"
  by (simp add: hex_digit_val_def hex_char_def Let_def)

lemma hex4_hex2:
  assumes "hex_digit_val a = Some x" "hex_digit_val b = Some y" "n < 256"
  shows "hex4 (a # b # hex2 n @ s) = Some (x * 4096 + y * 256 + n, s)"
proof -
  have "n div 16 mod 16 = n div 16" using assms(3) by (simp add: div_less_iff_less_mult)
  then show ?thesis using assms by (simp add: hex2_def hex_digit_val_char)
qed

lemma hex_digit_val_digit: "hex_digit_val CHR ''0'' = Some 0" "hex_digit_val CHR ''2'' = Some 2"
  by (simp_all add: hex_digit_val_def byte_def)

lemma lex_plain:
  assumes "c \<noteq> dq" "c \<noteq> bsl" "32 \<le> byte c" "byte c < 128"
  shows "lex_chars (c # s) = map_option (\<lambda>(t, u). (c # t, u)) (lex_chars s)"
  using assms by (simp add: lex_chars.simps(2))

lemma lex_escaped:
  assumes "unescape e = Some d"
  shows "lex_chars (bsl # e # s) = map_option (\<lambda>(t, u). (d # t, u)) (lex_chars s)"
proof -
  have "e \<noteq> CHR ''u''" using assms by (auto simp: unescape_def)
  then show ?thesis using assms by (simp add: lex_chars.simps(2))
qed

lemma lex_unicode:
  assumes "hex4 s = Some (r, s')" "r < 55296 \<or> 57343 < r"
  shows "lex_chars (bsl # CHR ''u'' # s) = map_option (\<lambda>(t, u). (encode_rune r @ t, u)) (lex_chars s')"
  using assms by (simp add: lex_chars.simps(2) surrogate_def)

lemma byte_char: "byte c = n \<Longrightarrow> c = chr n"
  by auto

lemma lex_json_byte:
  assumes "byte c < 128"
  shows "lex_chars (json_byte c @ s) = map_option (\<lambda>(t, u). (c # t, u)) (lex_chars s)"
proof -
  consider (q) "c = dq \<or> c = bsl" | (e) "byte c \<in> {8, 9, 10, 12, 13}"
    | (u) "c \<noteq> dq" "c \<noteq> bsl" "byte c \<notin> {8, 9, 10, 12, 13}" "byte c < 32 \<or> c = CHR ''<'' \<or> c = CHR ''>'' \<or> c = CHR ''&''"
    | (p) "c \<noteq> dq" "c \<noteq> bsl" "byte c \<notin> {8, 9, 10, 12, 13}" "\<not> (byte c < 32 \<or> c = CHR ''<'' \<or> c = CHR ''>'' \<or> c = CHR ''&'')" by blast
  then show ?thesis
  proof cases
    case q
    then have "json_byte c = [bsl, c]" "unescape c = Some c" by (auto simp: json_byte_def unescape_def)
    then show ?thesis by (simp add: lex_escaped)
  next
    case e
    then have "c \<noteq> dq" "c \<noteq> bsl" by (auto simp: byte_def)
    then have "\<exists>x. json_byte c = [bsl, x] \<and> unescape x = Some c" using e by (auto simp: json_byte_def unescape_def dest: byte_char)
    then show ?thesis by (auto simp: lex_escaped)
  next
    case u
    then have "json_byte c = bsl # CHR ''u'' # CHR ''0'' # CHR ''0'' # hex2 (byte c)" by (auto simp: json_byte_def)
    moreover have "hex4 (CHR ''0'' # CHR ''0'' # hex2 (byte c) @ s) = Some (byte c, s)"
      using hex4_hex2 [OF hex_digit_val_digit(1) hex_digit_val_digit(1), of "byte c" s] by simp
    ultimately show ?thesis using assms lex_unicode [of "CHR ''0'' # CHR ''0'' # hex2 (byte c) @ s" "byte c" s]
      by (simp add: encode_rune_ascii)
  next
    case p
    then have "json_byte c = [c]" "32 \<le> byte c" by (auto simp: json_byte_def)
    then show ?thesis using p assms by (simp add: lex_plain)
  qed
qed

lemma lex_json_chars: "utf8_ok s \<Longrightarrow> lex_chars (json_chars s @ dq # t) = Some (s, t)"
proof (induction s rule: json_chars.induct)
  case 1
  then show ?case by (simp add: json_chars.simps lex_chars.simps)
next
  case (2 c s)
  obtain r w where d: "decode_rune (c # s) = (r, w)" by fastforce
  then have v: "\<not> (r = RuneError \<and> w = 1)" "utf8_ok (drop w (c # s))" using "2.prems" by (auto simp: utf8_ok.simps)
  show ?case
  proof (cases "byte c < 128")
    case True
    then have "w = 1" using d by (simp add: decode_rune_ascii)
    then show ?thesis using True v "2.IH"(1) by (simp add: json_chars.simps(2) lex_json_byte)
  next
    case False
    let ?s = "drop w (c # s)"
    have ih: "lex_chars (json_chars ?s @ dq # t) = Some (?s, t)" using "2.IH"(2) [OF False] d v(2) by simp
    have whole: "take w (c # s) @ ?s = c # s" by (rule append_take_drop_id)
    note dv = decode_valid [OF d v(1)]
    show ?thesis
    proof (cases "r = 8232 \<or> r = 8233")
      case True
      then have "json_chars (c # s) = bsl # CHR ''u'' # CHR ''2'' # CHR ''0'' # hex2 (r mod 256) @ json_chars ?s"
        using False d v by (auto simp: json_chars.simps(2) RuneError_def)
      moreover have "hex4 (CHR ''2'' # CHR ''0'' # hex2 (r mod 256) @ json_chars ?s @ dq # t) = Some (r, json_chars ?s @ dq # t)"
        using True hex4_hex2 [OF hex_digit_val_digit(2,1), of "r mod 256" "json_chars ?s @ dq # t"] by auto
      ultimately have "lex_chars (json_chars (c # s) @ dq # t) = Some (encode_rune r @ ?s, t)"
        using True lex_unicode [of "CHR ''2'' # CHR ''0'' # hex2 (r mod 256) @ json_chars ?s @ dq # t" r] ih by auto
      then show ?thesis using dv whole by (metis (no_types, lifting))
    next
      case f: False
      have j: "json_chars (c # s) = take w (c # s) @ json_chars ?s" using False d v f by (auto simp: json_chars.simps(2))
      obtain y where y: "take w (c # s) = c # y" using rune_width [OF d] by (cases w) auto
      have w: "length (c # y) = w" using dv y by (metis length_take min.absorb2)
      have "decode_rune (c # y @ json_chars ?s @ dq # t) = (r, w)" using dv [of "json_chars ?s @ dq # t"] y by simp
      moreover have "c \<noteq> dq" "c \<noteq> bsl" "\<not> byte c < 32" using False by (auto simp: byte_def)
      moreover have "drop w (c # y @ json_chars ?s @ dq # t) = json_chars ?s @ dq # t" unfolding w [symmetric] by simp
      ultimately have "lex_chars (c # y @ json_chars ?s @ dq # t) = Some (encode_rune r @ ?s, t)"
        using False ih by (simp add: lex_chars.simps(2))
      then show ?thesis using dv whole j y by (metis append_Cons append_assoc)
    qed
  qed
qed

section \<open>The decoder\<close>

text \<open>What is open and what may come next: an element or the end, an element, a separator or the
  end; likewise for the members of an object, with their keys.\<close>

datatype frame =
    ArrStart
  | ArrElem "json list"
  | ArrSep "json list"
  | ObjStart
  | ObjKey "(string \<times> json) list"
  | ObjColon "(string \<times> json) list" string
  | ObjVal "(string \<times> json) list" string
  | ObjSep "(string \<times> json) list"

datatype fed = Reject | Finished json | Continue "frame list"

fun put_value :: "json \<Rightarrow> frame list \<Rightarrow> fed" where
  "put_value v [] = Finished v"
| "put_value v (ArrStart # st) = Continue (ArrSep [v] # st)"
| "put_value v (ArrElem vs # st) = Continue (ArrSep (vs @ [v]) # st)"
| "put_value v (ObjVal ps k # st) = Continue (ObjSep (ps @ [(k, v)]) # st)"
| "put_value v _ = Reject"

fun wants_value :: "frame list \<Rightarrow> bool" where
  "wants_value [] = True"
| "wants_value (ArrStart # st) = True"
| "wants_value (ArrElem vs # st) = True"
| "wants_value (ObjVal ps k # st) = True"
| "wants_value _ = False"

fun feed :: "token \<Rightarrow> frame list \<Rightarrow> fed" where
  "feed TNull st = put_value JNull st"
| "feed (TBool b) st = put_value (JBool b) st"
| "feed (TNum n) st = put_value (JNum n) st"
| "feed (TStr s) (ObjStart # st) = Continue (ObjColon [] s # st)"
| "feed (TStr s) (ObjKey ps # st) = Continue (ObjColon ps s # st)"
| "feed (TStr s) st = put_value (JStr s) st"
| "feed TLBrack st = (if wants_value st then Continue (ArrStart # st) else Reject)"
| "feed TLBrace st = (if wants_value st then Continue (ObjStart # st) else Reject)"
| "feed TRBrack (ArrStart # st) = put_value (JArr []) st"
| "feed TRBrack (ArrSep vs # st) = put_value (JArr vs) st"
| "feed TRBrace (ObjStart # st) = put_value (JObj []) st"
| "feed TRBrace (ObjSep ps # st) = put_value (JObj ps) st"
| "feed TComma (ArrSep vs # st) = Continue (ArrElem vs # st)"
| "feed TComma (ObjSep ps # st) = Continue (ObjKey ps # st)"
| "feed TColon (ObjColon ps k # st) = Continue (ObjVal ps k # st)"
| "feed _ _ = Reject"

text \<open>The first value of a text, and what is left of the text.\<close>

function run_json :: "frame list \<Rightarrow> string \<Rightarrow> (json \<times> string) option" where
  "run_json st s =
     (case next_token s of
        None \<Rightarrow> None
      | Some (t, u) \<Rightarrow>
          (case feed t st of Reject \<Rightarrow> None | Finished v \<Rightarrow> Some (v, u) | Continue st' \<Rightarrow> run_json st' u))"
  by pat_completeness auto
termination
  by (relation "measure (\<lambda>(st, s). length s)") (auto dest!: next_token_shorter)

declare run_json.simps [simp del]

definition first_value :: "string \<Rightarrow> (json \<times> string) option" where
  "first_value s = run_json [] s"

definition resume :: "fed \<Rightarrow> string \<Rightarrow> (json \<times> string) option" where
  "resume f u = (case f of Reject \<Rightarrow> None | Finished v \<Rightarrow> Some (v, u) | Continue st \<Rightarrow> run_json st u)"

lemma resume_simps [simp]:
  "resume Reject u = None" "resume (Finished v) u = Some (v, u)" "resume (Continue st) u = run_json st u"
  by (simp_all add: resume_def)

lemma run_token: "next_token s = Some (t, u) \<Longrightarrow> run_json st s = resume (feed t st) u"
  by (simp add: run_json.simps [of st s] resume_def)

section \<open>Values read back\<close>

lemma next_token_punct [simp]:
  "next_token (CHR ''{'' # s) = Some (TLBrace, s)" "next_token (CHR ''}'' # s) = Some (TRBrace, s)"
  "next_token (CHR ''['' # s) = Some (TLBrack, s)" "next_token (CHR '']'' # s) = Some (TRBrack, s)"
  "next_token (CHR '':'' # s) = Some (TColon, s)" "next_token (CHR '','' # s) = Some (TComma, s)"
  by (simp_all add: next_token_def json_space_def byte_def)

lemma next_token_words:
  "next_token (''null'' @ s) = Some (TNull, s)" "next_token (''true'' @ s) = Some (TBool True, s)"
  "next_token (''false'' @ s) = Some (TBool False, s)"
  by (simp_all add: next_token_def json_space_def byte_def word_def)

lemma next_token_string: "utf8_ok x \<Longrightarrow> next_token (json_string x @ s) = Some (TStr x, s)"
  using lex_json_chars [of x s] by (simp add: next_token_def json_space_def byte_def json_string_def)

definition num_end :: "string \<Rightarrow> bool" where
  "num_end s \<longleftrightarrow> (case s of [] \<Rightarrow> True | c # _ \<Rightarrow> \<not> digit c \<and> c \<notin> {CHR ''.'', CHR ''e'', CHR ''E''})"

lemma fmt_nat_head: "0 < n \<Longrightarrow> \<exists>c cs. fmt_nat n = c # cs \<and> c \<noteq> CHR ''0''"
proof (induction n rule: fmt_nat.induct)
  case (1 n)
  show ?case
  proof (cases "n < 10")
    case True
    have "byte (chr (48 + n)) = 48 + n" "byte CHR ''0'' = 48" using True by (simp, simp add: byte_def)
    then have "chr (48 + n) \<noteq> CHR ''0''" using 1 by (metis add_cancel_left_right less_numeral_extra(3))
    then show ?thesis using True by (simp add: fmt_nat.simps [of n])
  next
    case False
    then obtain c cs where "fmt_nat (n div 10) = c # cs" "c \<noteq> CHR ''0''" using 1 by force
    then show ?thesis using False by (simp add: fmt_nat.simps [of n])
  qed
qed

lemma takeWhile_end: "list_all digit xs \<Longrightarrow> num_end s \<Longrightarrow> takeWhile digit (xs @ s) = xs \<and> dropWhile digit (xs @ s) = s"
  by (induction xs) (auto simp: num_end_def split: list.splits)

lemma lex_int_nat: "num_end s \<Longrightarrow> lex_int (fmt_nat n @ s) = Some (fmt_nat n, s)"
proof (cases "n = 0")
  case True
  have "chr 48 = CHR ''0''" using chr_byte [of "CHR ''0''"] by (simp add: byte_def)
  with True show ?thesis by (simp add: lex_int_def fmt_nat.simps)
next
  case False
  assume s: "num_end s"
  obtain c cs where c: "fmt_nat n = c # cs" "c \<noteq> CHR ''0''" using fmt_nat_head False by blast
  have d: "list_all digit (c # cs)" using fmt_nat_digits [of n] c by simp
  show ?thesis using c d takeWhile_end [OF d s] by (simp add: lex_int_def)
qed

lemma lex_num_fmt:
  assumes s: "num_end s"
  shows "lex_num (fmt_d i @ s) = Some (fmt_d i, s)"
proof -
  have "lex_frac s = Some ([], s)" "lex_exp s = Some ([], s)"
    using s by (auto simp: lex_frac_def lex_exp_def num_end_def split: list.split)
  moreover have "\<exists>c cs. fmt_nat n = c # cs \<and> c \<noteq> CHR ''-''" for n
    using fmt_nat_digits [of n] by (cases "fmt_nat n") (auto simp: digit_def byte_def)
  then obtain c cs where "fmt_nat (nat i) = c # cs" "c \<noteq> CHR ''-''" by blast
  moreover have "lex_int (fmt_nat (nat i) @ s) = Some (fmt_nat (nat i), s)" "lex_int (fmt_nat (nat (- i)) @ s) = Some (fmt_nat (nat (- i)), s)"
    by (rule lex_int_nat [OF s])+
  ultimately show ?thesis by (cases "i < 0") (simp_all add: lex_num_def fmt_d_def Let_def)
qed

lemma next_token_num:
  assumes "num_end s"
  shows "next_token (fmt_d i @ s) = Some (TNum (fmt_d i), s)"
proof -
  obtain c cs where c: "fmt_d i = c # cs" "digit c \<or> c = CHR ''-''"
  proof (cases "i < 0")
    case False
    then show ?thesis using fmt_nat_digits [of "nat i"] by (cases "fmt_nat (nat i)") (auto simp: fmt_d_def intro: that)
  qed (auto simp: fmt_d_def intro: that)
  have "\<not> json_space c" "c \<notin> {CHR ''{'', CHR ''}'', CHR ''['', CHR '']'', CHR '':'', CHR '','', dq, CHR ''n'', CHR ''t'', CHR ''f''}"
    using c(2) by (auto simp: json_space_def digit_def byte_def)
  then show ?thesis using lex_num_fmt [OF assms, of i] c(1) by (simp add: next_token_def)
qed

text \<open>Values the program writes: whole numbers, and strings in UTF-8.\<close>

fun json_ok :: "json \<Rightarrow> bool" where
  "json_ok JNull = True"
| "json_ok (JBool b) = True"
| "json_ok (JNum n) = (\<exists>i. n = fmt_d i)"
| "json_ok (JStr s) = utf8_ok s"
| "json_ok (JArr vs) = list_all json_ok vs"
| "json_ok (JObj ps) = list_all (\<lambda>(k, v). utf8_ok k \<and> json_ok v) ps"

lemma num_end_punct [simp]: "num_end (CHR '','' # s)" "num_end (CHR '']'' # s)" "num_end (CHR ''}'' # s)"
  by (simp_all add: num_end_def digit_def byte_def)

lemma run_elements:
  assumes "\<And>v st s. v \<in> set vs \<Longrightarrow> wants_value st \<Longrightarrow> num_end s \<Longrightarrow> run_json st (encode v @ s) = resume (put_value v st) s"
    "vs \<noteq> []"
  shows "run_json (ArrElem us # st) (commas (map encode vs) @ CHR '']'' # s) = resume (put_value (JArr (us @ vs)) st) s"
  using assms
proof (induction "map encode vs" arbitrary: vs us rule: commas.induct)
  case (2 x)
  then obtain v where "vs = [v]" by auto
  then show ?case using 2 by (simp add: run_token)
next
  case (3 x y ys)
  then obtain v v' vs' where vs: "vs = v # v' # vs'" by (metis map_eq_Cons_D)
  have "run_json (ArrElem (us @ [v]) # st) (commas (map encode (v' # vs')) @ CHR '']'' # s)
      = resume (put_value (JArr ((us @ [v]) @ v' # vs')) st) s"
    by (rule 3(1)) (use 3(2,3) vs in auto)
  then show ?case using 3(3) [of v "ArrElem us # st"] vs by (simp add: run_token)
qed simp

definition encode_member :: "string \<times> json \<Rightarrow> string" where
  "encode_member = (\<lambda>(k, v). json_string k @ '':'' @ encode v)"

lemma run_members:
  assumes "\<And>p st s. p \<in> set ps \<Longrightarrow> wants_value st \<Longrightarrow> num_end s \<Longrightarrow>
      run_json st (encode (snd p) @ s) = resume (put_value (snd p) st) s"
    "\<And>p. p \<in> set ps \<Longrightarrow> utf8_ok (fst p)" "ps \<noteq> []"
  shows "run_json (ObjKey qs # st) (commas (map encode_member ps) @ CHR ''}'' # s) = resume (put_value (JObj (qs @ ps)) st) s"
  using assms
proof (induction "map encode_member ps" arbitrary: ps qs rule: commas.induct)
  case (2 x)
  then obtain k v where "ps = [(k, v)]" by auto
  then show ?case using 2 by (simp add: encode_member_def run_token next_token_string)
next
  case (3 x y ys)
  then obtain k v p ps' where ps: "ps = (k, v) # p # ps'" by (metis map_eq_Cons_D surj_pair)
  have "run_json (ObjKey (qs @ [(k, v)]) # st) (commas (map encode_member (p # ps')) @ CHR ''}'' # s)
      = resume (put_value (JObj ((qs @ [(k, v)]) @ p # ps')) st) s"
    by (rule 3(1)) (use 3(2-4) ps in auto)
  then show ?case using 3(3) [of "(k, v)" "ObjVal qs k # st"] 3(4) [of "(k, v)"] ps
    by (simp add: encode_member_def run_token next_token_string)
qed simp

text \<open>Only the end of a number depends on what follows.\<close>

lemma run_encode:
  "json_ok v \<Longrightarrow> wants_value st \<Longrightarrow> (\<forall>n. v = JNum n \<longrightarrow> num_end s) \<Longrightarrow> run_json st (encode v @ s) = resume (put_value v st) s"
proof (induction v arbitrary: st s)
  case JNull
  then show ?case using run_token [OF next_token_words(1)] by simp
next
  case (JBool b)
  then show ?case using run_token [OF next_token_words(2)] run_token [OF next_token_words(3)] by simp
next
  case (JNum n)
  then show ?case using run_token [OF next_token_num] by auto
next
  case (JStr x)
  have "feed (TStr x) st = put_value (JStr x) st" using JStr.prems(2) by (cases st rule: wants_value.cases) simp_all
  then show ?case using JStr run_token [OF next_token_string] by simp
next
  case (JArr vs)
  have o: "run_json st (CHR ''['' # u) = run_json (ArrStart # st) u" for u using JArr.prems(2) by (simp add: run_token)
  show ?case
  proof (cases vs)
    case Nil
    then show ?thesis by (simp add: o run_token)
  next
    case (Cons v vs')
    have ih: "run_json st (encode x @ s) = resume (put_value x st) s" if "x \<in> set vs" "wants_value st" "num_end s" for x st s
      using JArr.IH [OF that(1) _ that(2)] JArr.prems(1) that(1,3) by (simp add: list_all_iff)
    have "run_json (ArrStart # st) (commas (map encode vs) @ CHR '']'' # s) = run_json (ArrElem [] # st) (commas (map encode vs) @ CHR '']'' # s)"
      using ih [of v "ArrStart # st"] ih [of v "ArrElem [] # st"] Cons by (cases vs') simp_all
    then show ?thesis using run_elements [of vs "[]" st s, OF ih] Cons by (simp add: o)
  qed
next
  case (JObj ps)
  have o: "run_json st (CHR ''{'' # u) = run_json (ObjStart # st) u" for u using JObj.prems(2) by (simp add: run_token)
  have m: "(\<lambda>(k, v). json_string k @ '':'' @ encode v) = encode_member" by (simp add: encode_member_def)
  show ?case
  proof (cases ps)
    case Nil
    then show ?thesis by (simp add: o run_token)
  next
    case (Cons p ps')
    have ih: "run_json st (encode (snd x) @ s) = resume (put_value (snd x) st) s" if "x \<in> set ps" "wants_value st" "num_end s" for x st s
      using JObj.IH [OF that(1) _ _ that(2), of "snd x"] JObj.prems(1) that(1,3) by (cases x) (auto simp: list_all_iff)
    have k: "utf8_ok (fst x)" if "x \<in> set ps" for x using JObj.prems(1) that by (cases x) (auto simp: list_all_iff)
    have "run_json (ObjStart # st) (encode_member p @ u) = run_json (ObjKey [] # st) (encode_member p @ u)" for u
      using k [of p] Cons by (cases p) (simp add: encode_member_def run_token next_token_string)
    then have "run_json (ObjStart # st) (commas (map encode_member ps) @ CHR ''}'' # s)
        = run_json (ObjKey [] # st) (commas (map encode_member ps) @ CHR ''}'' # s)"
      using Cons by (cases ps') simp_all
    then show ?thesis using run_members [of ps "[]" st s, OF ih k] Cons by (simp only: encode.simps m) (simp add: o)
  qed
qed

lemma first_value_encode:
  "json_ok v \<Longrightarrow> num_end s \<Longrightarrow> first_value (encode v @ s) = Some (v, s)"
  "json_ok (JObj ps) \<Longrightarrow> first_value (encode (JObj ps) @ s) = Some (JObj ps, s)"
  by (simp_all only: first_value_def) (simp_all only: run_encode wants_value.simps put_value.simps resume_simps simp_thms json.distinct)

lemma utf8_ok_append: "utf8_ok a \<Longrightarrow> utf8_ok b \<Longrightarrow> utf8_ok (a @ b)"
proof (induction a rule: utf8_ok.induct)
  case (2 c s)
  obtain r w where d: "decode_rune (c # s) = (r, w)" by fastforce
  then have v: "\<not> (r = RuneError \<and> w = 1)" "utf8_ok (drop w (c # s))" using "2.prems" by (auto simp: utf8_ok.simps)
  note dv = decode_valid [OF d v(1)]
  have "decode_rune (c # s @ b) = (r, w)" using dv [of "drop w (c # s) @ b"] by (metis append_Cons append_assoc append_take_drop_id)
  moreover have "drop w (c # s @ b) = drop w (c # s) @ b" using dv by (metis append_Cons drop_append diff_is_0_eq drop0)
  moreover have "utf8_ok (drop w (c # s) @ b)" using "2.IH" [OF d [symmetric]] v "2.prems"(2) by simp
  ultimately show ?case using v(1) by (simp add: utf8_ok.simps)
qed simp

end
