(* ===== verification/GoTime.thy ===== *)
theory GoTime
  imports GoFormat
begin

text \<open>
  Text of times and numbers in responses: \<^verbatim>\<open>Time.Format(time.RFC3339)\<close> in UTC,
  \<^verbatim>\<open>Duration.String\<close>, and \<^verbatim>\<open>strconv.FormatFloat(x, 'f', 3, 64)\<close>.  The calendar is counted out
  from 1970; reading a formatted time back gives its second.
\<close>

section \<open>The calendar\<close>

definition leap :: "nat \<Rightarrow> bool" where
  "leap y \<longleftrightarrow> y mod 4 = 0 \<and> (y mod 100 \<noteq> 0 \<or> y mod 400 = 0)"

definition months :: "nat \<Rightarrow> nat list" where
  "months y = [31, if leap y then 29 else 28, 31, 30, 31, 30, 31, 31, 30, 31, 30, 31]"

definition year_days :: "nat \<Rightarrow> nat" where
  "year_days y = (if leap y then 366 else 365)"

text \<open>The year of a day, counted from the first of January of \<open>y\<close>, and the day in that year.\<close>

function civil_year :: "nat \<Rightarrow> nat \<Rightarrow> nat \<times> nat" where
  "civil_year y d = (if d < year_days y then (y, d) else civil_year (Suc y) (d - year_days y))"
  by pat_completeness auto
termination
  by (relation "measure snd") (auto simp: year_days_def)

declare civil_year.simps [simp del]

fun civil_month :: "nat list \<Rightarrow> nat \<Rightarrow> nat \<Rightarrow> nat \<times> nat" where
  "civil_month [] i d = (i, d)"
| "civil_month (m # ms) i d = (if d < m then (i, d) else civil_month ms (Suc i) (d - m))"

definition pad2 :: "nat \<Rightarrow> string" where
  "pad2 n = [chr (48 + n div 10 mod 10), chr (48 + n mod 10)]"

definition RFC3339 :: "gotime \<Rightarrow> string" where
  "RFC3339 t =
     (let secs = nat (t div Second); s = secs mod 86400;
          (y, n) = civil_year 1970 (secs div 86400); (m, d) = civil_month (months y) 0 n
      in pad2 (y div 100) @ pad2 (y mod 100) @ ''-'' @ pad2 (m + 1) @ ''-'' @ pad2 (d + 1) @ ''T''
         @ pad2 (s div 3600) @ '':'' @ pad2 (s div 60 mod 60) @ '':'' @ pad2 (s mod 60) @ ''Z'')"

section \<open>Durations and numbers\<close>

text \<open>The digits after the point, without trailing zeros.\<close>

fun frac_digits :: "nat \<Rightarrow> nat \<Rightarrow> string" where
  "frac_digits 0 v = []"
| "frac_digits (Suc p) v = frac_digits p (v div 10) @ [chr (48 + v mod 10)]"

definition fmt_frac :: "nat \<Rightarrow> nat \<Rightarrow> string" where
  "fmt_frac p v = (let ds = rev (dropWhile (\<lambda>c. c = CHR ''0'') (rev (frac_digits p v))) in if ds = [] then [] else ''.'' @ ds)"

definition fmt_abs_duration :: "nat \<Rightarrow> string" where
  "fmt_abs_duration u =
     (if u = 0 then ''0s''
      else if u < 1000 then fmt_nat u @ ''ns''
      else if u < 1000000 then fmt_nat (u div 1000) @ fmt_frac 3 u @ [chr 194, chr 181] @ ''s''
      else if u < 1000000000 then fmt_nat (u div 1000000) @ fmt_frac 6 u @ ''ms''
      else let s = u div 1000000000 in
           (if s \<ge> 3600 then fmt_nat (s div 3600) @ ''h'' else [])
           @ (if s \<ge> 60 then fmt_nat (s div 60 mod 60) @ ''m'' else [])
           @ fmt_nat (s mod 60) @ fmt_frac 9 u @ ''s'')"

definition fmt_duration :: "duration \<Rightarrow> string" where
  "fmt_duration d = (if d < 0 then ''-'' else []) @ fmt_abs_duration (nat \<bar>d\<bar>)"

text \<open>A fixed number of decimals, rounded to even.\<close>

definition fmt_fixed :: "nat \<Rightarrow> float64 \<Rightarrow> string" where
  "fmt_fixed p x =
     (let m = nat (round_even (\<bar>x\<bar> * 10 ^ p))
      in (if x < 0 then ''-'' else []) @ fmt_nat (m div 10 ^ p) @ ''.'' @ frac_digits p m)"

definition fmt_f3 :: "float64 \<Rightarrow> string" where
  "fmt_f3 x = fmt_fixed 3 x"

text \<open>\<^verbatim>\<open>Duration.Round\<close>: to a multiple, half away from zero, at the ends of the range the end.\<close>

definition duration_Round :: "duration \<Rightarrow> duration \<Rightarrow> duration" where
  "duration_Round d m =
     (if m \<le> 0 then d
      else let r = go_rem d m in
           if d < 0
           then let r = i64 (- r) in
                if 2 * r < m then i64 (d + r)
                else let d1 = i64 (i64 (d - m) + r) in if d1 < d then d1 else min_i64
           else if 2 * r < m then i64 (d - r)
                else let d1 = i64 (i64 (d + m) - r) in if d1 > d then d1 else max_i64)"

section \<open>Reading a time back\<close>

definition read2 :: "char \<Rightarrow> char \<Rightarrow> nat" where
  "read2 a b = digit_val a * 10 + digit_val b"

text \<open>The second a calendar date and time of day stand for.\<close>

definition seconds_at :: "nat \<Rightarrow> nat \<Rightarrow> nat \<Rightarrow> nat \<Rightarrow> nat \<Rightarrow> nat \<Rightarrow> nat" where
  "seconds_at y m d hh mm ss =
     (sum_list (map year_days [1970..<y]) + sum_list (take (m - 1) (months y)) + (d - 1)) * 86400 + hh * 3600 + mm * 60 + ss"

fun read_RFC3339 :: "string \<Rightarrow> nat option" where
  "read_RFC3339 [y1, y2, y3, y4, a, m1, m2, b, d1, d2, t, h1, h2, e, n1, n2, f, s1, s2, z] =
     (if [a, b, t, e, f, z] = ''--T::Z''
      then Some (seconds_at (read2 y1 y2 * 100 + read2 y3 y4) (read2 m1 m2) (read2 d1 d2) (read2 h1 h2) (read2 n1 n2) (read2 s1 s2))
      else None)"
| "read_RFC3339 _ = None"

lemma year_days_pos: "365 \<le> year_days y"
  by (simp add: year_days_def)

lemma civil_year_sum:
  "civil_year y d = (y', n) \<Longrightarrow> y \<le> y' \<and> n < year_days y' \<and> sum_list (map year_days [y..<y']) + n = d \<and> 365 * (y' - y) \<le> d"
proof (induction y d arbitrary: y' n rule: civil_year.induct)
  case (1 y d)
  show ?case
  proof (cases "d < year_days y")
    case True
    then show ?thesis using "1.prems" by (simp add: civil_year.simps [of y d])
  next
    case False
    then have "civil_year (Suc y) (d - year_days y) = (y', n)" using "1.prems" by (simp add: civil_year.simps [of y d])
    note ih = "1.IH" [OF False this]
    then have "[y..<y'] = y # [Suc y..<y']" by (intro upt_conv_Cons) simp
    then show ?thesis using ih False year_days_pos [of y] by auto
  qed
qed

lemma civil_month_sum:
  "civil_month ms i n = (j, d) \<Longrightarrow> n < sum_list ms \<Longrightarrow>
    i \<le> j \<and> j - i < length ms \<and> d < ms ! (j - i) \<and> sum_list (take (j - i) ms) + d = n"
proof (induction ms i n arbitrary: j d rule: civil_month.induct)
  case (2 m ms i n)
  show ?case
  proof (cases "n < m")
    case True
    then show ?thesis using 2 by auto
  next
    case False
    then have "Suc i \<le> j \<and> j - Suc i < length ms \<and> d < ms ! (j - Suc i) \<and> sum_list (take (j - Suc i) ms) + d = n - m"
      using 2 by auto
    moreover from this have "j - i = Suc (j - Suc i)" by linarith
    ultimately show ?thesis using False by auto
  qed
qed simp

lemma sum_months: "sum_list (months y) = year_days y" "length (months y) = 12"
  by (simp_all add: months_def year_days_def)

lemma months_bound: "i < 12 \<Longrightarrow> months y ! i \<le> 31"
  by (auto simp: months_def less_Suc_eq numeral_eq_Suc)

lemma read2_pad2: "n < 100 \<Longrightarrow> \<exists>a b. pad2 n = [a, b] \<and> read2 a b = n"
  by (simp add: pad2_def read2_def digit_val_def div_less_iff_less_mult)

lemma seconds_at_sum:
  assumes "sum_list (map year_days [1970..<y]) + sum_list (take m (months y)) + d = q" "hh * 3600 + mm * 60 + ss = r"
  shows "seconds_at y (m + 1) (d + 1) hh mm ss = q * 86400 + r"
  unfolding seconds_at_def assms(1) [symmetric] assms(2) [symmetric] by simp

lemma RFC3339_reads_back:
  assumes t: "0 \<le> t" "t < 2 * 9223372036854775808"
  shows "read_RFC3339 (RFC3339 t) = Some (nat (t div Second))"
proof -
  let ?q = "nat (t div Second)"
  obtain y n where y: "civil_year 1970 (?q div 86400) = (y, n)" by fastforce
  obtain m d where m: "civil_month (months y) 0 n = (m, d)" by fastforce
  note Y = civil_year_sum [OF y]
  have M: "m < 12 \<and> d < months y ! m \<and> sum_list (take m (months y)) + d = n"
    using civil_month_sum [OF m] Y by (simp add: sum_months)
  have "?q < 18446744074" using t by (simp add: Second_def nat_less_iff)
  then have "?q div 86400 < 213504" by (simp add: div_less_iff_less_mult)
  then have yb: "y < 10000" using Y by linarith
  have db: "d < 31" using M months_bound [of m y] by linarith
  let ?s = "?q mod 86400"
  have sb: "?s div 3600 < 100" "?s div 60 mod 60 < 100" "?s mod 60 < 100"
    by (simp_all add: div_less_iff_less_mult less_trans [OF mod_less_divisor])
  have yd: "y div 100 < 100" "y mod 100 < 100" using yb by (simp_all add: div_less_iff_less_mult)
  have md: "m + 1 < 100" "d + 1 < 100" using M db by simp_all
  obtain y1 y2 where p1: "pad2 (y div 100) = [y1, y2]" "read2 y1 y2 = y div 100" using read2_pad2 [OF yd(1)] by blast
  obtain y3 y4 where p2: "pad2 (y mod 100) = [y3, y4]" "read2 y3 y4 = y mod 100" using read2_pad2 [OF yd(2)] by blast
  obtain m1 m2 where p3: "pad2 (m + 1) = [m1, m2]" "read2 m1 m2 = m + 1" using read2_pad2 [OF md(1)] by blast
  obtain d1 d2 where p4: "pad2 (d + 1) = [d1, d2]" "read2 d1 d2 = d + 1" using read2_pad2 [OF md(2)] by blast
  obtain h1 h2 where p5: "pad2 (?s div 3600) = [h1, h2]" "read2 h1 h2 = ?s div 3600" using read2_pad2 [OF sb(1)] by blast
  obtain n1 n2 where p6: "pad2 (?s div 60 mod 60) = [n1, n2]" "read2 n1 n2 = ?s div 60 mod 60" using read2_pad2 [OF sb(2)] by blast
  obtain s1 s2 where p7: "pad2 (?s mod 60) = [s1, s2]" "read2 s1 s2 = ?s mod 60" using read2_pad2 [OF sb(3)] by blast
  note p = p1 p2 p3 p4 p5 p6 p7
  have "?s div 3600 * 3600 + ?s div 60 mod 60 * 60 + ?s mod 60 = ?s"
  proof -
    have "?s div 60 = ?s div 60 div 60 * 60 + ?s div 60 mod 60" by simp
    moreover have "?s div 60 div 60 = ?s div 3600" by (simp add: div_mult2_eq [symmetric])
    moreover have "?s = ?s div 60 * 60 + ?s mod 60" by (rule div_mult_mod_eq [symmetric])
    ultimately show ?thesis by linarith
  qed
  moreover have "sum_list (map year_days [1970..<y]) + sum_list (take m (months y)) + d = ?q div 86400" using Y M by linarith
  ultimately have "seconds_at y (m + 1) (d + 1) (?s div 3600) (?s div 60 mod 60) (?s mod 60) = ?q div 86400 * 86400 + ?s"
    by (intro seconds_at_sum)
  then have "seconds_at y (m + 1) (d + 1) (?s div 3600) (?s div 60 mod 60) (?s mod 60) = ?q"
    by (simp only: div_mult_mod_eq)
  then show ?thesis unfolding RFC3339_def Let_def y m prod.case p by (simp add: p)
qed

end
