(* ===== verification/Wire.thy ===== *)
theory Wire
  imports GoJson GoTime Listen "HOL-Library.Char_ord" "HOL-Library.List_Lexorder"
begin

text \<open>
  What goes over the wire (\<^verbatim>\<open>writeJSON\<close> and the struct tags in
  \<^verbatim>\<open>internal/server/client_server.go\<close>, \<^verbatim>\<open>admin_server.go\<close> and \<^verbatim>\<open>internal/store/store.go\<close>):
  the text of every response body and of the \<^verbatim>\<open>Retry-After\<close> header, and the decoding of the two
  request bodies of the admin API, where the arguments \<open>decode\<close> of the handlers become concrete.
\<close>

section \<open>Responses\<close>

definition jint :: "int64 \<Rightarrow> json" where
  "jint i = JNum (fmt_d i)"

definition sec_error_text :: "sec_error \<Rightarrow> string" where
  "sec_error_text e =
     (case e of
        ErrInvalidAPIKey \<Rightarrow> ''invalid api key: must match ^[a-zA-Z0-9_-]{1,128}$''
      | ErrInvalidTier \<Rightarrow> ''invalid tier name: must match ^[a-zA-Z0-9_-]{1,64}$''
      | MaxTokensRange n \<Rightarrow> ''max_tokens out of range [1, 1000000]: '' @ fmt_d n
      | RefillRateRange n \<Rightarrow> ''refill_rate out of range [0, 100000]: '' @ fmt_d n
      | RefillIntervalRange d \<Rightarrow> ''refill_interval out of range [10ms, 1h]: '' @ fmt_duration d)"

text \<open>A field with \<^verbatim>\<open>omitempty\<close>.\<close>

definition omitempty :: "bool \<Rightarrow> string \<Rightarrow> json \<Rightarrow> (string \<times> json) list" where
  "omitempty isZero k v = (if isZero then [] else [(k, v)])"

definition allow_json :: "allowResponse \<Rightarrow> json" where
  "allow_json a =
     JObj ([(''allowed'', JBool (respAllowed a)), (''remaining_tokens'', jint (respRemaining a))]
       @ omitempty (respRetryAfterMs a = 0) ''retry_after_ms'' (jint (respRetryAfterMs a))
       @ (case respResetAt a of None \<Rightarrow> [] | Some t \<Rightarrow> [(''reset_at'', JStr (RFC3339 t))]))"

definition snapshot_json :: "configSnapshot \<Rightarrow> json" where
  "snapshot_json c = JObj [(''max_tokens'', jint (snapMaxTokens c)), (''refill_rate'', jint (snapRefillRate c)),
     (''refill_interval_ms'', jint (snapRefillIntervalMs c))]"

definition tier_json :: "TierStatus \<Rightarrow> json" where
  "tier_json t = JObj [(''tokens_remaining'', jint (tsTokensRemaining t)), (''max_tokens'', jint (tsMaxTokens t)),
     (''refill_rate'', jint (tsRefillRate t)), (''refill_interval_ms'', jint (tsRefillIntervalMs t))]"

text \<open>A Go map is written with its keys in order.\<close>

definition map_json :: "('v \<Rightarrow> json) \<Rightarrow> (string, 'v) gomap \<Rightarrow> json" where
  "map_json f m = JObj (concat (map (\<lambda>k. case gm_lookup m k of Some v \<Rightarrow> [(k, f v)] | None \<Rightarrow> []) (sort (gm_keys m))))"

definition status_json :: "ClientStatus \<Rightarrow> json" where
  "status_json s = JObj [(''client_key'', JStr (csClientKey s)), (''blocked'', JBool (csBlocked s)),
     (''tiers'', map_json tier_json (csTiers s))]"

fun body_json :: "body \<Rightarrow> json option" where
  "body_json NoBody = None"
| "body_json (TextBody t) = None"
| "body_json (ErrorBody msg) = Some (JObj [(''error'', JStr msg)])"
| "body_json (AllowBody a) = Some (allow_json a)"
| "body_json (SnapshotBody c) = Some (snapshot_json c)"
| "body_json (StatusBody s) = Some (status_json s)"
| "body_json (ListBody ss) = Some (JArr (map status_json ss))"
| "body_json (InvalidConfigBody e) = Some (JObj [(''error'', JStr (sec_error_text e))])"
| "body_json (FairnessBody on m) = Some (JObj [(''consumption'', map_json jint m), (''enabled'', JBool on)])"

text \<open>\<^verbatim>\<open>writeJSON\<close>, and the plain text that \<^verbatim>\<open>http.Error\<close> writes; both end with a newline.\<close>

definition body_text :: "body \<Rightarrow> string" where
  "body_text b =
     (case body_json b of
        Some j \<Rightarrow> encode j @ [chr 10]
      | None \<Rightarrow> (case b of TextBody t \<Rightarrow> t @ [chr 10] | _ \<Rightarrow> []))"

definition headers :: "Response \<Rightarrow> (string \<times> string) list" where
  "headers r =
     (case retryAfterHeader r of None \<Rightarrow> [] | Some d \<Rightarrow> [(''Retry-After'', fmt_f3 (Seconds d))])
     @ (case body_json (respBody r) of Some j \<Rightarrow> [(''Content-Type'', ''application/json'')] | None \<Rightarrow> [])"

section \<open>Requests\<close>

text \<open>Field names are compared without regard to case; two runes outside ASCII fold into it.\<close>

definition fold_rune :: "nat \<Rightarrow> nat" where
  "fold_rune r = (if 97 \<le> r \<and> r \<le> 122 then r - 32 else if r = 383 then 83 else if r = 8490 then 75 else r)"

function fold_name :: "string \<Rightarrow> nat list" where
  "fold_name [] = []"
| "fold_name (c # s) = (case decode_rune (c # s) of (r, w) \<Rightarrow> fold_rune r # fold_name (drop w (c # s)))"
  by pat_completeness auto
termination
  by (relation "measure length") (auto dest!: rune_width [OF sym] simp: less_Suc_eq_le)

declare fold_name.simps [simp del]

definition names_field :: "string \<Rightarrow> string \<Rightarrow> bool" where
  "names_field k field \<longleftrightarrow> fold_name k = fold_name field"

text \<open>Values for a field of type string, int64, bool and pointer to int64; null leaves the first
  three as they are.\<close>

fun set_string :: "json \<Rightarrow> string \<Rightarrow> string option" where
  "set_string (JStr s) old = Some s"
| "set_string JNull old = Some old"
| "set_string _ old = None"

fun set_int :: "json \<Rightarrow> int64 \<Rightarrow> int64 option" where
  "set_int (JNum n) old = ParseInt n"
| "set_int JNull old = Some old"
| "set_int _ old = None"

fun set_bool :: "json \<Rightarrow> bool \<Rightarrow> bool option" where
  "set_bool (JBool b) old = Some b"
| "set_bool JNull old = Some old"
| "set_bool _ old = None"

fun set_int_ptr :: "json \<Rightarrow> int64 option option" where
  "set_int_ptr (JNum n) = map_option Some (ParseInt n)"
| "set_int_ptr JNull = Some None"
| "set_int_ptr _ = None"

text \<open>One member of the object; an unknown field is an error.\<close>

definition set_update :: "string \<times> json \<Rightarrow> updateConfigRequest \<Rightarrow> updateConfigRequest option" where
  "set_update = (\<lambda>(k, v) q.
     if names_field k ''tier'' then map_option (\<lambda>x. q\<lparr>ucTier := x\<rparr>) (set_string v (ucTier q))
     else if names_field k ''max_tokens'' then map_option (\<lambda>x. q\<lparr>ucMaxTokens := x\<rparr>) (set_int_ptr v)
     else if names_field k ''refill_rate'' then map_option (\<lambda>x. q\<lparr>ucRefillRate := x\<rparr>) (set_int_ptr v)
     else if names_field k ''refill_interval_ms'' then map_option (\<lambda>x. q\<lparr>ucRefillIntervalMs := x\<rparr>) (set_int_ptr v)
     else None)"

definition set_global :: "string \<times> json \<Rightarrow> globalConfigRequest \<Rightarrow> globalConfigRequest option" where
  "set_global = (\<lambda>(k, v) q.
     if names_field k ''enabled'' then map_option (\<lambda>x. q\<lparr>gcEnabled := x\<rparr>) (set_bool v (gcEnabled q))
     else if names_field k ''max_tokens'' then map_option (\<lambda>x. q\<lparr>gcMaxTokens := x\<rparr>) (set_int v (gcMaxTokens q))
     else if names_field k ''refill_rate'' then map_option (\<lambda>x. q\<lparr>gcRefillRate := x\<rparr>) (set_int v (gcRefillRate q))
     else if names_field k ''refill_interval_ms'' then map_option (\<lambda>x. q\<lparr>gcRefillIntervalMs := x\<rparr>) (set_int v (gcRefillIntervalMs q))
     else None)"

fun fill :: "(string \<times> json \<Rightarrow> 'a \<Rightarrow> 'a option) \<Rightarrow> (string \<times> json) list \<Rightarrow> 'a \<Rightarrow> 'a option" where
  "fill f [] q = Some q"
| "fill f (p # ps) q = Option.bind (f p q) (fill f ps)"

text \<open>\<^verbatim>\<open>Decode\<close> into a struct whose fields are zero.\<close>

definition decode_struct :: "(string \<times> json \<Rightarrow> 'a \<Rightarrow> 'a option) \<Rightarrow> 'a \<Rightarrow> string \<Rightarrow> 'a option" where
  "decode_struct f zero s =
     (case first_value s of
        Some (JObj ps, _) \<Rightarrow> fill f ps zero
      | Some (JNull, _) \<Rightarrow> Some zero
      | _ \<Rightarrow> None)"

definition decode_update :: "string \<Rightarrow> updateConfigRequest option" where
  "decode_update = decode_struct set_update \<lparr>ucTier = [], ucMaxTokens = None, ucRefillRate = None, ucRefillIntervalMs = None\<rparr>"

definition decode_global :: "string \<Rightarrow> globalConfigRequest option" where
  "decode_global = decode_struct set_global \<lparr>gcEnabled = False, gcMaxTokens = 0, gcRefillRate = 0, gcRefillIntervalMs = 0\<rparr>"

section \<open>Everything written can be read\<close>

lemma jint_ok [simp]: "json_ok (jint i)"
  by (auto simp: jint_def)

text \<open>Texts of the program are ASCII, but for the unit of microseconds.\<close>

abbreviation ascii :: "string \<Rightarrow> bool" where
  "ascii \<equiv> list_all (\<lambda>c. byte c < 128)"

lemma ascii_digits: "list_all digit ds \<Longrightarrow> ascii ds"
  by (auto simp: list_all_iff digit_def)

lemma ascii_fmt: "ascii (fmt_nat n)" "ascii (fmt_d i)" "ascii (frac_digits p v)" "ascii (fmt_frac p v)" "ascii (pad2 n)"
proof -
  show n: "ascii (fmt_nat n)" for n using fmt_nat_digits [of n] ascii_digits by blast
  show "ascii (fmt_d i)" using n by (simp add: fmt_d_def byte_def)
  show f: "ascii (frac_digits p v)" for v by (induction p arbitrary: v) simp_all
  show "ascii (fmt_frac p v)" using f [of v] by (auto simp: fmt_frac_def Let_def list_all_iff byte_def dest: set_dropWhileD)
  have "m mod 10 < 80" for m :: nat using mod_less_divisor [of 10 m] by linarith
  then show "ascii (pad2 n)" by (simp add: pad2_def)
qed

lemma ascii_RFC3339: "ascii (RFC3339 t)"
  by (simp add: RFC3339_def Let_def case_prod_beta ascii_fmt) (simp add: byte_def)

lemma utf8_ok_const: "ascii s \<Longrightarrow> utf8_ok s"
  by (rule utf8_ok_ascii)

lemma utf8_fmt_duration: "utf8_ok (fmt_duration d)"
proof -
  have micro: "utf8_ok (chr 194 # chr 181 # ''s'')"
    by (simp add: utf8_ok.simps decode_rune_def lead_def cont_def RuneError_def byte_def [of "CHR ''s''"])
  have s: "utf8_ok ''s''" "utf8_ok ''ns''" "utf8_ok ''ms''" "utf8_ok ''m''" "utf8_ok ''h''" "utf8_ok ''0s''" "utf8_ok ''-''" "utf8_ok []"
    by (rule utf8_ok_const, simp add: byte_def)+
  note n = utf8_ok_const [OF ascii_fmt(1)] utf8_ok_const [OF ascii_fmt(4)]
  have c: "utf8_ok (CHR ''h'' # x)" "utf8_ok (CHR ''m'' # x)" "utf8_ok (CHR ''-'' # x)" if "utf8_ok x" for x
    using utf8_ok_append [OF s(5) that] utf8_ok_append [OF s(4) that] utf8_ok_append [OF s(7) that] by simp_all
  have "utf8_ok (fmt_abs_duration u)" for u
    unfolding fmt_abs_duration_def Let_def by (auto intro!: utf8_ok_append c micro n s)
  then show ?thesis unfolding fmt_duration_def by (auto intro!: c)
qed

lemma utf8_sec_error: "utf8_ok (sec_error_text e)"
proof -
  note n = utf8_ok_const [OF ascii_fmt(2)]
  show ?thesis
    by (cases e; simp only: sec_error_text_def sec_error.case)
      (rule utf8_ok_append utf8_fmt_duration n | (rule utf8_ok_const, simp add: byte_def))+
qed

fun body_utf8 :: "body \<Rightarrow> bool" where
  "body_utf8 (ErrorBody msg) = utf8_ok msg"
| "body_utf8 (StatusBody s) = (utf8_ok (csClientKey s) \<and> list_all utf8_ok (gm_keys (csTiers s)))"
| "body_utf8 (ListBody ss) = list_all (\<lambda>s. utf8_ok (csClientKey s) \<and> list_all utf8_ok (gm_keys (csTiers s))) ss"
| "body_utf8 (FairnessBody on m) = list_all utf8_ok (gm_keys m)"
| "body_utf8 _ = True"

lemma map_json_ok: "(\<And>v. json_ok (f v)) \<Longrightarrow> list_all utf8_ok (gm_keys m) \<Longrightarrow> json_ok (map_json f m)"
  by (auto simp: map_json_def list_all_iff split: option.splits)

lemma utf8_names [simp]:
  "utf8_ok ''allowed''" "utf8_ok ''remaining_tokens''" "utf8_ok ''retry_after_ms''" "utf8_ok ''reset_at''" "utf8_ok ''error''"
  "utf8_ok ''max_tokens''" "utf8_ok ''refill_rate''" "utf8_ok ''refill_interval_ms''" "utf8_ok ''tokens_remaining''"
  "utf8_ok ''client_key''" "utf8_ok ''blocked''" "utf8_ok ''tiers''" "utf8_ok ''tier''" "utf8_ok ''enabled''" "utf8_ok ''consumption''"
  by (rule utf8_ok_const, simp add: byte_def)+

lemma tier_json_ok: "json_ok (tier_json t)"
  by (simp add: tier_json_def)

lemma status_json_ok: "utf8_ok (csClientKey s) \<Longrightarrow> list_all utf8_ok (gm_keys (csTiers s)) \<Longrightarrow> json_ok (status_json s)"
  by (simp add: status_json_def map_json_ok tier_json_ok)

lemma allow_json_ok: "json_ok (allow_json a)"
  by (simp add: allow_json_def omitempty_def utf8_ok_const [OF ascii_RFC3339] split: option.split)

lemma body_json_ok: "body_json b = Some j \<Longrightarrow> body_utf8 b \<Longrightarrow> json_ok j"
  by (cases b) (auto simp: allow_json_ok status_json_ok snapshot_json_def utf8_sec_error map_json_ok list_all_iff)

lemma body_reads_back:
  assumes "body_json b = Some j" "body_utf8 b"
  shows "first_value (body_text b) = Some (j, [chr 10])"
proof -
  have "num_end [chr 10]" by (simp add: num_end_def digit_def) (auto dest!: arg_cong [of _ _ byte] simp: byte_def [of "CHR ''.''"] byte_def [of "CHR ''e''"] byte_def [of "CHR ''E''"])
  then show ?thesis using first_value_encode(1) [OF body_json_ok [OF assms]] assms(1) by (simp add: body_text_def)
qed

section \<open>Requests reach the handlers\<close>

text \<open>A body as a client would write it, absent fields left out.\<close>

definition ptr_member :: "string \<Rightarrow> int64 option \<Rightarrow> (string \<times> json) list" where
  "ptr_member k v = (case v of Some i \<Rightarrow> [(k, jint i)] | None \<Rightarrow> [])"

definition update_json :: "updateConfigRequest \<Rightarrow> json" where
  "update_json q = JObj ([(''tier'', JStr (ucTier q))] @ ptr_member ''max_tokens'' (ucMaxTokens q)
     @ ptr_member ''refill_rate'' (ucRefillRate q) @ ptr_member ''refill_interval_ms'' (ucRefillIntervalMs q))"

definition global_json :: "globalConfigRequest \<Rightarrow> json" where
  "global_json q = JObj [(''enabled'', JBool (gcEnabled q)), (''max_tokens'', jint (gcMaxTokens q)),
     (''refill_rate'', jint (gcRefillRate q)), (''refill_interval_ms'', jint (gcRefillIntervalMs q))]"

definition update_typed :: "updateConfigRequest \<Rightarrow> bool" where
  "update_typed q \<longleftrightarrow> utf8_ok (ucTier q) \<and> (\<forall>i\<in>set_option (ucMaxTokens q) \<union> set_option (ucRefillRate q)
     \<union> set_option (ucRefillIntervalMs q). is_i64 i)"

definition global_typed :: "globalConfigRequest \<Rightarrow> bool" where
  "global_typed q \<longleftrightarrow> is_i64 (gcMaxTokens q) \<and> is_i64 (gcRefillRate q) \<and> is_i64 (gcRefillIntervalMs q)"

lemma fields_distinct:
  "names_field ''max_tokens'' ''tier'' = False" "names_field ''refill_rate'' ''tier'' = False"
  "names_field ''refill_interval_ms'' ''tier'' = False" "names_field ''refill_rate'' ''max_tokens'' = False"
  "names_field ''refill_interval_ms'' ''max_tokens'' = False" "names_field ''refill_interval_ms'' ''refill_rate'' = False"
  "names_field ''max_tokens'' ''enabled'' = False" "names_field ''refill_rate'' ''enabled'' = False"
  "names_field ''refill_interval_ms'' ''enabled'' = False"
  by code_simp+

lemma field_same [simp]: "names_field k k"
  by (simp add: names_field_def)

lemma set_jint: "is_i64 i \<Longrightarrow> set_int (jint i) old = Some i" "is_i64 i \<Longrightarrow> set_int_ptr (jint i) = Some (Some i)"
  by (simp_all add: jint_def ParseInt_fmt_d)

lemma decode_update_json:
  assumes "update_typed q"
  shows "decode_update (encode (update_json q) @ junk) = Some q"
proof -
  have "json_ok (update_json q)"
    using assms by (auto simp: update_json_def update_typed_def ptr_member_def split: option.split)
  then have "first_value (encode (update_json q) @ junk) = Some (update_json q, junk)"
    unfolding update_json_def by (rule first_value_encode(2))
  then show ?thesis using assms
    by (cases q; cases "ucMaxTokens q"; cases "ucRefillRate q"; cases "ucRefillIntervalMs q")
      (auto simp: decode_update_def decode_struct_def update_json_def ptr_member_def update_typed_def set_update_def
        set_jint fields_distinct)
qed

lemma decode_global_json:
  assumes "global_typed q"
  shows "decode_global (encode (global_json q) @ junk) = Some q"
proof -
  have "json_ok (global_json q)" by (simp add: global_json_def)
  then have "first_value (encode (global_json q) @ junk) = Some (global_json q, junk)"
    unfolding global_json_def by (rule first_value_encode(2))
  then show ?thesis using assms
    by (cases q) (simp add: decode_global_def decode_struct_def global_json_def global_typed_def set_global_def set_jint fields_distinct)
qed

end
