(* ===== verification/WireProps.thy ===== *)
theory WireProps
  imports Wire
begin

text \<open>
  What a client and an administrator see: properties of whole exchanges, from the text of the
  request to the text of the response.
\<close>

section \<open>Decisions on the wire\<close>

lemma newline_ends: "first_value (body_text (AllowBody a)) = Some (allow_json a, [chr 10])"
  by (rule body_reads_back) simp_all

lemma handleRequest_reply:
  assumes "well_formed cfg r" "store_Allow rng (nowTime clk) (svc_store svc) (the_request cfg clk r) = (st, result)"
  shows "snd (handleRequest cfg rng draw clk svc r) =
    (if Allowed result
     then reply 200 (AllowBody \<lparr>respAllowed = True, respRemaining = RemainingTokens result, respRetryAfterMs = 0, respResetAt = None\<rparr>)
     else \<lparr>status = 429,
       respBody = AllowBody \<lparr>respAllowed = False, respRemaining = 0, respRetryAfterMs = Milliseconds (RetryAfter result),
         respResetAt = Some (timeAdd (nowTime clk) (RetryAfter result))\<rparr>,
       retryAfterHeader = Some (RetryAfter result)\<rparr>)"
  using assms ValidateAPIKey_nonempty [of "caller cfg r"]
  by (auto simp: handleRequest_def well_formed_def caller_def the_request_def Let_def case_prod_beta not_less)

lemma whole_seconds:
  assumes "0 \<le> t" "t \<le> 2 * max_i64"
  shows "read_RFC3339 (RFC3339 t) = Some (nat (t div Second)) \<and> t div Second * Second \<le> t \<and> t < (t div Second + 1) * Second"
proof -
  have "t div Second * Second + t mod Second = t" "0 \<le> t mod Second" "t mod Second < Second"
    by (rule div_mult_mod_eq) (simp_all add: Second_def)
  then have "t div Second * Second \<le> t \<and> t < t div Second * Second + Second" by linarith
  then have "t div Second * Second \<le> t \<and> t < (t div Second + 1) * Second" by (simp add: distrib_right)
  then show ?thesis using RFC3339_reads_back [of t] assms by (simp add: max_i64_def)
qed

lemma whole_milliseconds:
  assumes "0 \<le> d" "d \<le> max_i64"
  shows "0 \<le> Milliseconds d \<and> Milliseconds d * 1000000 \<le> d \<and> d < (Milliseconds d + 1) * 1000000"
proof -
  have "d div 1000000 * 1000000 + d mod 1000000 = d" "0 \<le> d mod 1000000" "d mod 1000000 < 1000000"
    by (rule div_mult_mod_eq) simp_all
  then have "d div 1000000 * 1000000 \<le> d \<and> d < d div 1000000 * 1000000 + 1000000" by linarith
  moreover have "Milliseconds d = d div 1000000" unfolding Milliseconds_def by (rule go_div_nonneg) (use assms in \<open>simp_all add: max_i64_def\<close>)
  ultimately show ?thesis using assms by (simp add: distrib_right pos_imp_zdiv_nonneg_iff)
qed

text \<open>
  C26. What a client reads is what the store decided.  The answer to a well-formed request is one
  JSON object and a newline; reading it back gives the decision.  When the request was allowed
  it has the tokens that remain, and neither a wait nor a Retry-After header.  When it was
  rejected, retry_after_ms is the wait in whole milliseconds, rounded down and left out if it
  is zero, reset_at reads as the second in which the wait ends, and Retry-After is the wait in
  seconds with three decimals.
\<close>

theorem decision_on_the_wire:
  assumes "well_formed cfg r" "valid_time (nowTime clk)"
    "store_Allow rng (nowTime clk) (svc_store svc) (the_request cfg clk r) = (st, result)"
    "0 \<le> RetryAfter result" "RetryAfter result \<le> max_i64"
    "handleRequest cfg rng draw clk svc r = (svc', resp)"
  shows "\<exists>fields. first_value (body_text (respBody resp)) = Some (JObj fields, [chr 10])
    \<and> map_of fields ''allowed'' = Some (JBool (Allowed result))
    \<and> (Allowed result \<longrightarrow> map_of fields ''remaining_tokens'' = Some (jint (RemainingTokens result))
         \<and> map_of fields ''retry_after_ms'' = None \<and> map_of fields ''reset_at'' = None
         \<and> headers resp = [(''Content-Type'', ''application/json'')])
    \<and> (\<not> Allowed result \<longrightarrow> map_of fields ''remaining_tokens'' = Some (jint 0)
         \<and> (\<exists>ms. map_of fields ''retry_after_ms'' = (if ms = 0 then None else Some (jint ms))
              \<and> ms * 1000000 \<le> RetryAfter result \<and> RetryAfter result < (ms + 1) * 1000000)
         \<and> (\<exists>ts sec. map_of fields ''reset_at'' = Some (JStr ts) \<and> read_RFC3339 ts = Some sec
              \<and> int sec * Second \<le> nowTime clk + RetryAfter result
              \<and> nowTime clk + RetryAfter result < (int sec + 1) * Second)
         \<and> headers resp = [(''Retry-After'', fmt_f3 (Seconds (RetryAfter result))), (''Content-Type'', ''application/json'')])"
proof (cases "Allowed result")
  case True
  with handleRequest_reply [OF assms(1,3), of draw] assms(6) show ?thesis
    by (simp add: reply_def newline_ends headers_def) (simp add: allow_json_def omitempty_def)
next
  case False
  let ?t = "nowTime clk + RetryAfter result"
  have t: "0 \<le> ?t" "?t \<le> 2 * max_i64" using assms(2,4,5) by (auto simp: valid_time_def max_i64_def)
  then have "0 \<le> ?t div Second" by (simp add: Second_def pos_imp_zdiv_nonneg_iff)
  with whole_seconds [OF t] have S: "\<exists>sec. read_RFC3339 (RFC3339 ?t) = Some sec \<and> int sec * Second \<le> ?t \<and> ?t < (int sec + 1) * Second"
    by (intro exI [of _ "nat (?t div Second)"]) simp
  from False handleRequest_reply [OF assms(1,3), of draw] assms(6)
  have R: "resp = \<lparr>status = 429,
      respBody = AllowBody \<lparr>respAllowed = False, respRemaining = 0, respRetryAfterMs = Milliseconds (RetryAfter result), respResetAt = Some ?t\<rparr>,
      retryAfterHeader = Some (RetryAfter result)\<rparr>"
    by (simp add: timeAdd_def)
  show ?thesis
    using False S whole_milliseconds [OF assms(4,5)]
    by (simp add: R newline_ends headers_def)
      (auto simp: allow_json_def omitempty_def)
qed

definition blocked_service :: Service where
  "blocked_service = \<lparr>svc_store = full_store, svc_fairness = None, svc_audit = None, svc_metrics = None\<rparr>"

lemma blocked_decision:
  "store_Allow (\<lambda>ks. ks) 30 full_store \<lparr>ClientKey = ''bob'', SourceIP = ''bob'', Tier = [], Now = 30\<rparr>
     = (full_store, \<lparr>Allowed = False, RemainingTokens = 0, RetryAfter = Second, Reason = ''blocked''\<rparr>)"
proof -
  let ?cb = "BlockAll (Configure (mb_New ''bob'') DefaultTier example_cfg 20)"
  have "mb_IsBlocked ?cb" by (rule BlockAll_blocks [OF Configure_New_ok]) (simp_all add: valid_time_def)
  moreover have "globalBucket full_store = None" "\<not> ipLimitEnabled full_store"
    by (simp_all add: full_store_def fresh_store_def store_New_def AttachScheduler_def example_opts_def store_Block_def
        EnsureClient_def getOrCreateClient_def gm_len_def schedule_bucket_def schedule_id_def Let_def)
  ultimately show ?thesis
    by (simp add: store_Allow_def IsZero_def zeroTime_def global_gate_def ip_gate_def client_gate_def getOrCreateClient_def full_store_clients gm_lookup_def)
qed

theorem decision_on_the_wire_witness:
  "\<exists>fields. first_value (body_text (respBody (snd (handleRequest example_security (\<lambda>ks. ks) 0
       \<lparr>startTime = 30, nowTime = 30, endTime = 31\<rparr> blocked_service (request_from ''bob''))))) = Some (JObj fields, [chr 10])
     \<and> map_of fields ''allowed'' = Some (JBool False) \<and> map_of fields ''retry_after_ms'' = Some (jint 1000)"
proof -
  let ?clk = "\<lparr>startTime = 30, nowTime = 30, endTime = 31\<rparr>" and ?r = "request_from ''bob''"
  let ?h = "handleRequest example_security (\<lambda>ks. ks) 0 ?clk blocked_service ?r"
  have ip: "sourceIP ?r False = ''bob''" using SplitHostPort_plain [of "''bob''" "''99''"]
    by (simp add: sourceIP_def request_from_def Let_def)
  then have c: "caller example_security ?r = ''bob''"
    by (simp add: caller_def clientIdentity_def example_security_def)
  have t: "header_get ?r ''X-Resource-Tier'' = []" by (simp add: request_from_def header_get_def)
  have w: "well_formed example_security ?r"
    unfolding well_formed_def c t
    by (simp add: request_from_def ValidateAPIKey_def ValidateTier_def apiKeyPattern_def key_char_def byte_def Let_def)
  have s: "store_Allow (\<lambda>ks. ks) (nowTime ?clk) (svc_store blocked_service) (the_request example_security ?clk ?r)
      = (full_store, \<lparr>Allowed = False, RemainingTokens = 0, RetryAfter = Second, Reason = ''blocked''\<rparr>)"
    using blocked_decision by (simp add: blocked_service_def the_request_def c t) (simp add: ip example_security_def)
  have "ms = 1000" if "ms * 1000000 \<le> Second" "Second < (ms + 1) * 1000000" for ms :: int
    using that by (simp add: Second_def)
  moreover have "?h = (fst ?h, snd ?h)" by simp
  ultimately show ?thesis
    using decision_on_the_wire [OF w _ s, of 0 "fst ?h" "snd ?h"]
    by (fastforce simp: valid_time_def Second_def max_i64_def)
qed

section \<open>Administration over the wire\<close>

text \<open>
  A request that passes the authentication: no token is configured, or the right one is given.
\<close>

definition authorized :: "SecurityCfg \<Rightarrow> Request \<Rightarrow> bool" where
  "authorized cfg r \<longleftrightarrow> AdminTokenHash cfg = [] \<or> (\<exists>token. header_get r ''Authorization'' = ''Bearer '' @ token
     \<and> HashToken token (AdminTokenSalt cfg) = AdminTokenHash cfg)"

abbreviation path_of :: "string \<Rightarrow> string \<Rightarrow> string list" where
  "path_of key op \<equiv> [''admin'', ''v1'', ''clients'', key, op]"

lemma admin_serve_authorized:
  assumes "authorized cfg r"
  shows "admin_serve cfg du dg rng now m path svc r = admin_mux cfg du dg rng now m path svc r"
proof (cases "AdminTokenHash cfg = []")
  case False
  then obtain token where t: "header_get r ''Authorization'' = ''Bearer '' @ token" "HashToken token (AdminTokenSalt cfg) = AdminTokenHash cfg"
    using assms by (auto simp: authorized_def)
  show ?thesis
    unfolding admin_serve_def RecoverMiddleware_no_panic authMiddleware_def Let_def t(1) HasPrefix_append(2)
    by (simp add: t(2) ConstantTimeEqual_iff HasPrefix_append(1) del: append_Cons)
qed (simp add: admin_serve_def authMiddleware_def)

lemma admin_paths:
  assumes "key \<noteq> ''/''"
  shows "admin_mux cfg du dg rng now ''PUT'' (path_of key ''config'') svc r = handleUpdateConfig cfg du rng now svc (r\<lparr>PathKey := key\<rparr>)"
    "admin_mux cfg du dg rng now ''GET'' (path_of key ''status'') svc r = handleStatus rng svc (r\<lparr>PathKey := key\<rparr>)"
  using assms by (simp_all add: admin_mux_def serve_mux_def admin_routes_def method_ok_def client_path_def with_key_def)

lemma valid_names:
  "ValidateAPIKey key = None \<Longrightarrow> utf8_ok key \<and> key \<noteq> ''/''" "ValidateTier tier = None \<Longrightarrow> utf8_ok tier"
proof -
  have a: "list_all key_char s \<Longrightarrow> utf8_ok s" for s
    by (rule utf8_ok_ascii) (auto simp: list_all_iff key_char_def Let_def)
  have "\<not> key_char CHR ''/''" by (simp add: key_char_def byte_def)
  then show "ValidateAPIKey key = None \<Longrightarrow> utf8_ok key \<and> key \<noteq> ''/''"
    using a by (auto simp: ValidateAPIKey_def apiKeyPattern_def split: if_splits)
  show "ValidateTier tier = None \<Longrightarrow> utf8_ok tier"
    using a [of tier] a [of "[]"] by (auto simp: ValidateTier_def tierPattern_def split: if_splits)
qed

text \<open>A member of the object a Go map is written as.\<close>

lemma map_of_members:
  "map_of (concat (map (\<lambda>k. case gm_lookup m k of Some v \<Rightarrow> [(k, f v)] | None \<Rightarrow> []) ks)) t =
     (if t \<in> set ks then map_option f (gm_lookup m t) else None)"
  by (induction ks) (auto simp: map_add_def split: option.splits)

lemma map_json_lookup: "\<exists>ps. map_json f m = JObj ps \<and> map_of ps = map_option f \<circ> gm_lookup m"
  using gm_keys_lookup [of _ m] by (auto simp: map_json_def map_of_members fun_eq_iff split: option.splits)

lemma fold_tiers:
  "gm_lookup (fold (\<lambda>t m. case mb_Bucket cb t of Some b \<Rightarrow> gm_set t (tier_status b) m | None \<Rightarrow> m) ts m) t =
     (if t \<in> set ts \<and> mb_Bucket cb t \<noteq> None then map_option tier_status (mb_Bucket cb t) else gm_lookup m t)"
  by (induction ts arbitrary: m) (auto simp: gm_lookup_set split: option.splits)

lemma status_lookup:
  assumes "is_range rng"
  shows "gm_lookup (csTiers (buildStatus rng key cb)) t =
    (if t \<in> set (gm_keys (buckets cb)) then map_option tier_status (mb_Bucket cb t) else None)"
  by (simp add: buildStatus_def fold_tiers Tiers_def is_range_set [OF assms])

lemma status_names:
  assumes "is_range rng" "list_all utf8_ok (gm_keys (buckets cb))"
  shows "list_all utf8_ok (gm_keys (csTiers (buildStatus rng key cb)))"
  using assms(2) by (auto simp: list_all_iff gm_keys_lookup status_lookup [OF assms(1)] split: if_splits)

lemma updated_client:
  "gm_lookup (clients (UpdateClientConfig rng s key tier cfg now)) key =
     Some (Configure (fst (snd (getOrCreateClient rng s key now))) (tier_name tier) cfg now)"
  by (simp add: UpdateClientConfig_def EnsureClient_def Let_def case_prod_beta gm_lookup_set flip: tier_name_def)

text \<open>The tiers of a client have names in UTF-8; validated names are ASCII.\<close>

definition names_utf8 :: "BucketStore \<Rightarrow> string \<Rightarrow> bool" where
  "names_utf8 s key \<longleftrightarrow> (case gm_lookup (clients s) key of Some cb \<Rightarrow> list_all utf8_ok (gm_keys (buckets cb)) | None \<Rightarrow> True)"

lemma utf8_default: "utf8_ok DefaultTier"
  by (rule utf8_ok_ascii) (simp add: DefaultTier_def byte_def)

lemma updated_names:
  assumes "names_utf8 s key" "utf8_ok (tier_name tier)"
  shows "list_all utf8_ok (gm_keys (buckets (Configure (fst (snd (getOrCreateClient rng s key now))) (tier_name tier) cfg now)))"
  using assms utf8_default
  by (auto simp: names_utf8_def getOrCreateClient_def Configure_def mb_New_def Let_def list_all_iff gm_keys_set gm_keys_def [of "[]"] tier_name_def
      split: option.splits if_splits)

lemma status_reads_back:
  assumes "is_range rng" "utf8_ok key" "list_all utf8_ok (gm_keys (buckets cb))"
  obtains ps where "first_value (body_text (StatusBody (buildStatus rng key cb))) =
      Some (JObj [(''client_key'', JStr key), (''blocked'', JBool (mb_IsBlocked cb)), (''tiers'', JObj ps)], [chr 10])"
    "\<And>t. t \<in> set (gm_keys (buckets cb)) \<Longrightarrow> map_of ps t = map_option (tier_json \<circ> tier_status) (mb_Bucket cb t)"
proof -
  obtain ps where p: "map_json tier_json (csTiers (buildStatus rng key cb)) = JObj ps"
    "map_of ps = map_option tier_json \<circ> gm_lookup (csTiers (buildStatus rng key cb))"
    using map_json_lookup by blast
  have "csClientKey (buildStatus rng key cb) = key" "csBlocked (buildStatus rng key cb) = mb_IsBlocked cb"
    by (simp_all add: buildStatus_def)
  then have "body_json (StatusBody (buildStatus rng key cb)) =
      Some (JObj [(''client_key'', JStr key), (''blocked'', JBool (mb_IsBlocked cb)), (''tiers'', JObj ps)])"
    "body_utf8 (StatusBody (buildStatus rng key cb))"
    using assms p(1) status_names [OF assms(1,3)] by (simp_all add: status_json_def)
  from that [OF body_reads_back [OF this]] show thesis
    by (simp add: p(2) status_lookup [OF assms(1)] option.map_comp)
qed

text \<open>
  C27. A configuration sent over HTTP is the configuration in force.  An authorised PUT of a
  JSON body that names a valid tier and passes the checks is answered 200 with the merged
  configuration; the store has it, and a GET of the client's status, at any later moment before
  other requests, reads as a JSON object in which that tier has the new limits and a full bucket.
\<close>

theorem update_over_the_wire:
  assumes rng: "is_range rng"
    and names: "ValidateAPIKey key = None" "ValidateTier (ucTier q) = None" "names_utf8 (svc_store svc) key"
    and req: "update_typed q" "Body r = Some (encode (update_json q))" "length (encode (update_json q)) \<le> maxAdminBodyBytes"
      "authorized cfg r" "authorized cfg r'"
    and accepted: "after = merged q (TierConfig (svc_store svc) key (ucTier q))"
      "ValidateBucketConfig (MaxTokens after) (RefillRate after) (RefillInterval after) = None"
      "MinRefillInterval cfg \<le> RefillInterval after" "RefillInterval after \<le> MaxRefillInterval cfg"
    and put: "admin_serve cfg decode_update decode_global rng now ''PUT'' (path_of key ''config'') svc r = (svc', resp)"
    and get: "admin_serve cfg decode_update decode_global rng now' ''GET'' (path_of key ''status'') svc' r' = (svc'', resp')"
  shows "status resp = 200 \<and> first_value (body_text (respBody resp)) = Some (JObj
        [(''max_tokens'', jint (MaxTokens after)), (''refill_rate'', jint (RefillRate after)),
         (''refill_interval_ms'', jint (Milliseconds (RefillInterval after)))], [chr 10])
    \<and> TierConfig (svc_store svc') key (ucTier q) = after
    \<and> svc'' = svc' \<and> status resp' = 200
    \<and> (\<exists>fields tiers. first_value (body_text (respBody resp')) = Some (JObj fields, [chr 10])
         \<and> map_of fields ''client_key'' = Some (JStr key) \<and> map_of fields ''tiers'' = Some (JObj tiers)
         \<and> map_of tiers (tier_name (ucTier q)) = Some (JObj
             [(''tokens_remaining'', jint (MaxTokens after)), (''max_tokens'', jint (MaxTokens after)),
              (''refill_rate'', jint (RefillRate after)), (''refill_interval_ms'', jint (Milliseconds (RefillInterval after)))]))"
proof -
  let ?s = "UpdateClientConfig rng (svc_store svc) key (ucTier q) after now"
  let ?cb = "Configure (fst (snd (getOrCreateClient rng (svc_store svc) key now))) (tier_name (ucTier q)) after now"
  note valid = valid_names(1) [OF names(1)] valid_names(2) [OF names(2)]
  have body: "readAdminBody decode_update (r\<lparr>PathKey := key\<rparr>) = Some q"
    using req(3) decode_update_json [OF req(1), of "[]"] by (simp add: readAdminBody_def req(2))
  have put': "svc_store svc' = ?s" "resp = reply 200 (SnapshotBody (snapshot after))"
    using put names(1,2) accepted body admin_serve_authorized [OF req(4)] admin_paths(1) [of key] valid
    by (auto simp: handleUpdateConfig_def Let_def not_less)
  have t: "tier_name (ucTier q) \<noteq> []" "utf8_ok (tier_name (ucTier q))"
    using valid utf8_default by (auto simp: tier_name_def DefaultTier_def)
  have B: "mb_Bucket ?cb (tier_name (ucTier q)) = Some (bucket_New after now)" "tier_name (ucTier q) \<in> set (gm_keys (buckets ?cb))"
    by (simp_all add: mb_Bucket_def Configure_def gm_lookup_set gm_keys_set tier_name_def DefaultTier_def)
  have get': "svc'' = svc'" "resp' = reply 200 (StatusBody (buildStatus rng key ?cb))"
    using get updated_client [of rng "svc_store svc" key "ucTier q" after now]
      admin_serve_authorized [OF req(5)] admin_paths(2) [of key] valid
    by (auto simp: handleStatus_def store_Status_def put'(1))
  obtain ps where ps: "first_value (body_text (StatusBody (buildStatus rng key ?cb))) =
      Some (JObj [(''client_key'', JStr key), (''blocked'', JBool (mb_IsBlocked ?cb)), (''tiers'', JObj ps)], [chr 10])"
    "map_of ps (tier_name (ucTier q)) = map_option (tier_json \<circ> tier_status) (mb_Bucket ?cb (tier_name (ucTier q)))"
    using status_reads_back [OF rng _ updated_names [OF names(3) t(2)], of key] valid B(2) by metis
  have n: "normalize after = after" using merged_fields(2) accepted(1) by (simp add: normalize_def not_le)
  have "TierConfig (svc_store svc') key (ucTier q) = after"
    unfolding TierConfig_def tier_name_def [symmetric] Let_def put'(1) updated_client
    by (simp add: B(1) bucket_config_def) (simp add: bucket_New_def n Let_def)
  moreover have "tier_status (bucket_New after now) = \<lparr>tsTokensRemaining = MaxTokens after, tsMaxTokens = MaxTokens after,
      tsRefillRate = RefillRate after, tsRefillIntervalMs = Milliseconds (RefillInterval after)\<rparr>"
    by (simp add: tier_status_def bucket_New_def bucket_config_def TokensRemaining_def n Let_def)
  with ps B(1) have "map_of ps (tier_name (ucTier q)) = Some (tier_json \<lparr>tsTokensRemaining = MaxTokens after, tsMaxTokens = MaxTokens after,
      tsRefillRate = RefillRate after, tsRefillIntervalMs = Milliseconds (RefillInterval after)\<rparr>)" by simp
  moreover have "first_value (body_text (SnapshotBody (snapshot after))) = Some (snapshot_json (snapshot after), [chr 10])"
    by (rule body_reads_back) simp_all
  ultimately show ?thesis using ps(1) by (simp add: put'(2) get' reply_def snapshot_json_def snapshot_def tier_json_def)
qed

definition raise_limit :: updateConfigRequest where
  "raise_limit = \<lparr>ucTier = [], ucMaxTokens = Some 7, ucRefillRate = None, ucRefillIntervalMs = Some 20\<rparr>"

definition put_request :: Request where
  "put_request = \<lparr>Header = [], RemoteAddr = ''h:9'', ContentLength = 1, PathKey = [], Body = Some (encode (update_json raise_limit)),
     PeerCommonName = None\<rparr>"

lemma raise_limit_short: "length (encode (update_json raise_limit)) \<le> maxAdminBodyBytes"
  by code_simp

lemma raise_limit_accepted:
  "MaxTokens (merged raise_limit (TierConfig full_store ''bob'' [])) = 7"
  "RefillRate (merged raise_limit (TierConfig full_store ''bob'' [])) = 2"
  "RefillInterval (merged raise_limit (TierConfig full_store ''bob'' [])) = 20000000"
  by (simp_all add: merged_def raise_limit_def TierConfig_def full_store_clients gm_lookup_def BlockAll_def gm_map_def
      Configure_def mb_New_def gm_set_def mb_Bucket_def bucket_Block_def bucket_config_def bucket_New_def normalize_def
      example_cfg_def tier_name_def DefaultTier_def ms_duration_def Millisecond_def i64_def Let_def)

theorem update_over_the_wire_witness:
  "\<exists>svc' resp resp' fields tiers.
     admin_serve example_security decode_update decode_global (\<lambda>ks. ks) 40 ''PUT'' (path_of ''bob'' ''config'') blocked_service put_request
       = (svc', resp) \<and> status resp = 200
     \<and> admin_serve example_security decode_update decode_global (\<lambda>ks. ks) 50 ''GET'' (path_of ''bob'' ''status'') svc' put_request
       = (svc', resp')
     \<and> first_value (body_text (respBody resp')) = Some (JObj fields, [chr 10]) \<and> map_of fields ''tiers'' = Some (JObj tiers)
     \<and> map_of tiers ''default'' = Some (JObj [(''tokens_remaining'', jint 7), (''max_tokens'', jint 7), (''refill_rate'', jint 2),
         (''refill_interval_ms'', jint 20)])"
proof -
  let ?m = "merged raise_limit (TierConfig (svc_store blocked_service) ''bob'' (ucTier raise_limit))"
  have m: "MaxTokens ?m = 7" "RefillRate ?m = 2" "RefillInterval ?m = 20000000"
    using raise_limit_accepted by (simp_all add: blocked_service_def) (simp_all add: raise_limit_def)
  obtain svc' resp where p: "admin_serve example_security decode_update decode_global (\<lambda>ks. ks) 40 ''PUT''
      (path_of ''bob'' ''config'') blocked_service put_request = (svc', resp)" by fastforce
  obtain svc'' resp' where g: "admin_serve example_security decode_update decode_global (\<lambda>ks. ks) 50 ''GET''
      (path_of ''bob'' ''status'') svc' put_request = (svc'', resp')" by fastforce
  have "names_utf8 (svc_store blocked_service) ''bob''"
    using utf8_default by (simp add: names_utf8_def blocked_service_def full_store_clients gm_lookup_def BlockAll_def gm_map_def
        gm_keys_def Configure_def mb_New_def gm_set_def tier_name_def DefaultTier_def)
  moreover have "ValidateAPIKey ''bob'' = None" "ValidateTier (ucTier raise_limit) = None"
    by (simp_all add: ValidateAPIKey_def apiKeyPattern_def key_char_def byte_def ValidateTier_def raise_limit_def Let_def)
  moreover have "update_typed raise_limit" "Body put_request = Some (encode (update_json raise_limit))"
    "authorized example_security put_request"
    by (simp_all add: update_typed_def raise_limit_def is_i64_def put_request_def authorized_def example_security_def utf8_ok.simps)
  moreover have "ValidateBucketConfig (MaxTokens ?m) (RefillRate ?m) (RefillInterval ?m) = None"
    "MinRefillInterval example_security \<le> RefillInterval ?m" "RefillInterval ?m \<le> MaxRefillInterval example_security"
    unfolding m by (simp_all add: ValidateBucketConfig_def example_security_def Hour_def Millisecond_def)
  moreover have "tier_name (ucTier raise_limit) = ''default''" "Milliseconds 20000000 = 20"
    by (simp_all add: raise_limit_def tier_name_def DefaultTier_def Milliseconds_def go_div_nonneg)
  ultimately show ?thesis
    using update_over_the_wire [OF is_range_id _ _ _ _ _ raise_limit_short _ _ refl _ _ _ p g] p g unfolding m by auto
qed

section \<open>Bodies\<close>

text \<open>
  C28. The decoder of admin bodies inverts the encoder.  Every update and every global
  configuration whose numbers fit into 64 bits, written as JSON with absent fields left out,
  is decoded to itself, whatever follows the object in the body.
\<close>

theorem admin_body_round_trip:
  assumes "update_typed q" "global_typed g"
  shows "decode_update (encode (update_json q) @ rest) = Some q \<and> decode_global (encode (global_json g) @ rest) = Some g"
  using decode_update_json [OF assms(1)] decode_global_json [OF assms(2)] by blast

theorem admin_body_round_trip_witness:
  "decode_update (encode (update_json raise_limit) @ ''}'') = Some raise_limit"
  using admin_body_round_trip [of raise_limit "\<lparr>gcEnabled = True, gcMaxTokens = 1, gcRefillRate = 1, gcRefillIntervalMs = 10\<rparr>" "''}''"]
  by (simp add: update_typed_def global_typed_def raise_limit_def is_i64_def utf8_ok.simps)

text \<open>A body that must be rejected, given the fields of the request.\<close>

definition names_no_field :: "string list \<Rightarrow> string \<times> json \<Rightarrow> bool" where
  "names_no_field fs p \<longleftrightarrow> list_all (\<lambda>f. \<not> names_field (fst p) f) fs"

definition bad_body :: "string list \<Rightarrow> string option \<Rightarrow> bool" where
  "bad_body fs body \<longleftrightarrow> (case body of
     None \<Rightarrow> True
   | Some b \<Rightarrow> length b > maxAdminBodyBytes \<or>
       (case first_value b of
          None \<Rightarrow> True
        | Some (JObj ps, _) \<Rightarrow> list_ex (names_no_field fs) ps
        | Some (JNull, _) \<Rightarrow> False
        | Some _ \<Rightarrow> True))"

lemma fill_fails: "p \<in> set ps \<Longrightarrow> (\<And>q. f p q = None) \<Longrightarrow> fill f ps q = None"
  by (induction ps arbitrary: q) (auto simp: Option.bind_eq_None_conv split: Option.bind_splits)

lemma bad_body_None:
  assumes "bad_body fs (Body r)" "\<And>p q. names_no_field fs p \<Longrightarrow> f p q = None"
  shows "readAdminBody (decode_struct f zero) r = None"
  using assms
  by (auto simp: bad_body_def readAdminBody_def decode_struct_def list_ex_iff Let_def intro: fill_fails
      split: option.splits json.splits prod.splits)

text \<open>
  C29. Bodies that cannot be trusted change nothing.  A body that is absent, longer than 1024
  bytes, not JSON, neither an object nor null, or an object with a member that is no field of
  the request, is answered 400 by both handlers, and the service is unchanged.
\<close>

theorem bad_body_rejected:
  assumes "bad_body [''tier'', ''max_tokens'', ''refill_rate'', ''refill_interval_ms''] (Body r)"
    "bad_body [''enabled'', ''max_tokens'', ''refill_rate'', ''refill_interval_ms''] (Body r')"
  shows "(\<exists>resp. handleUpdateConfig cfg decode_update rng now svc r = (svc, resp) \<and> status resp = 400)
    \<and> handleGlobalConfig cfg decode_global now svc r' = (svc, writeError 400 ''invalid request body'')"
proof -
  have "readAdminBody decode_update r = None"
    unfolding decode_update_def by (rule bad_body_None [OF assms(1)]) (auto simp: names_no_field_def set_update_def)
  moreover have "readAdminBody decode_global r' = None"
    unfolding decode_global_def by (rule bad_body_None [OF assms(2)]) (auto simp: names_no_field_def set_global_def)
  ultimately show ?thesis by (simp add: handleUpdateConfig_def handleGlobalConfig_def writeError_def reply_def Let_def)
qed

definition typo_body :: string where
  "typo_body = ''{'' @ json_string ''max_token'' @ '':5}''"

lemma typo_bad:
  "bad_body [''tier'', ''max_tokens'', ''refill_rate'', ''refill_interval_ms''] (Some typo_body)"
  "bad_body [''enabled'', ''max_tokens'', ''refill_rate'', ''refill_interval_ms''] (Some typo_body)"
  by code_simp+

theorem bad_body_rejected_witness:
  "handleGlobalConfig example_security decode_global 40 blocked_service (put_request\<lparr>Body := Some typo_body\<rparr>)
     = (blocked_service, writeError 400 ''invalid request body'')"
  using bad_body_rejected [of "put_request\<lparr>Body := Some typo_body\<rparr>" "put_request\<lparr>Body := Some typo_body\<rparr>"] typo_bad
  by simp

text \<open>
  Three bodies that are not rejected although the decoder is strict: null, which is a request
  to switch the global limit off, names in other letter cases, and an object followed by
  anything, as above.
\<close>

lemma null_disables_global:
  "decode_global ''null'' = Some \<lparr>gcEnabled = False, gcMaxTokens = 0, gcRefillRate = 0, gcRefillIntervalMs = 0\<rparr>"
  by code_simp

lemma names_fold_case: "names_field ''Max_Tokens'' ''max_tokens''"
  by code_simp

end
