(* ===== verification/Simulator.thy ===== *)
theory Simulator
  imports GoFormat "HOL-Library.List_Lexorder" "HOL-Library.Char_ord"
begin

text \<open>
  The load simulator (\<^verbatim>\<open>cmd/simulator/main.go\<close>): the loop of a simulated client, the
  percentiles and the report.

  The outside world is the argument \<open>w\<close>: what the clock shows at each reading, what the
  context and the server answer, and what the random generator returns.  The client's loop
  runs as long as the clock lets it, so it is a partial function; the text of the report is
  in \<open>SimulatorMain\<close>.
\<close>

section \<open>Data\<close>

record ClientProfile =
  profAPIKey :: string
  RPS :: float64
  BurstSize :: int
  profDuration :: duration
  Jitter :: duration

record clientResult =
  resAPIKey :: string
  resAllowed :: int64
  resRejected :: int64
  resErrors :: int64
  Latencies :: "duration list"

datatype http_reply = BadRequest | TransportError | Status int

record world =
  now_at :: "nat \<Rightarrow> gotime"
  done_at :: "nat \<Rightarrow> bool"
  reply_at :: "nat \<Rightarrow> http_reply"
  rand_at :: "nat \<Rightarrow> int"

text \<open>The result under construction, and how much of the world has been used.\<close>

record sim =
  res :: clientResult
  clocks :: nat
  polls :: nat
  sent :: nat
  rands :: nat

section \<open>One client\<close>

definition read_clock :: "world \<Rightarrow> sim \<Rightarrow> gotime \<times> sim" where
  "read_clock w s = (now_at w (clocks s), s\<lparr>clocks := clocks s + 1\<rparr>)"

definition poll_done :: "world \<Rightarrow> sim \<Rightarrow> bool \<times> sim" where
  "poll_done w s = (done_at w (polls s), s\<lparr>polls := polls s + 1\<rparr>)"

definition add_error :: "sim \<Rightarrow> sim" where
  "add_error s = s\<lparr>res := (res s)\<lparr>resErrors := i64 (resErrors (res s) + 1)\<rparr>\<rparr>"

definition doRequest :: "world \<Rightarrow> sim \<Rightarrow> sim" where
  "doRequest w s0 =
     (let (start, s) = read_clock w s0; answer = reply_at w (sent s); s = s\<lparr>sent := sent s + 1\<rparr>
      in if answer = BadRequest then add_error s
         else let (finish, s) = read_clock w s;
                  s = s\<lparr>res := (res s)\<lparr>Latencies := Latencies (res s) @ [timeSub finish start]\<rparr>\<rparr>
              in case answer of
                   Status code \<Rightarrow>
                     if code = 200 then s\<lparr>res := (res s)\<lparr>resAllowed := i64 (resAllowed (res s) + 1)\<rparr>\<rparr>
                     else s\<lparr>res := (res s)\<lparr>resRejected := i64 (resRejected (res s) + 1)\<rparr>\<rparr>
                 | _ \<Rightarrow> add_error s)"

text \<open>The initial burst; the flag says that the context was done.\<close>

fun burst :: "world \<Rightarrow> nat \<Rightarrow> sim \<Rightarrow> bool \<times> sim" where
  "burst w 0 s = (False, s)"
| "burst w (Suc n) s = (let (stop, s1) = poll_done w s in if stop then (True, s1) else burst w n (doRequest w s1))"

text \<open>Conversion of a floating-point number to \<^verbatim>\<open>int64\<close>: towards zero; what the conversion of
  a number out of range gives is up to the machine, here the smallest integer as on amd64.\<close>

definition float_to_i64 :: "float64 \<Rightarrow> int64" where
  "float_to_i64 x = (let t = (if x < 0 then \<lceil>x\<rceil> else \<lfloor>x\<rfloor>) in if is_i64 t then t else min_i64)"

definition request_interval :: "ClientProfile \<Rightarrow> duration" where
  "request_interval p = (if RPS p > 0 then float_to_i64 (fdiv (float_of Second) (RPS p)) else Second)"

text \<open>How long to sleep; \<^verbatim>\<open>rand.Int63n\<close> panics on a bound that is not positive.\<close>

definition sleep_time :: "world \<Rightarrow> ClientProfile \<Rightarrow> duration \<Rightarrow> sim \<Rightarrow> (duration \<times> sim) go" where
  "sleep_time w p interval s =
     (if Jitter p > 0 then
        let bound = i64 (i64 (Jitter p * 2) + 1) in
        if bound \<le> 0 then Panic
        else let delta = i64 (rand_at w (rands s) mod bound - Jitter p); sleep = i64 (interval + delta)
             in Ret (if sleep < 0 then 0 else sleep, s\<lparr>rands := rands s + 1\<rparr>)
      else Ret (interval, s))"

partial_function (option) steady :: "world \<Rightarrow> ClientProfile \<Rightarrow> duration \<Rightarrow> gotime \<Rightarrow> sim \<Rightarrow> sim go option" where
  "steady w p interval deadline s =
     (let (t, s1) = read_clock w s in
      if \<not> Before t deadline then Some (Ret s1)
      else let (stop, s2) = poll_done w s1 in
           if stop then Some (Ret s2)
           else case sleep_time w p interval (doRequest w s2) of
                  Panic \<Rightarrow> Some Panic
                | Ret (_, s3) \<Rightarrow> steady w p interval deadline s3)"

definition start_sim :: "ClientProfile \<Rightarrow> sim" where
  "start_sim p = \<lparr>res = \<lparr>resAPIKey = profAPIKey p, resAllowed = 0, resRejected = 0, resErrors = 0, Latencies = []\<rparr>,
     clocks = 0, polls = 0, sent = 0, rands = 0\<rparr>"

definition runClient :: "world \<Rightarrow> ClientProfile \<Rightarrow> sim go option" where
  "runClient w p =
     (let (stop, s1) = burst w (nat (BurstSize p)) (start_sim p) in
      if stop then Some (Ret s1)
      else let (t, s2) = read_clock w s1
           in steady w p (request_interval p) (timeAdd t (profDuration p)) s2)"

section \<open>The report\<close>

definition percentile :: "duration list \<Rightarrow> float64 \<Rightarrow> duration" where
  "percentile xs p =
     (if xs = [] then 0
      else let idx = float_to_i64 (rnd (p * float_of (int (length xs) - 1)));
               idx = (if idx < 0 then 0 else idx);
               idx = (if idx \<ge> int (length xs) then int (length xs) - 1 else idx)
           in xs ! nat idx)"

record report_row =
  rowKey :: string
  rowAllowed :: int64
  rowRejected :: int64
  rowErrors :: int64
  rowP50 :: duration
  rowP99 :: duration

record report =
  rows :: "report_row list"
  totalAllowed :: int64
  totalRejected :: int64
  totalErrors :: int64
  totalRequests :: int64
  allP50 :: duration
  allP99 :: duration
  exitCode :: int

definition p99 :: float64 where
  "p99 = rnd (99 / 100)"

definition report_row_of :: "clientResult \<Rightarrow> report_row" where
  "report_row_of r = (let sorted = sort (Latencies r) in
     \<lparr>rowKey = resAPIKey r, rowAllowed = resAllowed r, rowRejected = resRejected r, rowErrors = resErrors r,
      rowP50 = percentile sorted (1 / 2), rowP99 = percentile sorted p99\<rparr>)"

definition sum_i64 :: "int list \<Rightarrow> int64" where
  "sum_i64 xs = fold (\<lambda>x acc. i64 (acc + x)) xs 0"

definition printReport :: "clientResult list \<Rightarrow> report" where
  "printReport results =
     (let a = sum_i64 (map resAllowed results); r = sum_i64 (map resRejected results);
          e = sum_i64 (map resErrors results); all = sort (concat (map Latencies results))
      in \<lparr>rows = map report_row_of results, totalAllowed = a, totalRejected = r, totalErrors = e,
          totalRequests = i64 (i64 (a + r) + e), allP50 = percentile all (1 / 2), allP99 = percentile all p99,
          exitCode = (if e > 0 then 1 else 0)\<rparr>)"

text \<open>The profiles, and the report on the results in the order they arrive on the channel.\<close>

definition pad3 :: "string \<Rightarrow> string" where
  "pad3 ds = zeros (3 - length ds) @ ds"

definition profile_key :: "string \<Rightarrow> nat \<Rightarrow> string" where
  "profile_key prefix i = prefix @ ''-'' @ pad3 (fmt_nat i)"

definition final_report :: "clientResult list \<Rightarrow> report" where
  "final_report arrived = printReport (sort_key resAPIKey arrived)"

section \<open>A client ends and accounts for every request\<close>

definition accounted :: "sim \<Rightarrow> bool" where
  "accounted s \<longleftrightarrow> (int (sent s) \<le> max_i64 \<longrightarrow>
     0 \<le> resAllowed (res s) \<and> 0 \<le> resRejected (res s) \<and> 0 \<le> resErrors (res s)
     \<and> resAllowed (res s) + resRejected (res s) + resErrors (res s) = int (sent s)
     \<and> length (Latencies (res s)) \<le> sent s)"

lemma accounted_start: "accounted (start_sim p)"
  by (simp add: accounted_def start_sim_def)

lemma accounted_simps [simp]:
  "accounted (s\<lparr>clocks := n\<rparr>) = accounted s" "accounted (s\<lparr>polls := n\<rparr>) = accounted s" "accounted (s\<lparr>rands := n\<rparr>) = accounted s"
  by (simp_all add: accounted_def)

lemma doRequest_steps:
  "sent (doRequest w s) = sent s + 1 \<and> clocks s < clocks (doRequest w s) \<and> polls (doRequest w s) = polls s
   \<and> resAPIKey (res (doRequest w s)) = resAPIKey (res s)"
  by (simp add: doRequest_def read_clock_def add_error_def Let_def split: http_reply.split)

lemma i64_count: "int n + 1 \<le> max_i64 \<Longrightarrow> 0 \<le> x \<Longrightarrow> x \<le> int n \<Longrightarrow> i64 (x + 1) = x + 1"
  unfolding max_i64_def by (intro i64_id is_i64I) simp_all

lemma accounted_doRequest:
  assumes "accounted s"
  shows "accounted (doRequest w s)"
proof (cases "int (sent s) + 1 \<le> max_i64")
  case True
  then have a: "0 \<le> resAllowed (res s)" "0 \<le> resRejected (res s)" "0 \<le> resErrors (res s)"
    "resAllowed (res s) + resRejected (res s) + resErrors (res s) = int (sent s)" "length (Latencies (res s)) \<le> sent s"
    using assms by (simp_all add: accounted_def)
  then have i: "i64 (resAllowed (res s) + 1) = resAllowed (res s) + 1" "i64 (resRejected (res s) + 1) = resRejected (res s) + 1"
    "i64 (resErrors (res s) + 1) = resErrors (res s) + 1"
    using i64_count [OF True] by simp_all
  show ?thesis
    using a i by (simp add: accounted_def doRequest_def read_clock_def add_error_def Let_def split: http_reply.split)
next
  case False
  then show ?thesis using doRequest_steps [of w s] by (simp add: accounted_def)
qed

lemma burst_ends:
  assumes "accounted s" "burst w n s = (stop, s')"
  shows "accounted s' \<and> (stop \<longrightarrow> (\<exists>k. done_at w k)) \<and> (\<not> stop \<longrightarrow> sent s' = sent s + n)
    \<and> resAPIKey (res s') = resAPIKey (res s)"
  using assms
proof (induction n arbitrary: s)
  case (Suc n)
  then show ?case
  proof (cases "done_at w (polls s)")
    case False
    then have "burst w n (doRequest w (s\<lparr>polls := polls s + 1\<rparr>)) = (stop, s')"
      using Suc.prems(2) by (simp add: poll_done_def)
    from Suc.IH [OF accounted_doRequest this] show ?thesis
      using Suc.prems(1) doRequest_steps [of w "s\<lparr>polls := polls s + 1\<rparr>"] by simp
  qed (auto simp: poll_done_def)
qed simp

lemma sleep_time_ok:
  assumes "Jitter p < 4611686018427387904"
  shows "\<exists>d s'. sleep_time w p interval s = Ret (d, s') \<and> (s' = s \<or> s' = s\<lparr>rands := rands s + 1\<rparr>)"
proof (cases "Jitter p > 0")
  case True
  then have "i64 (i64 (Jitter p * 2) + 1) = Jitter p * 2 + 1"
    using assms by (simp add: i64_id is_i64_def)
  with True show ?thesis by (simp add: sleep_time_def Let_def)
qed (simp add: sleep_time_def)

lemma steady_ends:
  assumes "accounted s" "Jitter p < 4611686018427387904" "\<forall>n\<ge>N. deadline \<le> now_at w n"
  shows "\<exists>s'. steady w p interval deadline s = Some (Ret s') \<and> accounted s' \<and> sent s \<le> sent s'
    \<and> resAPIKey (res s') = resAPIKey (res s)"
  using assms(1)
proof (induction "N - clocks s" arbitrary: s rule: less_induct)
  case less
  let ?s1 = "s\<lparr>clocks := clocks s + 1\<rparr>" and ?s2 = "s\<lparr>clocks := clocks s + 1, polls := polls s + 1\<rparr>"
  show ?case
  proof (cases "Before (now_at w (clocks s)) deadline \<and> \<not> done_at w (polls s)")
    case True
    then have "\<not> N \<le> clocks s" using assms(3) by (auto simp: Before_def)
    then have "clocks s < N" by simp
    obtain d s3 where s3: "sleep_time w p interval (doRequest w ?s2) = Ret (d, s3)"
      "s3 = doRequest w ?s2 \<or> s3 = (doRequest w ?s2)\<lparr>rands := rands (doRequest w ?s2) + 1\<rparr>"
      using sleep_time_ok [OF assms(2)] by blast
    have step: "steady w p interval deadline s = steady w p interval deadline s3"
      by (subst steady.simps) (use True s3(1) in \<open>simp add: read_clock_def poll_done_def\<close>)
    have "accounted s3" "sent s3 = sent s + 1" "clocks s < clocks s3" "resAPIKey (res s3) = resAPIKey (res s)"
      using s3(2) less.prems accounted_doRequest [of ?s2 w] doRequest_steps [of w ?s2] by (auto simp: accounted_def)
    moreover from this(3) have "N - clocks s3 < N - clocks s" using \<open>clocks s < N\<close> by simp
    ultimately show ?thesis using less.hyps [of s3] step by force
  next
    case False
    then show ?thesis
      by (subst steady.simps) (use less.prems in \<open>auto simp: read_clock_def poll_done_def Let_def\<close>)
  qed
qed

lemma runClient_ends:
  assumes "\<forall>t. \<exists>N. \<forall>n\<ge>N. t \<le> now_at w n" "Jitter p < 4611686018427387904"
  shows "\<exists>s. runClient w p = Some (Ret s) \<and> accounted s \<and> resAPIKey (res s) = profAPIKey p
    \<and> ((\<forall>k. \<not> done_at w k) \<longrightarrow> nat (BurstSize p) \<le> sent s)"
proof -
  obtain stop s1 where b: "burst w (nat (BurstSize p)) (start_sim p) = (stop, s1)" by fastforce
  note B = burst_ends [OF accounted_start b]
  have k: "resAPIKey (res s1) = profAPIKey p" using B by (simp add: start_sim_def)
  show ?thesis
  proof (cases stop)
    case True
    with b B k show ?thesis by (auto simp: runClient_def)
  next
    case False
    let ?s2 = "s1\<lparr>clocks := clocks s1 + 1\<rparr>" and ?d = "timeAdd (now_at w (clocks s1)) (profDuration p)"
    obtain N where "\<forall>n\<ge>N. ?d \<le> now_at w n" using assms(1) by blast
    then obtain s' where s': "steady w p (request_interval p) ?d ?s2 = Some (Ret s')" "accounted s'" "sent ?s2 \<le> sent s'"
      "resAPIKey (res s') = resAPIKey (res ?s2)"
      using steady_ends [of ?s2, OF _ assms(2)] B by force
    then have "runClient w p = Some (Ret s')" using b False by (simp add: runClient_def read_clock_def)
    moreover have "sent s1 = nat (BurstSize p)" using B False by (simp add: start_sim_def)
    ultimately show ?thesis using s' k by auto
  qed
qed

text \<open>
  A simulated client always finishes.  Whatever the server answers and however the jitter
  falls, if the clock eventually passes every point in time (and the jitter is below 146
  years), the client's loop ends without panicking; it has sent its whole burst unless the
  context was cancelled, and every request it sent is counted exactly once, as allowed,
  rejected or failed.
\<close>

theorem simulated_client_terminates:
  assumes "\<forall>t. \<exists>N. \<forall>n\<ge>N. t \<le> now_at w n" "Jitter p < 4611686018427387904"
  shows "\<exists>s. runClient w p = Some (Ret s)
    \<and> ((\<forall>k. \<not> done_at w k) \<longrightarrow> nat (BurstSize p) \<le> sent s)
    \<and> (int (sent s) \<le> max_i64 \<longrightarrow>
         resAllowed (res s) + resRejected (res s) + resErrors (res s) = int (sent s)
         \<and> length (Latencies (res s)) \<le> sent s)"
  using runClient_ends [OF assms] by (auto simp: accounted_def)

definition ticking_world :: world where
  "ticking_world = \<lparr>now_at = int, done_at = (\<lambda>_. False), reply_at = (\<lambda>n. if n = 0 then Status 200 else Status 429),
     rand_at = (\<lambda>_. 0)\<rparr>"

definition burst_profile :: ClientProfile where
  "burst_profile = \<lparr>profAPIKey = ''sim-client-000'', RPS = 10, BurstSize = 3, profDuration = 100, Jitter = 0\<rparr>"

theorem simulated_client_terminates_witness:
  "\<exists>s. runClient ticking_world burst_profile = Some (Ret s) \<and> 3 \<le> sent s"
proof -
  have "\<forall>t. \<exists>N. \<forall>n\<ge>N. t \<le> now_at ticking_world n"
  proof
    fix t :: gotime
    have "t \<le> now_at ticking_world n" if "n \<ge> nat t" for n using that by (simp add: ticking_world_def)
    then show "\<exists>N. \<forall>n\<ge>N. t \<le> now_at ticking_world n" by blast
  qed
  from simulated_client_terminates [OF this, of burst_profile]
  show ?thesis by (auto simp: burst_profile_def ticking_world_def)
qed

section \<open>Percentiles and the report\<close>

definition rank_of :: "nat \<Rightarrow> float64 \<Rightarrow> int" where
  "rank_of n p = float_to_i64 (rnd (p * float_of (int n - 1)))"

lemma percentile_rank:
  assumes "xs \<noteq> []"
  shows "percentile xs p = xs ! nat (min (max 0 (rank_of (length xs) p)) (int (length xs) - 1))"
  using assms by (auto simp: percentile_def rank_of_def Let_def min_def max_def not_le intro!: arg_cong [of _ _ "(!) xs"])

text \<open>A percentile is one of the observed latencies, and at least as many of them as its rank
  says are no larger.\<close>

lemma percentile_member:
  assumes "xs \<noteq> []"
  shows "percentile xs p \<in> set xs"
  using assms by (simp add: percentile_rank nat_less_iff min_less_iff_disj)

lemma rank_of_range:
  assumes "0 \<le> p" "p \<le> 1" "0 < n" "int n \<le> 2 ^ 53"
  shows "0 \<le> rank_of n p \<and> rank_of n p = \<lfloor>rnd (p * of_int (int n - 1))\<rfloor> \<and> rank_of n p \<le> int n - 1"
proof -
  have f: "float_of (int n - 1) = of_int (int n - 1)" using assms(3,4) by (intro float_of_exact) simp_all
  have nn: "0 \<le> (of_int (int n - 1) :: rat)" using assms(3) by simp
  have "0 \<le> rnd (p * of_int (int n - 1))" using assms(1) nn by (intro rnd_nonneg) simp
  moreover have "rnd (p * of_int (int n - 1)) \<le> rnd (of_int (int n - 1))"
    using mult_right_mono [OF assms(2) nn] by (intro rnd_mono) simp
  moreover have "rnd (of_int (int n - 1)) = of_int (int n - 1)" using f by (simp add: float_of_def)
  ultimately have b: "0 \<le> rnd (p * of_int (int n - 1))" "rnd (p * of_int (int n - 1)) \<le> of_int (int n - 1)"
    by linarith+
  have fl: "0 \<le> \<lfloor>rnd (p * of_int (int n - 1))\<rfloor>" "\<lfloor>rnd (p * of_int (int n - 1))\<rfloor> \<le> int n - 1"
    using b(1) floor_mono [OF b(2)] by (simp_all only: zero_le_floor floor_of_int)
  have "is_i64 z" if "0 \<le> z" "z \<le> int n - 1" for z using that assms(4) by (simp add: is_i64_def)
  from this [OF fl] b(1) have "rank_of n p = \<lfloor>rnd (p * of_int (int n - 1))\<rfloor>" unfolding rank_of_def float_to_i64_def f by simp
  with fl show ?thesis by simp
qed

lemma percentile_mono:
  assumes "sorted xs" "0 \<le> p" "p \<le> q" "q \<le> 1" "int (length xs) \<le> 2 ^ 53"
  shows "percentile xs p \<le> percentile xs q"
proof (cases "xs = []")
  case False
  then have n: "0 < length xs" by simp
  have r: "0 \<le> rank_of (length xs) p" "rank_of (length xs) q \<le> int (length xs) - 1"
    "rank_of (length xs) p \<le> rank_of (length xs) q"
  proof -
    have "p * of_int (int (length xs) - 1) \<le> q * of_int (int (length xs) - 1)"
      using assms(3) n by (intro mult_right_mono) (simp_all add: Suc_le_eq)
    then have "\<lfloor>rnd (p * of_int (int (length xs) - 1))\<rfloor> \<le> \<lfloor>rnd (q * of_int (int (length xs) - 1))\<rfloor>"
      by (intro floor_mono rnd_mono)
    then show "0 \<le> rank_of (length xs) p" "rank_of (length xs) q \<le> int (length xs) - 1"
      "rank_of (length xs) p \<le> rank_of (length xs) q"
      using rank_of_range [OF _ _ n assms(5), of p] rank_of_range [OF _ _ n assms(5), of q] assms(2-4)
      by (metis order_trans)+
  qed
  then have "percentile xs p = xs ! nat (rank_of (length xs) p)" "percentile xs q = xs ! nat (rank_of (length xs) q)"
    using percentile_rank [OF False] by (simp_all add: min_def max_def)
  moreover have "nat (rank_of (length xs) p) \<le> nat (rank_of (length xs) q)" "nat (rank_of (length xs) q) < length xs"
    using r n by linarith+
  ultimately show ?thesis using sorted_nth_mono [OF assms(1)] by simp
qed (simp add: percentile_def)

text \<open>The report does not depend on which client finished first.\<close>

lemma final_report_order:
  assumes "mset rs = mset rs'" "distinct (map resAPIKey rs)"
  shows "final_report rs = final_report rs'"
proof -
  have eq: "set rs = set rs'" and d: "distinct (map resAPIKey rs')"
    using assms by (metis set_mset_mset, metis mset_map mset_eq_imp_distinct_iff)
  have sd: "distinct (map resAPIKey (sort_key resAPIKey xs))" if "distinct (map resAPIKey xs)" for xs
    using that by (simp add: distinct_map)
  have "sort_key resAPIKey rs = sort_key resAPIKey rs'"
    using assms(2) d eq sd by (intro map_sorted_distinct_set_unique [where f = resAPIKey]) (auto simp: distinct_map)
  then show ?thesis by (simp add: final_report_def)
qed

end
