(* ===== verification/SimulatorMain.thy ===== *)
theory SimulatorMain
  imports Simulator GoJson GoTime
begin

text \<open>
  \<^verbatim>\<open>main\<close> of the load simulator (\<^verbatim>\<open>cmd/simulator/main.go\<close>): the flags, one goroutine per
  profile, the collection of the results and the text that is printed.

  The clients share nothing but the channel of results, which has room for all of them, so
  each runs in a world of its own; \<open>arrive\<close> is the order in which the results come out of the
  channel.  A client that panics ends the process.
\<close>

section \<open>Flags and profiles\<close>

record flags =
  serverURL :: string
  numClients :: int
  flagRPS :: float64
  flagBurst :: int
  flagDuration :: duration
  flagJitter :: duration
  insecure :: bool
  keyPrefix :: string

definition default_flags :: flags where
  "default_flags = \<lparr>serverURL = ''https://localhost:8080'', numClients = 10, flagRPS = 10, flagBurst = 0,
     flagDuration = 10 * Second, flagJitter = 0, insecure = True, keyPrefix = ''sim-client''\<rparr>"

definition profile_of :: "flags \<Rightarrow> nat \<Rightarrow> ClientProfile" where
  "profile_of f i = \<lparr>profAPIKey = profile_key (keyPrefix f) i, RPS = flagRPS f, BurstSize = flagBurst f,
     profDuration = flagDuration f, Jitter = flagJitter f\<rparr>"

text \<open>\<^verbatim>\<open>make\<close> panics on a negative length.\<close>

definition profiles :: "flags \<Rightarrow> ClientProfile list go" where
  "profiles f = (if numClients f < 0 then Panic else Ret (map (profile_of f) [0..<nat (numClients f)]))"

section \<open>Output\<close>

text \<open>Padding counts runes.\<close>

function rune_count :: "string \<Rightarrow> nat" where
  "rune_count [] = 0"
| "rune_count (c # s) = (case decode_rune (c # s) of (r, w) \<Rightarrow> Suc (rune_count (drop w (c # s))))"
  by pat_completeness auto
termination
  by (relation "measure length") (auto dest!: rune_width [OF sym] simp: less_Suc_eq_le)

declare rune_count.simps [simp del]

definition pad_left :: "nat \<Rightarrow> string \<Rightarrow> string" where
  "pad_left n s = replicate (n - rune_count s) CHR '' '' @ s"

definition pad_right :: "nat \<Rightarrow> string \<Rightarrow> string" where
  "pad_right n s = s @ replicate (n - rune_count s) CHR '' ''"

abbreviation nl :: string where
  "nl \<equiv> [chr 10]"

definition banner :: "flags \<Rightarrow> string" where
  "banner f = ''Simulating '' @ fmt_d (numClients f) @ '' clients @ '' @ fmt_fixed 1 (flagRPS f) @ '' rps each (burst=''
     @ fmt_d (flagBurst f) @ '', duration='' @ fmt_duration (flagDuration f) @ '', jitter='' @ fmt_duration (flagJitter f)
     @ '') against '' @ serverURL f @ nl @ nl"

definition rounded :: "duration \<Rightarrow> string" where
  "rounded d = fmt_duration (duration_Round d 1000)"

definition columns :: "string \<Rightarrow> string list \<Rightarrow> string" where
  "columns key cells = pad_right 20 key @ concat (map (\<lambda>c. '' '' @ pad_left 10 c) cells) @ nl"

definition row_text :: "report_row \<Rightarrow> string" where
  "row_text r = columns (rowKey r)
     [fmt_d (rowAllowed r), fmt_d (rowRejected r), fmt_d (rowErrors r), rounded (rowP50 r), rounded (rowP99 r)]"

definition report_text :: "report \<Rightarrow> string" where
  "report_text rep =
     columns ''CLIENT'' [''ALLOWED'', ''REJECTED'', ''ERRORS'', ''P50'', ''P99'']
     @ concat (map row_text (rows rep))
     @ replicate 76 CHR ''-'' @ nl
     @ ''TOTAL: '' @ fmt_d (totalRequests rep) @ '' requests, '' @ fmt_d (totalAllowed rep) @ '' allowed, ''
     @ fmt_d (totalRejected rep) @ '' rejected, '' @ fmt_d (totalErrors rep) @ '' errors'' @ nl
     @ (if totalRequests rep > 0
        then ''Allow rate: '' @ fmt_fixed 1 (fdiv (rnd (100 * float_of (totalAllowed rep))) (float_of (totalRequests rep))) @ ''%'' @ nl
        else [])
     @ ''Latency p50='' @ rounded (allP50 rep) @ ''  p99='' @ rounded (allP99 rep) @ nl"

section \<open>The program\<close>

text \<open>What is printed and the exit status; \<open>None\<close> when some client never ends.\<close>

definition simulator_main :: "flags \<Rightarrow> (nat \<Rightarrow> world) \<Rightarrow> clientResult range_order \<Rightarrow> (string \<times> int) go option" where
  "simulator_main f ws arrive =
     (case profiles f of
        Panic \<Rightarrow> Some Panic
      | Ret ps \<Rightarrow>
          let outs = map (\<lambda>(i, p). runClient (ws i) p) (enumerate 0 ps) in
          if Some Panic \<in> set outs then Some Panic
          else case those outs of
                 None \<Rightarrow> None
               | Some sims \<Rightarrow>
                   let arrived = arrive (concat (map (\<lambda>x. case x of Ret s \<Rightarrow> [res s] | Panic \<Rightarrow> []) sims));
                       rep = final_report arrived
                   in Some (Ret (banner f @ report_text rep, exitCode rep)))"

section \<open>Properties\<close>

lemma digits_val_zeros: "digits_val (zeros n @ ds) = digits_val ds"
proof -
  have "fold (\<lambda>c v. v * 10 + digit_val c) (zeros n) 0 = 0" by (induction n) (simp_all add: zeros_def digit_val_def byte_def)
  then show ?thesis by (simp add: digits_val_def)
qed

lemma profile_key_inj: "profile_key prefix i = profile_key prefix j \<Longrightarrow> i = j"
  using digits_val_zeros [of _ "fmt_nat i"] digits_val_zeros [of _ "fmt_nat j"] fmt_nat_digits [of i] fmt_nat_digits [of j]
  by (simp add: profile_key_def pad3_def) metis

lemma sum_i64_exact:
  assumes "\<forall>x\<in>set xs. 0 \<le> x" "sum_list xs \<le> max_i64"
  shows "sum_i64 xs = sum_list xs"
proof -
  have "fold (\<lambda>x acc. i64 (acc + x)) xs a = a + sum_list xs" if "0 \<le> a" "a + sum_list xs \<le> max_i64" "\<forall>x\<in>set xs. 0 \<le> x" for a
    using that
  proof (induction xs arbitrary: a)
    case (Cons x xs)
    then have "0 \<le> sum_list xs" by (intro sum_list_nonneg) simp
    then have "i64 (a + x) = a + x" using Cons.prems by (intro i64_id) (simp add: is_i64_def max_i64_def)
    then show ?case using Cons.IH [of "a + x"] Cons.prems by simp
  qed simp
  from this [of 0] assms show ?thesis by (simp add: sum_i64_def)
qed

lemma those_Some: "those (map (\<lambda>x. Some (g x)) xs) = Some (map g xs)"
  by (induction xs) simp_all

lemma simulator_main_ends:
  assumes "\<And>i. i < n \<Longrightarrow> runClient (ws i) (profile_of f i) = Some (Ret (ss i))" "n = nat (numClients f)" "0 \<le> numClients f"
  shows "simulator_main f ws arrive =
    Some (Ret (banner f @ report_text (final_report (arrive (map (res \<circ> ss) [0..<n]))), exitCode (final_report (arrive (map (res \<circ> ss) [0..<n])))))"
proof -
  have ps: "profiles f = Ret (map (profile_of f) [0..<n])" using assms(2,3) by (simp add: profiles_def)
  have e: "map (\<lambda>(i, p). runClient (ws i) p) (enumerate 0 (map (profile_of f) [0..<n])) = map (\<lambda>i. Some (Ret (ss i))) [0..<n]"
    by (rule nth_equalityI) (simp_all add: nth_enumerate_eq assms(1))
  have "those (map (\<lambda>i. Some (Ret (ss i))) [0..<n]) = Some (map (\<lambda>i. Ret (ss i)) [0..<n])"
    by (rule those_Some)
  moreover have "concat (map (\<lambda>x. case x of Ret s \<Rightarrow> [res s] | Panic \<Rightarrow> []) (map (\<lambda>i. Ret (ss i)) [0..<n])) = map (res \<circ> ss) [0..<n]"
    by (induction n) simp_all
  ultimately show ?thesis by (auto simp: simulator_main_def ps e Let_def)
qed

lemma final_report_totals:
  assumes "mset rs = mset (map (res \<circ> ss) [0..<n])" "\<And>i. i < n \<Longrightarrow> accounted (ss i)"
    "int (\<Sum>i<n. sent (ss i)) \<le> max_i64"
  shows "totalRequests (printReport rs) = int (\<Sum>i<n. sent (ss i))"
    "exitCode (printReport rs) = (if \<exists>i<n. 0 < resErrors (res (ss i)) then 1 else 0)"
proof -
  have total: "sum_list (map g rs) = (\<Sum>i<n. g (res (ss i)))" for g :: "clientResult \<Rightarrow> int"
  proof -
    have "sum_list (map g rs) = sum_mset (mset (map g rs))" by (rule sum_mset_sum_list [symmetric])
    also have "mset (map g rs) = mset (map (\<lambda>i. g (res (ss i))) [0..<n])" using assms(1) by (simp add: multiset.map_comp comp_def)
    also have "sum_mset \<dots> = sum_list (map (\<lambda>i. g (res (ss i))) [0..<n])" by (rule sum_mset_sum_list)
    finally show ?thesis by (simp add: interv_sum_list_conv_sum_set_nat lessThan_atLeast0)
  qed
  have set: "set rs = (res \<circ> ss) ` {..<n}" using arg_cong [OF assms(1), of set_mset] by (simp add: lessThan_atLeast0)
  have each: "sent (ss i) \<le> (\<Sum>i<n. sent (ss i))" if "i < n" for i using that by (intro member_le_sum) simp_all
  have acc: "0 \<le> resAllowed (res (ss i))" "0 \<le> resRejected (res (ss i))" "0 \<le> resErrors (res (ss i))"
    "resAllowed (res (ss i)) + resRejected (res (ss i)) + resErrors (res (ss i)) = int (sent (ss i))" if "i < n" for i
    using assms(2) [OF that] each [OF that] assms(3) by (auto simp: accounted_def)
  let ?a = "\<Sum>i<n. resAllowed (res (ss i))" and ?r = "\<Sum>i<n. resRejected (res (ss i))" and ?e = "\<Sum>i<n. resErrors (res (ss i))"
  have all: "?a + ?r + ?e = int (\<Sum>i<n. sent (ss i))"
    by (simp add: sum.distrib [symmetric] acc(4))
  have pos: "0 \<le> ?a" "0 \<le> ?r" "0 \<le> ?e" using acc by (auto intro: sum_nonneg)
  have "sum_i64 (map resAllowed rs) = ?a" "sum_i64 (map resRejected rs) = ?r" "sum_i64 (map resErrors rs) = ?e"
  proof -
    have e: "sum_i64 (map g rs) = (\<Sum>i<n. g (res (ss i)))"
      if "\<And>i. i < n \<Longrightarrow> 0 \<le> g (res (ss i))" "(\<Sum>i<n. g (res (ss i))) \<le> max_i64" for g :: "clientResult \<Rightarrow> int"
      unfolding total [symmetric] by (rule sum_i64_exact) (use that in \<open>auto simp: set total\<close>)
    have "?a \<le> max_i64" "?r \<le> max_i64" "?e \<le> max_i64" using pos all assms(3) by linarith+
    then show "sum_i64 (map resAllowed rs) = ?a" "sum_i64 (map resRejected rs) = ?r" "sum_i64 (map resErrors rs) = ?e"
      using e acc(1-3) by blast+
  qed
  note sums = this
  have "i64 (?a + ?r) = ?a + ?r" "i64 (?a + ?r + ?e) = ?a + ?r + ?e"
    using pos all assms(3) by (intro i64_id is_i64I; unfold max_i64_def; linarith)+
  then show "totalRequests (printReport rs) = int (\<Sum>i<n. sent (ss i))" by (simp add: printReport_def sums all Let_def)
  have "0 < ?e \<longleftrightarrow> (\<exists>i<n. 0 < resErrors (res (ss i)))"
  proof -
    have "?e = 0 \<longleftrightarrow> (\<forall>i\<in>{..<n}. resErrors (res (ss i)) = 0)" by (rule sum_nonneg_eq_0_iff) (simp_all add: acc(3))
    then show ?thesis using acc(3) pos(3) by (metis lessThan_iff less_le)
  qed
  then show "exitCode (printReport rs) = (if \<exists>i<n. 0 < resErrors (res (ss i)) then 1 else 0)"
    by (simp add: printReport_def sums Let_def)
qed

text \<open>
  C39. The simulation ends, and its report is complete and does not depend on luck.  If the clocks
  go on (and the jitter is below 146 years), every client ends and the program prints its
  banner and the report on their results, sorted by key, one for each client; the text is the
  same in whatever order the clients finish.  Unless the count leaves 64 bits, the total is
  the number of requests sent, and the exit status is one exactly if some request failed.
\<close>

theorem simulation_completes:
  assumes "\<forall>i t. \<exists>N. \<forall>k\<ge>N. t \<le> now_at (ws i) k" "flagJitter f < 4611686018427387904" "0 \<le> numClients f"
    "is_range arrive" "n = nat (numClients f)"
  shows "\<exists>ss rs. (\<forall>i<n. runClient (ws i) (profile_of f i) = Some (Ret (ss i)))
    \<and> simulator_main f ws arrive = Some (Ret (banner f @ report_text (printReport rs), exitCode (printReport rs)))
    \<and> simulator_main f ws arrive = simulator_main f ws (\<lambda>rs. rs)
    \<and> mset rs = mset (map (res \<circ> ss) [0..<n]) \<and> sorted (map resAPIKey rs) \<and> distinct (map resAPIKey rs)
    \<and> set (map resAPIKey rs) = profile_key (keyPrefix f) ` {..<n}
    \<and> (int (\<Sum>i<n. sent (ss i)) \<le> max_i64 \<longrightarrow>
         totalRequests (printReport rs) = int (\<Sum>i<n. sent (ss i))
         \<and> exitCode (printReport rs) = (if \<exists>i<n. 0 < resErrors (res (ss i)) then 1 else 0))"
proof -
  have "\<exists>s. runClient (ws i) (profile_of f i) = Some (Ret s) \<and> accounted s \<and> resAPIKey (res s) = profile_key (keyPrefix f) i" for i
    using runClient_ends [of "ws i" "profile_of f i"] assms(1,2) by (auto simp: profile_of_def)
  then obtain ss where ss: "\<And>i. runClient (ws i) (profile_of f i) = Some (Ret (ss i))" "\<And>i. accounted (ss i)"
    "\<And>i. resAPIKey (res (ss i)) = profile_key (keyPrefix f) i" by metis
  let ?all = "map (res \<circ> ss) [0..<n]"
  have keys: "map resAPIKey ?all = map (profile_key (keyPrefix f)) [0..<n]" by (simp add: ss(3))
  have d: "distinct (map resAPIKey ?all)"
    unfolding keys by (auto simp: distinct_map inj_on_def dest: profile_key_inj)
  have m: "mset (arrive ?all) = mset ?all" using assms(4) by (simp add: is_range_def)
  let ?rs = "sort_key resAPIKey (arrive ?all)"
  have rs: "mset ?rs = mset ?all" using m by simp
  note run = simulator_main_ends [of n ws f ss, OF ss(1) assms(5,3)]
  have "final_report (arrive ?all) = final_report ?all"
    by (rule final_report_order [OF m]) (metis d m mset_map mset_eq_imp_distinct_iff)
  then have same: "simulator_main f ws arrive = simulator_main f ws (\<lambda>rs. rs)" unfolding run by simp
  have "mset (map resAPIKey ?rs) = mset (map resAPIKey ?all)" using rs by (simp only: mset_map)
  then have "distinct (map resAPIKey ?rs)" "set (map resAPIKey ?rs) = set (map resAPIKey ?all)"
    using d by (metis mset_eq_imp_distinct_iff, metis set_mset_mset)
  then have k: "distinct (map resAPIKey ?rs)" "set (map resAPIKey ?rs) = profile_key (keyPrefix f) ` {..<n}"
    unfolding keys by (simp_all add: lessThan_atLeast0)
  have "sorted (map resAPIKey ?rs)" by simp
  moreover have "int (\<Sum>i<n. sent (ss i)) \<le> max_i64 \<longrightarrow> totalRequests (printReport ?rs) = int (\<Sum>i<n. sent (ss i))
      \<and> exitCode (printReport ?rs) = (if \<exists>i<n. 0 < resErrors (res (ss i)) then 1 else 0)"
    using final_report_totals [OF rs ss(2)] by blast
  ultimately show ?thesis
    using ss(1) run [of arrive] same rs k
    by (intro exI [of _ ss] exI [of _ ?rs]) (simp only: final_report_def simp_thms)
qed

theorem simulation_completes_witness:
  "\<exists>rs. simulator_main default_flags (\<lambda>_. ticking_world) rev
      = Some (Ret (banner default_flags @ report_text (printReport rs), exitCode (printReport rs)))
     \<and> set (map resAPIKey rs) = profile_key ''sim-client'' ` {..<10}"
proof -
  have "\<forall>(i :: nat) t. \<exists>N. \<forall>k\<ge>N. t \<le> now_at ticking_world k"
  proof (intro allI)
    fix t :: gotime
    have "t \<le> now_at ticking_world k" if "k \<ge> nat t" for k using that by (simp add: ticking_world_def)
    then show "\<exists>N. \<forall>k\<ge>N. t \<le> now_at ticking_world k" by blast
  qed
  moreover have "is_range (rev :: clientResult range_order)" by (simp add: is_range_def)
  moreover have "flagJitter default_flags < 4611686018427387904" "0 \<le> numClients default_flags"
    "nat (numClients default_flags) = 10" "keyPrefix default_flags = ''sim-client''"
    by (simp_all add: default_flags_def)
  ultimately show ?thesis
    using simulation_completes [of "\<lambda>_. ticking_world" default_flags rev 10] by metis
qed

end
