(* ===== verification/Spec2Isabelle.thy ===== *)
theory Spec2Isabelle
  imports BucketRace StoreRace StoreThreadsLimit StoreThreadsProps StoreThreadsCalls RunLoop Exposition Lifecycle WireProps
    SimulatorMain
begin

text \<open>
  \<^bold>\<open>Sentinel: a rate limiter, verified.\<close>

  Sentinel (\<^verbatim>\<open>src/\<close>, Go) is a service that decides whether a client may make a request.
  A client of the decision API is identified by its API key; the request passes a global
  bucket, a bucket of its source address and a bucket of its tier, each a token bucket with
  an optional sliding window (\<^verbatim>\<open>internal/bucket\<close>, \<^verbatim>\<open>window\<close>,
  \<^verbatim>\<open>multibucket\<close>, \<^verbatim>\<open>store\<close>).  Buckets refill when they are used and, so that
  idle ones are up to date too, from a scheduler that keeps the next due times in a heap
  (\<^verbatim>\<open>internal/scheduler\<close>).  An admin API reconfigures, blocks and inspects clients
  (\<^verbatim>\<open>internal/server\<close>, \<^verbatim>\<open>security\<close>, \<^verbatim>\<open>audit\<close>, \<^verbatim>\<open>metrics\<close>,
  \<^verbatim>\<open>fairness\<close>); \<^verbatim>\<open>cmd/sentinel\<close> puts the parts together from a configuration file
  (\<^verbatim>\<open>internal/config\<close>), and \<^verbatim>\<open>cmd/simulator\<close> drives load against it.

  \<^bold>\<open>Conventions.\<close>  A struct is a \<^theory_text>\<open>record\<close>, a method a function on it that returns the
  new state.  \<^verbatim>\<open>int64\<close> and \<^verbatim>\<open>int\<close> are integers, with \<open>i64\<close> (wrap-around) at every
  operation that can overflow; a time is the number of nanoseconds since the epoch, with the
  zero time apart.  An out-of-range index or another panic is the value \<open>Panic\<close>.  A Go map is
  an association list without duplicate keys, and a loop over a map takes its order from the
  argument \<open>rng\<close>, about which only \<open>is_range\<close> is known.  Strings are bytes.  Floating-point
  numbers are rationals rounded to 53 bits after every operation.

  \<^bold>\<open>Theories.\<close>

  \<^item> \<open>GoPrelude\<close>: integers, durations, times, panics and maps of Go; the contract
    \<open>finite_map_contract\<close> of a map and its interpretation.  \<open>GoStrings\<close>, \<open>GoFormat\<close>,
    \<open>Float64\<close> (contract \<open>rounding\<close>) and \<open>Sha256\<close>: what the program uses of the standard
    library.

  \<^item> \<open>Window\<close> (\<^verbatim>\<open>internal/window/window.go\<close>): the ring buffer.  It never panics and decides
    exactly as the limiter that remembers every accepted request (a refinement), so that no
    interval of the window's length contains more accepted requests than allowed.

  \<^item> \<open>Bucket\<close> (\<^verbatim>\<open>internal/bucket/bucket.go\<close>): the token bucket, one call at a time.  Tokens
    stay in range; accepted requests are bounded by the initial tokens and the refills; the
    promised waiting time suffices; scheduled refills are invisible to later decisions; a
    rejection by the window is refunded.

  \<^item> \<open>BucketRace\<close>: the same code at the grain of its atomic operations, for any number of
    concurrent calls.  The rate limit holds under every interleaving; the cap on the balance
    holds without a window and fails with one; alone, a call is the sequential operation.

  \<^item> \<open>RefillHeap\<close>, \<open>Scheduler\<close> (\<^verbatim>\<open>internal/scheduler\<close>): the array heap of
    \<^verbatim>\<open>container/heap\<close> over entries that know their index, the map of entries, and one pass over
    the due entries.  The heap is abstracted to the table of pending due times (contract
    \<open>schedule_table\<close>).  \<open>RunLoop\<close>: the scheduler's goroutine as a step relation with timer,
    wake-up channel and concurrent calls; it never sleeps through a due time.

  \<^item> \<open>MultiBucket\<close> (\<^verbatim>\<open>internal/multibucket\<close>): the tiers of one client.

  \<^item> \<open>Store\<close>, \<open>StoreInvariant\<close>, \<open>StoreProps\<close> (\<^verbatim>\<open>internal/store/store.go\<close>): the operations, the
    invariant \<open>store_ok\<close> with one preservation lemma per operation (buckets in range,
    capacities, keys, and agreement of the schedule with the buckets), and what follows for
    every run of operations (contract \<open>safe_system\<close>): capacities, the global rate limit, least
    recently used eviction, blocking, order of the gates, refills by the scheduler.

  \<^item> \<open>StoreRace\<close>: a pass of the scheduler piece by piece, with calls of the store in between.
    No bucket is dropped from the schedule; two examples show what the window between callback
    and reschedule costs.

  \<^item> \<open>StoreThreads\<close>: the store as its goroutines see it, clients and buckets behind pointers, every
    call and every pass of the scheduler a thread whose steps are the sections under a lock, the
    atomic accesses, the scheduler calls and the bucket operations.  \<open>StoreThreadsSafe\<close>: capacities,
    ranges and pointers survive every interleaving.  \<open>StoreThreadsLimit\<close>: so does the rate limit of a
    client.  \<open>StoreThreadsProps\<close>: no bucket drops out of the schedule while configurations refill;
    three races show what else can happen.  \<open>StoreThreadsSolo\<close>, \<open>StoreThreadsCalls\<close>: a call that is
    not interrupted refines the operation of \<open>Store\<close>, from every reachable state.

  \<^item> \<open>Security\<close>, \<open>Identity\<close>, \<open>Fairness\<close>, \<open>Metrics\<close>, \<open>Exposition\<close>, \<open>AuditLog\<close>: validation, hashing
    and sanitising; who a request is from; weighted bookkeeping; counters, histogram and the
    text page, which reads back as the counts; audit entries.

  \<^item> \<open>ClientServer\<close>, \<open>AdminServer\<close>, \<open>Middleware\<close>, \<open>Listen\<close> (\<^verbatim>\<open>internal/server\<close>): the handlers,
    authentication, the connection limit, routing and the choice of the transport.  Every
    handler keeps the invariant, and only authenticated PUT requests change the store through
    the admin API.

  \<^item> \<open>GoJson\<close>, \<open>GoTime\<close>: JSON as \<^verbatim>\<open>encoding/json\<close> writes and reads it, with a pushdown machine
    for the decoder that inverts the encoder; calendar times, durations and decimals as text.
    \<open>Wire\<close>, \<open>WireProps\<close>: the text of every response and the decoding of the two admin bodies, and
    what a client reads: the decision of the store, and the configuration that was sent.

  \<^item> \<open>Config\<close>, \<open>ConfigParse\<close> (\<^verbatim>\<open>internal/config/config.go\<close>): schema, parser, overlay,
    validation; the parser inverts a printer of its subset of YAML, and what is loaded fits
    its types.

  \<^item> \<open>Sentinel\<close> (\<^verbatim>\<open>cmd/sentinel/main.go\<close>): start-up, and the service as a sequence of client
    requests, admin requests and ticks; the invariant holds throughout.

  \<^item> \<open>Lifecycle\<close> (the rest of \<^verbatim>\<open>main\<close>, with \<^verbatim>\<open>ListenAndServe\<close> and \<^verbatim>\<open>Shutdown\<close>): the listeners' goroutines,
    the signal, the wait group and the deadline as a step relation.  The end is orderly, and under
    weak fairness shutdown comes to an end, provided the signal does not come before the servers
    are set up; if it does, the process hangs.

  \<^item> \<open>Simulator\<close>, \<open>SimulatorMain\<close> (\<^verbatim>\<open>cmd/simulator/main.go\<close>): the client loop, which ends, the
    report and its text, which does not depend on the order in which the clients finish.

  \<^bold>\<open>Bounds.\<close>  Loops are total functions, with measures where they are not structural: the
  compaction loop (entries left), the sifts of the heap (positions), the pass over the due
  entries (heap size), the summing of durations (characters left).  The only partial function
  is the simulator's loop, which depends on the clock; that it ends is a theorem.  No fuel is
  used.  \<open>cfg_safe\<close>, the condition that refills do not overflow, follows from
  \<^verbatim>\<open>ValidateBucketConfig\<close> for everything the admin API accepts; for the configuration file it
  is the hypothesis \<open>operator_ok\<close>, since \<^verbatim>\<open>Validate\<close> does not check it.  Times are assumed to be
  valid (\<open>valid_time\<close>: within the range of \<^verbatim>\<open>UnixNano\<close> and not before the epoch).

  \<^bold>\<open>Not modelled.\<close>  TLS and X.509 beyond the question who gets through, HTTP timeouts, the
  parsing of HTTP itself and the text of log lines: library calls without logic of the
  program.  In \<open>AdminServer\<close> and \<open>Listen\<close> the decoders of bodies are arguments, so that their
  theorems hold for any; \<open>Wire\<close> defines them.  Of the
  concurrent store, the read-only calls (\<^verbatim>\<open>Status\<close>, \<^verbatim>\<open>ListClients\<close>, \<^verbatim>\<open>TierConfig\<close>) are not
  threads, and the bucket operations are single steps: their own races are the subject of
  \<open>BucketRace\<close>.
\<close>

end
